(* ===== verification/Tsm_Prelude.thy ===== *)
theory Tsm_Prelude
  imports Main "HOL-Library.Word"
begin

text \<open>
  Shared vocabulary of the development: the integer types of \<open>common/fm_Base.h\<close>, the ways a
  C operation can fail to return, sequencing of fallible operations, and checked access to a
  block of memory.

  A memory block is a list; a pointer into it is an \<open>int\<close> offset. Every read and write of the
  source goes through \<open>rd\<close>, \<open>rdn\<close>, \<open>wr\<close> or \<open>wrn\<close>, so that an access outside
  the block is the value \<open>Inl Out_Of_Bounds\<close> and never an unspecified element.
\<close>

named_theorems mem_simps \<open>evaluation of checked memory accesses\<close>

section \<open>Integer types and faults\<close>

type_synonym u8 = "8 word"
type_synonym u16 = "16 word"
type_synonym u32 = "32 word"

text \<open>
  What can go wrong instead of returning: a NULL pointer is followed, a pointer that is no
  address of an object is followed (an integer used as a pointer), a block is left, an
  operation has no defined result (a shift by the width or more), a loop
  never ends, a thread blocks on a lock it already holds.
\<close>

datatype fault = Null_Deref | Wild_Pointer | Out_Of_Bounds | Undefined | Hang | Deadlock

type_synonym 'a res = "fault + 'a"

definition bindR :: "'a res \<Rightarrow> ('a \<Rightarrow> 'b res) \<Rightarrow> 'b res" where
  "bindR m f = (case m of Inl e \<Rightarrow> Inl e | Inr x \<Rightarrow> f x)"

lemma bindR_simps [simp]:
  "bindR (Inl e) f = Inl e"
  "bindR (Inr x) f = f x"
  by (simp_all add: bindR_def)

lemma bindR_cong [fundef_cong]:
  "m = m' \<Longrightarrow> (\<And>x. m' = Inr x \<Longrightarrow> f x = f' x) \<Longrightarrow> bindR m f = bindR m' f'"
  by (auto simp: bindR_def split: sum.splits)

lemma bindR_Inr_iff: "bindR m f = Inr y \<longleftrightarrow> (\<exists>x. m = Inr x \<and> f x = Inr y)"
  by (cases m) auto

lemma bindR_assoc: "bindR (bindR m f) g = bindR m (\<lambda>x. bindR (f x) g)"
  by (cases m) auto

text \<open>A property of the result when there is one, by the structure of the code.\<close>

definition ensures :: "('a \<Rightarrow> bool) \<Rightarrow> 'a res \<Rightarrow> bool" where
  "ensures P m \<longleftrightarrow> (\<forall>y. m = Inr y \<longrightarrow> P y)"

lemma ensuresD: "ensures P m \<Longrightarrow> m = Inr y \<Longrightarrow> P y"
  by (simp add: ensures_def)

lemma ensures_intros:
  "ensures P (Inl e)" "P y \<Longrightarrow> ensures P (Inr y)"
  "(\<And>x. m = Inr x \<Longrightarrow> ensures P (f x)) \<Longrightarrow> ensures P (bindR m f)"
  "(b \<Longrightarrow> ensures P r) \<Longrightarrow> (\<not> b \<Longrightarrow> ensures P r') \<Longrightarrow> ensures P (if b then r else r')"
  "(\<And>z. z = d \<Longrightarrow> ensures P (g z)) \<Longrightarrow> ensures P (let z = d in g z)"
  "(\<And>a b. p = (a, b) \<Longrightarrow> ensures P (k a b)) \<Longrightarrow> ensures P (case p of (a, b) \<Rightarrow> k a b)"
  "(v = None \<Longrightarrow> ensures P r) \<Longrightarrow> (\<And>u. v = Some u \<Longrightarrow> ensures P (j u)) \<Longrightarrow>
     ensures P (case v of None \<Rightarrow> r | Some u \<Rightarrow> j u)"
  by (auto simp: ensures_def bindR_Inr_iff split: prod.splits option.splits)

text \<open>A loop over a list that threads a state and stops at the first fault.\<close>

fun foldR :: "('x \<Rightarrow> 's \<Rightarrow> 's res) \<Rightarrow> 'x list \<Rightarrow> 's \<Rightarrow> 's res" where
  "foldR f [] s = Inr s"
| "foldR f (x # xs) s = bindR (f x s) (foldR f xs)"

lemma foldR_append: "foldR f (xs @ ys) s = bindR (foldR f xs s) (foldR f ys)"
  by (induction xs arbitrary: s) (auto simp: bindR_def split: sum.splits)

text \<open>A pointer that may be NULL, followed.\<close>

definition deref :: "'a option \<Rightarrow> 'a res" where
  "deref p = (case p of None \<Rightarrow> Inl Null_Deref | Some x \<Rightarrow> Inr x)"

lemma deref_simps [simp]:
  "deref None = Inl Null_Deref"
  "deref (Some x) = Inr x"
  by (simp_all add: deref_def)

section \<open>Checked access to a block\<close>

definition rd :: "'a list \<Rightarrow> int \<Rightarrow> 'a res" where
  "rd b i = (if 0 \<le> i \<and> i < int (length b) then Inr (b ! nat i) else Inl Out_Of_Bounds)"

definition rdn :: "'a list \<Rightarrow> int \<Rightarrow> int \<Rightarrow> 'a list res" where
  "rdn b i n =
     (if 0 \<le> i \<and> 0 \<le> n \<and> i + n \<le> int (length b)
      then Inr (take (nat n) (drop (nat i) b)) else Inl Out_Of_Bounds)"

definition wr :: "'a list \<Rightarrow> int \<Rightarrow> 'a \<Rightarrow> 'a list res" where
  "wr b i x = (if 0 \<le> i \<and> i < int (length b) then Inr (b[nat i := x]) else Inl Out_Of_Bounds)"

definition wrn :: "'a list \<Rightarrow> int \<Rightarrow> 'a list \<Rightarrow> 'a list res" where
  "wrn b i xs =
     (if 0 \<le> i \<and> i + int (length xs) \<le> int (length b)
      then Inr (take (nat i) b @ xs @ drop (nat i + length xs) b) else Inl Out_Of_Bounds)"

lemma rd_nat [mem_simps]:
  "i < length b \<Longrightarrow> rd b (int i) = Inr (b ! i)"
  by (simp add: rd_def)

lemma rd_oob [mem_simps]: "i < 0 \<or> int (length b) \<le> i \<Longrightarrow> rd b i = Inl Out_Of_Bounds"
  by (auto simp: rd_def)

lemma rd_Inr_iff: "rd b i = Inr x \<longleftrightarrow> 0 \<le> i \<and> i < int (length b) \<and> x = b ! nat i"
  by (auto simp: rd_def)

lemma rdn_nat [mem_simps]:
  "i + n \<le> length b \<Longrightarrow> rdn b (int i) (int n) = Inr (take n (drop i b))"
  by (simp add: rdn_def)

lemma rdn_Inr_length: "rdn b i n = Inr xs \<Longrightarrow> int (length xs) = n"
  by (auto simp: rdn_def split: if_splits)

lemma wr_nat [mem_simps]: "i < length b \<Longrightarrow> wr b (int i) x = Inr (b[i := x])"
  by (simp add: wr_def)

lemma wr_0 [mem_simps]: "b \<noteq> [] \<Longrightarrow> wr b 0 x = Inr (b[0 := x])"
  by (simp add: wr_def)

lemma wrn_nat [mem_simps]:
  "i + length xs \<le> length b \<Longrightarrow>
   wrn b (int i) xs = Inr (take i b @ xs @ drop (i + length xs) b)"
  by (simp add: wrn_def)

lemma wr_Inr_length: "wr b i x = Inr b' \<Longrightarrow> length b' = length b"
  by (auto simp: wr_def split: if_splits)

lemma wrn_Inr_length: "wrn b i xs = Inr b' \<Longrightarrow> length b' = length b"
  by (auto simp: wrn_def split: if_splits)

lemma wrn_Inr_iff:
  "wrn b i xs = Inr b' \<longleftrightarrow> 0 \<le> i \<and> i + int (length xs) \<le> int (length b) \<and>
     b' = take (nat i) b @ xs @ drop (nat i + length xs) b"
  by (auto simp: wrn_def)

lemma rdn_wrn_same:
  "wrn b i xs = Inr b' \<Longrightarrow> rdn b' i (int (length xs)) = Inr xs"
  by (auto simp: wrn_Inr_iff rdn_def)

section \<open>NUL-terminated strings\<close>

text \<open>The string that starts at the beginning of a block, and its length as \<open>strlen\<close>
  finds it: a block without a NUL is read past its end.\<close>

definition cstr :: "u8 list \<Rightarrow> u8 list" where
  "cstr b = takeWhile (\<lambda>c. c \<noteq> 0) b"

definition strlen :: "u8 list \<Rightarrow> int res" where
  "strlen b = (if 0 \<in> set b then Inr (int (length (cstr b))) else Inl Out_Of_Bounds)"

definition cstring_of :: "string \<Rightarrow> u8 list" where
  "cstring_of s = map of_char s"

lemma cstr_append [simp]: "0 \<notin> set s \<Longrightarrow> cstr (s @ 0 # r) = s"
  by (induction s) (auto simp: cstr_def)

lemma strlen_append [simp]: "0 \<notin> set s \<Longrightarrow> strlen (s @ 0 # r) = Inr (int (length s))"
  by (simp add: strlen_def)

lemma cstr_nonzero: "0 \<notin> set (cstr b)"
  by (auto simp: cstr_def dest: set_takeWhileD)

lemma cstr_split:
  assumes "0 \<in> set b"
  obtains r where "b = cstr b @ 0 # r"
proof -
  have "dropWhile (\<lambda>c. c \<noteq> 0) b \<noteq> []"
    using assms by (simp add: dropWhile_eq_Nil_conv)
  then obtain x r where d: "dropWhile (\<lambda>c. c \<noteq> 0) b = x # r"
    by (cases "dropWhile (\<lambda>c. c \<noteq> 0) b") auto
  then have "x = 0"
    using hd_dropWhile [of "\<lambda>c. c \<noteq> 0" b] by auto
  then have "b = cstr b @ 0 # r"
    using d takeWhile_dropWhile_id [of "\<lambda>c. c \<noteq> 0" b] by (simp add: cstr_def)
  then show ?thesis by (rule that)
qed

section \<open>Lists of bytes\<close>

lemma unat_u8_less: "unat (x :: u8) < 256"
  by (rule order_less_le_trans [OF unsigned_less]) simp

lemma unat_u32_less: "unat (x :: u32) < 2 ^ 32"
  by (rule order_less_le_trans [OF unsigned_less]) simp

text \<open>The value of a big-endian byte string.\<close>

fun be_val :: "u8 list \<Rightarrow> nat" where
  "be_val [] = 0"
| "be_val (x # xs) = unat x * 256 ^ length xs + be_val xs"

lemma be_val_append: "be_val (xs @ ys) = be_val xs * 256 ^ length ys + be_val ys"
  by (induction xs) (auto simp: algebra_simps power_add)

lemma be_val_less: "be_val xs < 256 ^ length xs"
proof (induction xs)
  case (Cons x xs)
  have "unat x \<le> 255" using unat_u8_less [of x] by simp
  then have "unat x * 256 ^ length xs \<le> 255 * 256 ^ length xs" by (rule mult_le_mono1)
  with Cons have "unat x * 256 ^ length xs + be_val xs < 256 * 256 ^ length xs" by linarith
  then show ?case by simp
qed simp

lemma drop_past: "length a = k \<Longrightarrow> k \<le> m \<Longrightarrow> drop m (a @ drop k b) = drop m b"
  by simp

lemma take_update_last:
  "n < length xs \<Longrightarrow> take (Suc n) (xs[n := x]) = take n xs @ [x]"
  by (simp add: take_Suc_conv_app_nth)

text \<open>Reading where the remainder of the block is known.\<close>

lemma rd_drop:
  assumes "drop p b = c # r"
  shows "rd b (int p) = Inr c" and "p < length b" and "drop (Suc p) b = r" and "b ! p = c"
proof -
  show p: "p < length b" using assms by (cases "p < length b") auto
  then have "drop p b = b ! p # drop (Suc p) b" by (simp add: Cons_nth_drop_Suc)
  with assms show "drop (Suc p) b = r" "b ! p = c" by simp_all
  with p show "rd b (int p) = Inr c" by (simp add: rd_nat)
qed

lemma cstr_take:
  assumes "take (Suc (length w)) b = w @ [0]" and "0 \<notin> set w"
  shows "cstr b = w"
proof -
  have "b = w @ 0 # drop (Suc (length w)) b"
    using assms(1) append_take_drop_id [of "Suc (length w)" b] by simp
  then show ?thesis using assms(2) cstr_append by metis
qed

end
