(* ===== verification/Fm_List.thy ===== *)
theory Fm_List
  imports Tsm_Prelude
begin

text \<open>
  \<open>common/fm_List.h\<close>: intrusive circular doubly linked lists, modelled on their pointers. A heap
  gives the \<open>next\<close> and \<open>prev\<close> field of every list head; each operation is the sequence of
  pointer assignments of the source. \<open>dlist h q xs\<close> says that the head \<open>q\<close> is the start of a
  ring through exactly the nodes \<open>xs\<close>, in both directions; each operation is shown to act on
  that list as its name promises, and to leave disjoint lists alone.
\<close>

section \<open>Heap\<close>

type_synonym addr = nat

record lheap =
  nxt :: "addr \<Rightarrow> addr"
  prv :: "addr \<Rightarrow> addr"

definition set_next :: "addr \<Rightarrow> addr \<Rightarrow> 'z lheap_scheme \<Rightarrow> 'z lheap_scheme" where
  "set_next a v h = h\<lparr>nxt := (nxt h)(a := v)\<rparr>"

definition set_prev :: "addr \<Rightarrow> addr \<Rightarrow> 'z lheap_scheme \<Rightarrow> 'z lheap_scheme" where
  "set_prev a v h = h\<lparr>prv := (prv h)(a := v)\<rparr>"

lemma set_link_simps [simp]:
  "nxt (set_next a v h) = (nxt h)(a := v)" "prv (set_next a v h) = prv h"
  "nxt (set_prev a v h) = nxt h" "prv (set_prev a v h) = (prv h)(a := v)"
  by (simp_all add: set_next_def set_prev_def)

definition LIST_POISON1 :: addr where "LIST_POISON1 = 0x00100100"

definition LIST_POISON2 :: addr where "LIST_POISON2 = 0x00200200"

section \<open>Operations\<close>

definition INIT_LIST_HEAD :: "addr \<Rightarrow> 'z lheap_scheme \<Rightarrow> 'z lheap_scheme" where
  "INIT_LIST_HEAD l h = set_prev l l (set_next l l h)"

definition list_add_raw :: "addr \<Rightarrow> addr \<Rightarrow> addr \<Rightarrow> 'z lheap_scheme \<Rightarrow> 'z lheap_scheme" where
  "list_add_raw new prev next h =
     set_next prev new (set_prev new prev (set_next new next (set_prev next new h)))"

definition list_add_tail :: "addr \<Rightarrow> addr \<Rightarrow> 'z lheap_scheme \<Rightarrow> 'z lheap_scheme" where
  "list_add_tail new head h = list_add_raw new (prv h head) head h"

definition list_del_raw :: "addr \<Rightarrow> addr \<Rightarrow> 'z lheap_scheme \<Rightarrow> 'z lheap_scheme" where
  "list_del_raw prev next h = set_next prev next (set_prev next prev h)"

definition list_del_entry_raw :: "addr \<Rightarrow> 'z lheap_scheme \<Rightarrow> 'z lheap_scheme" where
  "list_del_entry_raw entry h = list_del_raw (prv h entry) (nxt h entry) h"

definition list_del :: "addr \<Rightarrow> 'z lheap_scheme \<Rightarrow> 'z lheap_scheme" where
  "list_del entry h =
     set_prev entry LIST_POISON2 (set_next entry LIST_POISON1
       (list_del_raw (prv h entry) (nxt h entry) h))"

definition list_replace :: "addr \<Rightarrow> addr \<Rightarrow> 'z lheap_scheme \<Rightarrow> 'z lheap_scheme" where
  "list_replace old new h =
     (let h = set_next new (nxt h old) h;
          h = set_prev (nxt h new) new h;
          h = set_prev new (prv h old) h;
          h = set_next (prv h new) new h
      in h)"

definition list_replace_init :: "addr \<Rightarrow> addr \<Rightarrow> 'z lheap_scheme \<Rightarrow> 'z lheap_scheme" where
  "list_replace_init old new h = INIT_LIST_HEAD old (list_replace old new h)"

definition list_del_init :: "addr \<Rightarrow> 'z lheap_scheme \<Rightarrow> 'z lheap_scheme" where
  "list_del_init entry h = INIT_LIST_HEAD entry (list_del_entry_raw entry h)"

definition list_move_tail :: "addr \<Rightarrow> addr \<Rightarrow> 'z lheap_scheme \<Rightarrow> 'z lheap_scheme" where
  "list_move_tail l head h = list_add_tail l head (list_del_entry_raw l h)"

definition list_is_last :: "addr \<Rightarrow> addr \<Rightarrow> 'z lheap_scheme \<Rightarrow> bool" where
  "list_is_last l head h \<longleftrightarrow> nxt h l = head"

definition list_empty :: "addr \<Rightarrow> 'z lheap_scheme \<Rightarrow> bool" where
  "list_empty head h \<longleftrightarrow> nxt h head = head"

definition list_empty_careful :: "addr \<Rightarrow> 'z lheap_scheme \<Rightarrow> bool" where
  "list_empty_careful head h \<longleftrightarrow> nxt h head = head \<and> nxt h head = prv h head"

definition list_rotate_left :: "addr \<Rightarrow> 'z lheap_scheme \<Rightarrow> 'z lheap_scheme" where
  "list_rotate_left head h =
     (if \<not> list_empty head h then list_move_tail (nxt h head) head h else h)"

definition list_is_singular :: "addr \<Rightarrow> 'z lheap_scheme \<Rightarrow> bool" where
  "list_is_singular head h \<longleftrightarrow> \<not> list_empty head h \<and> nxt h head = prv h head"

definition list_cut_position_raw ::
  "addr \<Rightarrow> addr \<Rightarrow> addr \<Rightarrow> 'z lheap_scheme \<Rightarrow> 'z lheap_scheme"
where
  "list_cut_position_raw l head entry h =
     (let new_first = nxt h entry;
          h = set_next l (nxt h head) h;
          h = set_prev (nxt h l) l h;
          h = set_prev l entry h;
          h = set_next entry l h;
          h = set_next head new_first h;
          h = set_prev new_first head h
      in h)"

definition list_cut_position ::
  "addr \<Rightarrow> addr \<Rightarrow> addr \<Rightarrow> 'z lheap_scheme \<Rightarrow> 'z lheap_scheme"
where
  "list_cut_position l head entry h =
     (if list_empty head h then h
      else if list_is_singular head h \<and> nxt h head \<noteq> entry \<and> head \<noteq> entry then h
      else if entry = head then INIT_LIST_HEAD l h
      else list_cut_position_raw l head entry h)"

definition list_splice_raw ::
  "addr \<Rightarrow> addr \<Rightarrow> addr \<Rightarrow> 'z lheap_scheme \<Rightarrow> 'z lheap_scheme"
where
  "list_splice_raw l prev next h =
     (let first = nxt h l; last = prv h l;
          h = set_prev first prev h;
          h = set_next prev first h;
          h = set_next last next h;
          h = set_prev next last h
      in h)"

definition list_splice :: "addr \<Rightarrow> addr \<Rightarrow> 'z lheap_scheme \<Rightarrow> 'z lheap_scheme" where
  "list_splice l head h =
     (if \<not> list_empty l h then list_splice_raw l head (nxt h head) h else h)"

definition list_splice_tail :: "addr \<Rightarrow> addr \<Rightarrow> 'z lheap_scheme \<Rightarrow> 'z lheap_scheme" where
  "list_splice_tail l head h =
     (if \<not> list_empty l h then list_splice_raw l (prv h head) head h else h)"

definition list_splice_init :: "addr \<Rightarrow> addr \<Rightarrow> 'z lheap_scheme \<Rightarrow> 'z lheap_scheme" where
  "list_splice_init l head h =
     (if \<not> list_empty l h then INIT_LIST_HEAD l (list_splice_raw l head (nxt h head) h) else h)"

definition list_splice_tail_init :: "addr \<Rightarrow> addr \<Rightarrow> 'z lheap_scheme \<Rightarrow> 'z lheap_scheme" where
  "list_splice_tail_init l head h =
     (if \<not> list_empty l h then INIT_LIST_HEAD l (list_splice_raw l (prv h head) head h) else h)"

text \<open>The nodes \<open>list_for_each\<close> visits from \<open>pos\<close> on, if the walk reaches the head again.\<close>

partial_function (option) list_walk :: "addr \<Rightarrow> 'z lheap_scheme \<Rightarrow> addr \<Rightarrow> addr list option" where
  "list_walk head h pos =
     (if pos = head then Some []
      else Option.bind (list_walk head h (nxt h pos)) (\<lambda>xs. Some (pos # xs)))"

definition list_for_each :: "addr \<Rightarrow> 'z lheap_scheme \<Rightarrow> addr list option" where
  "list_for_each head h = list_walk head h (nxt h head)"

text \<open>
  \<open>list_for_each_safe\<close>: the successor of the current node is read before the body runs, so
  the body may unlink the node.
\<close>

partial_function (option) walk_safe ::
  "addr \<Rightarrow> (addr \<Rightarrow> 'z lheap_scheme \<Rightarrow> 'z lheap_scheme) \<Rightarrow> addr \<Rightarrow> addr \<Rightarrow> 'z lheap_scheme
     \<Rightarrow> 'z lheap_scheme option"
where
  "walk_safe head body pos n h =
     (if pos = head then Some h
      else let h = body pos h in walk_safe head body n (nxt h n) h)"

definition list_for_each_safe ::
  "addr \<Rightarrow> (addr \<Rightarrow> 'z lheap_scheme \<Rightarrow> 'z lheap_scheme) \<Rightarrow> 'z lheap_scheme \<Rightarrow> 'z lheap_scheme option"
where
  "list_for_each_safe head body h =
     (let pos = nxt h head in walk_safe head body pos (nxt h pos) h)"

section \<open>Locked lists\<close>

text \<open>
  \<open>list_t\<close> pairs a list head with a default (non recursive) mutex. A thread that locks a mutex
  it already holds waits for ever.
\<close>

record list_t =
  lt_head :: addr
  lt_lock :: bool

definition LOCK :: "list_t \<Rightarrow> list_t res" where
  "LOCK l = (if lt_lock l then Inl Deadlock else Inr (l\<lparr>lt_lock := True\<rparr>))"

definition UNLOCK :: "list_t \<Rightarrow> list_t" where
  "UNLOCK l = l\<lparr>lt_lock := False\<rparr>"

definition list_init :: "list_t \<Rightarrow> 'z lheap_scheme \<Rightarrow> list_t \<times> 'z lheap_scheme" where
  "list_init l h = (l\<lparr>lt_lock := False\<rparr>, INIT_LIST_HEAD (lt_head l) h)"

definition list_add_entry ::
  "list_t \<Rightarrow> addr \<Rightarrow> 'z lheap_scheme \<Rightarrow> (list_t \<times> 'z lheap_scheme) res"
where
  "list_add_entry l e h = bindR (LOCK l) (\<lambda>l. Inr (UNLOCK l, list_add_tail e (lt_head l) h))"

definition list_del_entry ::
  "list_t \<Rightarrow> addr \<Rightarrow> 'z lheap_scheme \<Rightarrow> (list_t \<times> 'z lheap_scheme) res"
where
  "list_del_entry l e h = bindR (LOCK l) (\<lambda>l. Inr (UNLOCK l, list_del e h))"

definition list_queue_tail ::
  "list_t \<Rightarrow> addr \<Rightarrow> 'z lheap_scheme \<Rightarrow> (list_t \<times> 'z lheap_scheme) res"
where
  "list_queue_tail l e h = list_add_entry l e h"

text \<open>The body of \<open>list_dequeue_head\<close> is empty: whatever is returned (\<open>junk\<close>), the list stays.\<close>

definition list_dequeue_head ::
  "addr \<Rightarrow> list_t \<Rightarrow> 'z lheap_scheme \<Rightarrow> addr \<times> list_t \<times> 'z lheap_scheme"
where
  "list_dequeue_head junk l h = (junk, l, h)"

section \<open>Paths and rings\<close>

fun linked :: "'z lheap_scheme \<Rightarrow> addr list \<Rightarrow> bool" where
  "linked h (a # b # r) = (nxt h a = b \<and> prv h b = a \<and> linked h (b # r))"
| "linked h _ = True"

definition dlist :: "'z lheap_scheme \<Rightarrow> addr \<Rightarrow> addr list \<Rightarrow> bool" where
  "dlist h q xs \<longleftrightarrow> distinct (q # xs) \<and> linked h (q # xs @ [q])"

lemma linked_join: "linked h (xs @ a # ys) \<longleftrightarrow> linked h (xs @ [a]) \<and> linked h (a # ys)"
proof (induction xs)
  case (Cons x xs)
  then show ?case by (cases xs) auto
qed simp

lemma linked_cong:
  "(\<And>a. a \<in> set (butlast xs) \<Longrightarrow> nxt h' a = nxt h a) \<Longrightarrow>
   (\<And>a. a \<in> set (tl xs) \<Longrightarrow> prv h' a = prv h a) \<Longrightarrow> linked h' xs = linked h xs"
  by (induction h xs rule: linked.induct) auto

text \<open>Linking two ends: what \<open>a->next = b; b->prev = a\<close> does to two paths.\<close>

definition link :: "addr \<Rightarrow> addr \<Rightarrow> 'z lheap_scheme \<Rightarrow> 'z lheap_scheme" where
  "link a b h = set_next a b (set_prev b a h)"

lemma link_simps [simp]:
  "nxt (link a b h) = (nxt h)(a := b)" "prv (link a b h) = (prv h)(b := a)"
  by (simp_all add: link_def)

lemma linked_link_other:
  assumes "a \<notin> set (butlast xs)" and "b \<notin> set (tl xs)"
  shows "linked (link a b h) xs = linked h xs"
  by (rule linked_cong) (use assms in auto)

lemma linked_link:
  assumes "linked h (us @ [a])" and "linked h (b # vs)"
    and "a \<notin> set us" and "a \<notin> set (butlast (b # vs))"
    and "b \<notin> set (tl (us @ [a]))" and "b \<notin> set vs"
  shows "linked (link a b h) (us @ a # b # vs)"
proof -
  have "linked (link a b h) (us @ [a])"
    using assms by (subst linked_link_other) auto
  moreover have "linked (link a b h) (b # vs)"
    using assms by (subst linked_link_other) auto
  ultimately show ?thesis
    using linked_join [of "link a b h" us a "b # vs"] by simp
qed

lemma list_raw_link:
  "list_add_raw new p n h = link p new (link new n h)"
  "list_del_raw p n h = link p n h"
  "list_splice_raw l p n h = link (prv h l) n (link p (nxt h l) h)"
  "INIT_LIST_HEAD l h = link l l h"
  "list_cut_position_raw l q e h =
     (let f = nxt h q; n = nxt h e in link q n (link e l (link l f h)))"
  by (simp_all add: list_add_raw_def list_del_raw_def list_splice_raw_def INIT_LIST_HEAD_def
      list_cut_position_raw_def link_def Let_def set_next_def set_prev_def fun_upd_twist)

section \<open>Insertion and deletion in a ring\<close>

text \<open>The neighbours of a position: the node before \<open>ys\<close> and the node after \<open>xs\<close>.\<close>

fun pred_of :: "addr \<Rightarrow> addr list \<Rightarrow> addr" where
  "pred_of q [] = q"
| "pred_of q (x # xs) = pred_of x xs"

fun succ_of :: "addr list \<Rightarrow> addr \<Rightarrow> addr" where
  "succ_of [] q = q"
| "succ_of (y # ys) q = y"

lemma pred_of_snoc [simp]: "pred_of q (xs @ [x]) = x"
  by (induction q xs rule: pred_of.induct) auto

lemma pred_of_append [simp]: "pred_of q (xs @ x # ys) = pred_of x ys"
  by (induction q xs rule: pred_of.induct) auto

lemma succ_of_append: "succ_of (xs @ x # ys) q = succ_of (xs @ [x]) q"
  by (cases xs) auto

lemma pred_of_in: "pred_of q xs \<in> insert q (set xs)"
  by (induction q xs rule: pred_of.induct) auto

lemma succ_of_in: "succ_of ys q \<in> insert q (set ys)"
  by (cases ys) auto

lemma ring_front: "\<exists>us. q # xs = us @ [pred_of q xs]"
proof (induction q xs rule: pred_of.induct)
  case (2 q x xs)
  then obtain us where "x # xs = us @ [pred_of x xs]" by blast
  then have "q # x # xs = (q # us) @ [pred_of q (x # xs)]" by simp
  then show ?case by blast
qed simp

lemma ring_rear: "\<exists>vs. ys @ [q] = succ_of ys q # vs"
  by (cases ys) auto

lemma ring_ends:
  obtains us vs where "q # xs = us @ [pred_of q xs]" and "ys @ [q] = succ_of ys q # vs"
  using ring_front ring_rear by blast

lemma dlist_distinct: "dlist h q xs \<Longrightarrow> distinct (q # xs)"
  by (simp add: dlist_def)

lemma dlist_nxt_head: "dlist h q xs \<Longrightarrow> nxt h q = succ_of xs q"
  by (cases xs) (auto simp: dlist_def)

lemma linked_last: "linked h (xs @ [a, b]) \<Longrightarrow> nxt h a = b \<and> prv h b = a"
  using linked_join [of h xs a "[b]"] by simp

lemma linked_ring: "dlist h q xs \<Longrightarrow> linked h ((q # xs) @ [q])"
  by (simp add: dlist_def)

lemma linked_pred: "linked h ((q # xs) @ [e]) \<Longrightarrow> prv h e = pred_of q xs \<and> nxt h (pred_of q xs) = e"
proof -
  assume l: "linked h ((q # xs) @ [e])"
  obtain us where us: "q # xs = us @ [pred_of q xs]" using ring_front by blast
  have "linked h (us @ [pred_of q xs, e])" using l unfolding us by simp
  then show ?thesis by (auto dest: linked_last)
qed

lemma linked_succ: "linked h (e # ys @ [q]) \<Longrightarrow> nxt h e = succ_of ys q \<and> prv h (succ_of ys q) = e"
  by (cases ys) auto

lemma dlist_prv_head: "dlist h q xs \<Longrightarrow> prv h q = pred_of q xs"
  using linked_ring linked_pred by blast

lemma dlist_split:
  assumes "dlist h q (xs @ e # ys)"
  shows "linked h ((q # xs) @ [e])" and "linked h (e # ys @ [q])"
  using linked_ring [OF assms] linked_join [of h "q # xs" e "ys @ [q]"] by auto

lemma dlist_nbr:
  assumes "dlist h q (xs @ e # ys)"
  shows "prv h e = pred_of q xs" and "nxt h e = succ_of ys q"
  using linked_pred [OF dlist_split(1) [OF assms]] linked_succ [OF dlist_split(2) [OF assms]]
  by simp_all

lemma linked_prefix: "linked h (xs @ ys) \<Longrightarrow> linked h xs"
  by (induction h xs rule: linked.induct) auto

lemma linked_suffix: "linked h (xs @ ys) \<Longrightarrow> linked h ys"
proof (induction xs)
  case (Cons x xs)
  then show ?case by (cases "xs @ ys") auto
qed simp

lemma linked_cat:
  assumes "linked h (q # xs)" and "linked h (y # r)" and "distinct (q # xs)" and "distinct (y # r)"
    and "set xs \<inter> set (y # r) = {}" and "q \<notin> set (butlast (y # r))"
  shows "linked (link (pred_of q xs) y h) (q # xs @ y # r)"
proof -
  obtain us where us: "q # xs = us @ [pred_of q xs]" using ring_front by blast
  define p where "p = pred_of q xs"
  have u: "q # xs = us @ [p]" using us by (simp add: p_def)
  have "linked (link p y h) (us @ p # y # r)"
  proof (rule linked_link)
    show "linked h (us @ [p])" "linked h (y # r)" using assms(1,2) u by auto
    have "distinct (us @ [p])" using assms(3) u by metis
    then show "p \<notin> set us" by simp
    have "p \<in> insert q (set xs)" unfolding p_def by (rule pred_of_in)
    then show "p \<notin> set (butlast (y # r))" using assms(5,6) by (auto dest: in_set_butlastD)
    have "List.tl (us @ [p]) = xs" by (metis list.sel(3) u)
    then show "y \<notin> set (List.tl (us @ [p]))" using assms(5) by auto
    show "y \<notin> set r" using assms(4) by simp
  qed
  moreover have "us @ p # y # r = q # xs @ y # r" using u by (metis append_Cons append_Nil append_assoc)
  ultimately show ?thesis by (simp only: p_def)
qed

lemma in_set_tl: "x \<in> set (List.tl xs) \<Longrightarrow> x \<in> set xs"
  by (cases xs) auto

lemma dlist_link:
  assumes "linked h (q # xs)" and "linked h (ys @ [q])" and "distinct (q # xs @ ys)"
  shows "dlist (link (pred_of q xs) (succ_of ys q) h) q (xs @ ys)"
proof -
  obtain r where r: "ys @ [q] = succ_of ys q # r" using ring_rear by blast
  have "set (succ_of ys q # r) = insert q (set ys)" using arg_cong [OF r, of set] by simp
  moreover have "distinct (succ_of ys q # r)" using assms(3) by (fold r) auto
  moreover have "butlast (succ_of ys q # r) = ys" by (fold r) simp
  ultimately have "linked (link (pred_of q xs) (succ_of ys q) h) (q # xs @ succ_of ys q # r)"
    using assms r by (intro linked_cat) auto
  then show ?thesis using assms(3) r by (simp add: dlist_def)
qed

lemma dlist_add_between:
  assumes "dlist h q (xs @ ys)" and "new \<notin> set (q # xs @ ys)"
  shows "dlist (list_add_raw new (pred_of q xs) (succ_of ys q) h) q (xs @ new # ys)"
proof -
  define h1 where "h1 = link new (succ_of ys q) h"
  have d: "distinct (q # xs @ ys)" and r: "linked h ((q # xs) @ ys @ [q])"
    using assms(1) by (auto simp: dlist_def)
  have n: "succ_of ys q \<in> set (ys @ [q])" using succ_of_in [of ys q] by auto
  have front: "linked h1 (q # xs)"
    using linked_prefix [OF r] assms(2) d n unfolding h1_def
    by (subst linked_link_other) (auto dest: in_set_butlastD)
  have "linked h1 ([] @ new # succ_of ys q # List.tl (ys @ [q]))"
    unfolding h1_def
  proof (rule linked_link)
    show "linked h (succ_of ys q # List.tl (ys @ [q]))"
      using linked_suffix [OF r] by (cases ys) auto
    show "succ_of ys q \<notin> set (List.tl (ys @ [q]))" using d by (cases ys) auto
    show "new \<notin> set (butlast (succ_of ys q # List.tl (ys @ [q])))"
      using assms(2) by (cases ys) (auto dest: in_set_butlastD)
  qed auto
  moreover have "succ_of ys q # List.tl (ys @ [q]) = ys @ [q]" by (cases ys) auto
  ultimately have rear: "linked h1 ((new # ys) @ [q])" by simp
  have "dlist (link (pred_of q xs) (succ_of (new # ys) q) h1) q (xs @ new # ys)"
    by (rule dlist_link [OF front rear]) (use d assms(2) in auto)
  then show ?thesis by (simp add: list_raw_link h1_def)
qed

lemma dlist_del_between:
  assumes "dlist h q (xs @ e # ys)"
  shows "dlist (list_del_entry_raw e h) q (xs @ ys)"
proof -
  have "linked h (q # xs)" "linked h (ys @ [q])"
    using linked_prefix [OF dlist_split(1) [OF assms]]
      linked_suffix [of h "[e]"] dlist_split(2) [OF assms] by auto
  moreover have "distinct (q # xs @ ys)" using assms by (auto simp: dlist_def)
  ultimately show ?thesis
    by (simp add: list_del_entry_raw_def list_raw_link dlist_nbr [OF assms] dlist_link)
qed

text \<open>A ring only depends on the links of its own nodes.\<close>

lemma dlist_cong:
  assumes "\<And>a. a \<in> insert q (set xs) \<Longrightarrow> nxt h' a = nxt h a \<and> prv h' a = prv h a"
  shows "dlist h' q xs = dlist h q xs"
  unfolding dlist_def
  by (subst linked_cong [of "q # xs @ [q]" h' h]) (use assms in \<open>auto dest: in_set_butlastD\<close>)

lemma dlist_link_frame:
  "a \<notin> insert q (set xs) \<Longrightarrow> b \<notin> insert q (set xs) \<Longrightarrow> dlist (link a b h) q xs = dlist h q xs"
  by (rule dlist_cong) auto

lemma dlist_set_frame [simp]:
  "a \<notin> insert q (set xs) \<Longrightarrow> dlist (set_next a v h) q xs = dlist h q xs"
  "a \<notin> insert q (set xs) \<Longrightarrow> dlist (set_prev a v h) q xs = dlist h q xs"
  by (rule dlist_cong; auto)+

lemma dlist_INIT_LIST_HEAD: "dlist (INIT_LIST_HEAD q h) q []"
  by (simp add: dlist_def INIT_LIST_HEAD_def)

lemma dlist_INIT_frame:
  "l \<notin> insert q (set xs) \<Longrightarrow> dlist (INIT_LIST_HEAD l h) q xs = dlist h q xs"
  by (simp add: list_raw_link dlist_link_frame)

section \<open>What the operations do to a ring\<close>

lemma list_add_tail_ring:
  assumes "dlist h q xs" and "new \<notin> set (q # xs)"
  shows "dlist (list_add_tail new q h) q (xs @ [new])"
  using dlist_add_between [of h q xs "[]" new] assms
  by (simp add: list_add_tail_def dlist_prv_head)

lemma list_add_tail_frame:
  assumes "dlist h q xs" and "set (q # new # xs) \<inter> set (r # zs) = {}"
  shows "dlist (list_add_tail new q h) r zs = dlist h r zs"
proof -
  have "pred_of q xs \<notin> insert r (set zs)" "q \<notin> insert r (set zs)" "new \<notin> insert r (set zs)"
    using assms(2) pred_of_in [of q xs] by auto
  then show ?thesis
    by (simp add: list_add_tail_def dlist_prv_head [OF assms(1)] list_raw_link dlist_link_frame)
qed

lemma list_del_entry_raw_frame:
  assumes "dlist h q (xs @ e # ys)" and "set (q # xs @ ys) \<inter> set (r # zs) = {}"
  shows "dlist (list_del_entry_raw e h) r zs = dlist h r zs"
proof -
  have "pred_of q xs \<notin> insert r (set zs)" "succ_of ys q \<notin> insert r (set zs)"
    using assms(2) pred_of_in [of q xs] succ_of_in [of ys q] by auto
  then show ?thesis
    by (simp add: list_del_entry_raw_def list_raw_link dlist_nbr [OF assms(1)] dlist_link_frame)
qed

lemma list_del_eq: "list_del e h = set_prev e LIST_POISON2 (set_next e LIST_POISON1 (list_del_entry_raw e h))"
  by (simp add: list_del_def list_del_entry_raw_def)

lemma list_del_ring:
  assumes "dlist h q (xs @ e # ys)"
  shows "dlist (list_del e h) q (xs @ ys)"
  using dlist_del_between [OF assms] dlist_distinct [OF assms]
  by (simp add: list_del_eq)

lemma dlist_in_split:
  assumes "dlist h q xs" and "e \<in> set xs"
  obtains us vs where "xs = us @ e # vs" and "e \<notin> set (us @ vs)" and "remove1 e xs = us @ vs"
proof -
  obtain us vs where xs: "xs = us @ e # vs" using assms(2) by (meson split_list)
  moreover have "e \<notin> set (us @ vs)" using dlist_distinct [OF assms(1)] xs by simp
  ultimately show ?thesis using that by (simp add: remove1_append)
qed

lemma walk_safe_filter:
  assumes "dlist h q (us @ xs)"
  shows "\<exists>h'. walk_safe q (\<lambda>e h. if P e then list_del e h else h)
                (succ_of xs q) (nxt h (succ_of xs q)) h = Some h'
              \<and> dlist h' q (us @ filter (\<lambda>e. \<not> P e) xs)"
  using assms
proof (induction xs arbitrary: us h)
  case Nil
  then show ?case by (subst walk_safe.simps) simp
next
  case (Cons x xs)
  let ?body = "\<lambda>e h. if P e then list_del e h else h"
  have d: "distinct (q # us @ x # xs)" using Cons.prems by (rule dlist_distinct)
  have n: "nxt h x = succ_of xs q" using dlist_nbr(2) [OF Cons.prems] .
  define us' where "us' = (if P x then us else us @ [x])"
  have ring: "dlist (?body x h) q (us' @ xs)"
    using Cons.prems list_del_ring [OF Cons.prems] by (simp add: us'_def)
  have step: "walk_safe q ?body x (nxt h x) h
      = walk_safe q ?body (succ_of xs q) (nxt (?body x h) (succ_of xs q)) (?body x h)"
    using d by (subst walk_safe.simps) (auto simp: Let_def n)
  have "us' @ filter (\<lambda>e. \<not> P e) xs = us @ filter (\<lambda>e. \<not> P e) (x # xs)" by (simp add: us'_def)
  then show ?case using Cons.IH [OF ring] by (simp only: succ_of.simps step)
qed

lemma list_walk_ring:
  assumes "dlist h q (us @ xs)"
  shows "list_walk q h (succ_of xs q) = Some xs"
  using assms
proof (induction xs arbitrary: us)
  case Nil
  then show ?case by (subst list_walk.simps) simp
next
  case (Cons x xs)
  have "x \<noteq> q" using dlist_distinct [OF Cons.prems] by auto
  moreover have "list_walk q h (succ_of xs q) = Some xs" using Cons.IH [of "us @ [x]"] Cons.prems by simp
  ultimately show ?case
    by (subst succ_of.simps, subst list_walk.simps) (simp add: dlist_nbr(2) [OF Cons.prems])
qed

lemma list_is_last_ring: "dlist h q (xs @ e # ys) \<Longrightarrow> list_is_last e q h \<longleftrightarrow> ys = []"
  using dlist_nbr(2) [of h q xs e ys] dlist_distinct [of h q "xs @ e # ys"]
  by (cases ys) (auto simp: list_is_last_def)

lemma list_empty_ring: "dlist h q xs \<Longrightarrow> list_empty q h \<longleftrightarrow> xs = []"
  using dlist_nxt_head [of h q xs] dlist_distinct [of h q xs]
  by (cases xs) (auto simp: list_empty_def)

lemma list_empty_careful_ring: "dlist h q xs \<Longrightarrow> list_empty_careful q h \<longleftrightarrow> xs = []"
  using list_empty_ring [of h q xs] dlist_prv_head [of h q xs]
  by (auto simp: list_empty_careful_def list_empty_def)

lemma list_is_singular_ring:
  assumes "dlist h q xs"
  shows "list_is_singular q h \<longleftrightarrow> length xs = 1"
proof (cases xs)
  case Nil
  then show ?thesis using list_empty_ring [OF assms] by (simp add: list_is_singular_def)
next
  case (Cons x r)
  have "pred_of x r = x \<longleftrightarrow> r = []"
    using dlist_distinct [OF assms] pred_of_in [of "List.hd r" "List.tl r"] Cons by (cases r) auto
  then show ?thesis
    using assms Cons list_empty_ring [OF assms] dlist_nxt_head [OF assms] dlist_prv_head [OF assms]
    by (auto simp: list_is_singular_def)
qed

lemma list_move_tail_ring:
  assumes "dlist h q (xs @ e # ys)"
  shows "dlist (list_move_tail e q h) q (xs @ ys @ [e])"
  using list_add_tail_ring [OF dlist_del_between [OF assms], of e] dlist_distinct [OF assms]
  by (simp add: list_move_tail_def)

lemma list_rotate_left_ring:
  assumes "dlist h q xs"
  shows "dlist (list_rotate_left q h) q (rotate1 xs)"
proof (cases xs)
  case (Cons x r)
  then show ?thesis
    using list_move_tail_ring [of h q "[]" x r] assms list_empty_ring [OF assms]
      dlist_nxt_head [OF assms]
    by (simp add: list_rotate_left_def)
qed (use assms list_empty_ring [OF assms] in \<open>simp add: list_rotate_left_def\<close>)

lemma list_for_each_ring: "dlist h q xs \<Longrightarrow> list_for_each q h = Some xs"
  using list_walk_ring [of h q "[]" xs] by (simp add: list_for_each_def dlist_nxt_head)

lemma list_replace_ring:
  assumes "dlist h q (xs @ old # ys)" and "new \<notin> set (q # xs @ old # ys)"
  shows "dlist (list_replace old new h) q (xs @ new # ys)"
proof -
  let ?p = "pred_of q xs" and ?n = "succ_of ys q"
  have d: "distinct (q # xs @ old # ys)" using dlist_distinct [OF assms(1)] .
  have "?p \<noteq> new" "?n \<noteq> new" "?p \<noteq> old" "?n \<noteq> old"
    using assms(2) d pred_of_in [of q xs] succ_of_in [of ys q] by auto
  then have "list_replace old new h = list_add_raw new ?p ?n (list_del_entry_raw old h)"
    using dlist_nbr [OF assms(1)]
    by (simp add: list_replace_def list_add_raw_def list_del_entry_raw_def list_del_raw_def Let_def
        set_next_def set_prev_def fun_upd_twist)
  then show ?thesis
    using dlist_add_between [OF dlist_del_between [OF assms(1)], of new] assms(2) by simp
qed

lemma dlist_splice_between:
  assumes q: "dlist h q (xs @ zs)" and l: "dlist h l ys" and "ys \<noteq> []"
    and dis: "set (q # xs @ zs) \<inter> set (l # ys) = {}"
  shows "dlist (list_splice_raw l (pred_of q xs) (succ_of zs q) h) q (xs @ ys @ zs)"
proof -
  obtain y r where ys: "ys = y # r" using assms(3) by (cases ys) auto
  define h1 where "h1 = link (pred_of q xs) y h"
  have d: "distinct (q # xs @ zs)" "distinct (l # ys)"
    using dlist_distinct [OF q] dlist_distinct [OF l] by auto
  have p: "pred_of q xs \<in> set (q # xs)" using pred_of_in [of q xs] by auto
  have ring: "linked h ((q # xs) @ zs @ [q])" using linked_ring [OF q] by simp
  have "linked h (l # ys @ [l])" using l by (simp add: dlist_def)
  then have "linked h (y # r)" using linked_suffix [of h "[l]"] linked_prefix [of h ys "[l]"] ys by simp
  then have "linked h1 (q # xs @ y # r)"
    unfolding h1_def using linked_prefix [OF ring] d dis ys
    by (intro linked_cat) (auto dest: in_set_butlastD)
  then have front: "linked h1 (q # xs @ ys)" using ys by simp
  have "pred_of q xs \<notin> set zs" using p d(1) by auto
  moreover have "y \<notin> set (zs @ [q])" using dis ys by auto
  then have "y \<notin> set (List.tl (zs @ [q]))" by (metis list.set_sel(2) tl_Nil)
  ultimately have rear: "linked h1 (zs @ [q])"
    using linked_suffix [OF ring] unfolding h1_def by (subst linked_link_other) auto
  have "dlist (link (pred_of q (xs @ ys)) (succ_of zs q) h1) q ((xs @ ys) @ zs)"
    by (rule dlist_link [OF front rear]) (use d dis in auto)
  then show ?thesis
    using dlist_nxt_head [OF l] dlist_prv_head [OF l] ys by (simp add: list_raw_link h1_def)
qed

lemma list_splice_tail_ring:
  assumes "dlist h q xs" and "dlist h l ys" and "set (q # xs) \<inter> set (l # ys) = {}"
  shows "dlist (list_splice_tail l q h) q (xs @ ys)"
  using dlist_splice_between [of h q xs "[]" l ys] assms list_empty_ring [OF assms(2)]
  by (cases "ys = []") (simp_all add: list_splice_tail_def dlist_prv_head [OF assms(1)])

lemma list_splice_ring:
  assumes "dlist h q xs" and "dlist h l ys" and "set (q # xs) \<inter> set (l # ys) = {}"
  shows "dlist (list_splice l q h) q (ys @ xs)"
  using dlist_splice_between [of h q "[]" xs l ys] assms list_empty_ring [OF assms(2)]
  by (cases "ys = []") (simp_all add: list_splice_def dlist_nxt_head [OF assms(1)])

lemma list_splice_init_eq:
  "list_splice_tail_init l q h
     = (if list_empty l h then h else INIT_LIST_HEAD l (list_splice_tail l q h))"
  "list_splice_init l q h = (if list_empty l h then h else INIT_LIST_HEAD l (list_splice l q h))"
  by (simp_all add: list_splice_tail_init_def list_splice_tail_def list_splice_init_def list_splice_def)

lemma dlist_cut:
  assumes "dlist h q (xs @ e # ys)" and "l \<notin> set (q # xs @ e # ys)"
  shows "dlist (list_cut_position_raw l q e h) l (xs @ [e]) \<and>
         dlist (list_cut_position_raw l q e h) q ys"
proof -
  define f where "f = succ_of (xs @ [e]) q"
  define h1 h2 where "h1 = link l f h" and "h2 = link e l h1"
  have d: "distinct (q # xs @ e # ys)" using dlist_distinct [OF assms(1)] .
  obtain r where r: "xs @ [e] = f # r" unfolding f_def by (cases xs) auto
  have f: "f \<in> set (xs @ [e])" by (simp add: r)
  have ring: "linked h ([q] @ (xs @ [e]) @ ys @ [q])" using linked_ring [OF assms(1)] by simp
  then have body: "linked h (xs @ [e])" and tail: "linked h (ys @ [q])"
    using linked_prefix linked_suffix by blast+
  have "linked (link (pred_of l []) f h) (l # [] @ f # r)"
    using body assms(2) d by (intro linked_cat) (auto simp flip: r)
  then have h1a: "linked h1 (l # xs @ [e])" by (simp add: r h1_def)
  have "f \<notin> set (ys @ [q])" "l \<notin> set (ys @ [q])" using f d assms(2) by auto
  then have h1b: "linked h1 (ys @ [q])"
    using tail unfolding h1_def by (subst linked_link_other) (blast dest: in_set_tl in_set_butlastD)+
  have "linked (link (pred_of l (xs @ [e])) l h1) (l # (xs @ [e]) @ [l])"
    using h1a assms(2) d by (intro linked_cat) auto
  then have l: "dlist h2 l (xs @ [e])" using assms(2) d by (simp add: h2_def dlist_def)
  have "e \<notin> set (ys @ [q])" "l \<notin> set (ys @ [q])" using d assms(2) by auto
  then have t: "linked h2 (ys @ [q])"
    using h1b unfolding h2_def by (subst linked_link_other) (blast dest: in_set_tl in_set_butlastD)+
  have "dlist (link (pred_of q []) (succ_of ys q) h2) q ([] @ ys)"
    by (rule dlist_link) (use t d in auto)
  moreover have "succ_of ys q \<notin> insert l (set (xs @ [e]))" "q \<notin> insert l (set (xs @ [e]))"
    using assms(2) d succ_of_in [of ys q] by auto
  then have "dlist (link q (succ_of ys q) h2) l (xs @ [e])" using l by (simp add: dlist_link_frame)
  moreover have "nxt h q = f" using dlist_nxt_head [OF assms(1)] succ_of_append [of xs e ys q] by (simp add: f_def)
  ultimately show ?thesis
    using dlist_nbr(2) [OF assms(1)] by (simp add: list_raw_link Let_def h1_def h2_def)
qed

section \<open>Properties\<close>

text \<open>
  A small heap for the witnesses: nodes 1 and 2 on the list 0, node 4 on the list 3, every other
  node linked to itself.
\<close>

definition demo_heap :: lheap where
  "demo_heap = list_add_tail 4 3 (list_add_tail 2 0 (list_add_tail 1 0 \<lparr>nxt = id, prv = id\<rparr>))"

lemma demo_heap: "dlist demo_heap 0 [1, 2]" "dlist demo_heap 3 [4]"
  by (simp_all add: demo_heap_def list_add_tail_def list_add_raw_def dlist_def)

text \<open>
  C26. \<open>list_add_tail\<close> puts a new node at the end of a list and leaves every list that shares no
  node with it as it was.
\<close>

theorem list_add_tail_appends:
  assumes "dlist h q xs" and "new \<notin> set (q # xs)"
    and "dlist h r zs" and "set (q # new # xs) \<inter> set (r # zs) = {}"
  shows "dlist (list_add_tail new q h) q (xs @ [new]) \<and> dlist (list_add_tail new q h) r zs"
  using list_add_tail_ring [OF assms(1,2)] list_add_tail_frame [OF assms(1,4)] assms(3) by simp

theorem list_add_tail_appends_witness:
  "dlist (list_add_tail 5 0 demo_heap) 0 [1, 2, 5] \<and> dlist (list_add_tail 5 0 demo_heap) 3 [4]"
  using list_add_tail_appends [OF demo_heap(1) _ demo_heap(2), of 5] by simp

text \<open>
  \<open>list_splice_tail_init\<close> moves all nodes of one list to the end of another and leaves the
  first one empty.
\<close>

theorem list_splice_tail_init_moves:
  assumes "dlist h q xs" and "dlist h l ys" and "set (q # xs) \<inter> set (l # ys) = {}"
  shows "dlist (list_splice_tail_init l q h) q (xs @ ys) \<and> dlist (list_splice_tail_init l q h) l []"
proof (cases "ys = []")
  case False
  have "l \<notin> insert q (set (xs @ ys))" using assms(3) dlist_distinct [OF assms(2)] by auto
  then show ?thesis
    using False list_splice_tail_ring [OF assms] list_empty_ring [OF assms(2)] dlist_INIT_LIST_HEAD
    by (simp add: list_splice_init_eq dlist_INIT_frame)
qed (use assms list_empty_ring [OF assms(2)] in \<open>simp add: list_splice_init_eq\<close>)

theorem list_splice_tail_init_moves_example:
  "dlist (list_splice_tail_init 3 0 demo_heap) 0 [1, 2, 4] \<and>
   dlist (list_splice_tail_init 3 0 demo_heap) 3 []"
  using list_splice_tail_init_moves [OF demo_heap] by simp

text \<open>
  \<open>list_cut_position\<close> splits a list after one of its nodes: everything up to the node goes
  to the new head, the rest stays. (Called with the head itself it makes the new list empty.)
\<close>

theorem list_cut_position_splits:
  assumes "dlist h q (xs @ e # ys)" and "l \<notin> set (q # xs @ e # ys)"
  shows "dlist (list_cut_position l q e h) l (xs @ [e]) \<and> dlist (list_cut_position l q e h) q ys"
proof -
  have "e \<noteq> q" using dlist_distinct [OF assms(1)] by auto
  moreover have "list_is_singular q h \<Longrightarrow> nxt h q = e"
    using list_is_singular_ring [OF assms(1)] dlist_nxt_head [OF assms(1)] by (cases xs) auto
  ultimately have "list_cut_position l q e h = list_cut_position_raw l q e h"
    using list_empty_ring [OF assms(1)] by (auto simp: list_cut_position_def)
  then show ?thesis using dlist_cut [OF assms] by simp
qed

theorem list_cut_position_splits_example:
  "dlist (list_cut_position 7 0 1 demo_heap) 7 [1] \<and> dlist (list_cut_position 7 0 1 demo_heap) 0 [2]"
  using list_cut_position_splits [of demo_heap 0 "[]" 1 "[2]" 7] demo_heap by simp

text \<open>
  C27. A \<open>list_for_each_safe\<close> loop that unlinks (\<open>list_del\<close>) the nodes of a ring that satisfy a
  condition ends, and leaves exactly the others, in order.
\<close>

theorem list_for_each_safe_filters:
  assumes "dlist h q xs"
  shows "\<exists>h'. list_for_each_safe q (\<lambda>e h. if P e then list_del e h else h) h = Some h'
              \<and> dlist h' q (filter (\<lambda>e. \<not> P e) xs)"
  using walk_safe_filter [of h q "[]" xs P] assms
  by (simp add: list_for_each_safe_def dlist_nxt_head [OF assms] Let_def)

theorem list_for_each_safe_filters_witness:
  "\<exists>h'. list_for_each_safe 0 (\<lambda>e h. if e = 1 then list_del e h else h) demo_heap = Some h'
        \<and> dlist h' 0 [2]"
  using list_for_each_safe_filters [OF demo_heap(1), of "\<lambda>e. e = 1"] by simp

text \<open>
  \<open>list_rotate_left\<close> moves the first node of a list to its end.
\<close>

theorem list_rotate_left_rotates:
  assumes "dlist h q xs"
  shows "list_for_each q (list_rotate_left q h) = Some (rotate1 xs)"
  by (rule list_for_each_ring [OF list_rotate_left_ring [OF assms]])

theorem list_rotate_left_rotates_example:
  "list_for_each 0 (list_rotate_left 0 demo_heap) = Some [2, 1]"
  using list_rotate_left_rotates [OF demo_heap(1)] by simp

end
