(* ===== verification/Fm_Skbq.thy ===== *)
theory Fm_Skbq
  imports Fm_List
begin

text \<open>
  The packet queues of \<open>common/fm_skbuff.c\<close>: a \<open>struct sk_buff_head\<close> is the head of a ring of
  buffers with a length counter. The state is the pointer heap of \<open>Fm_List\<close> with the counter
  of every head. The operations run under the mutex of the queue, which each takes and releases
  once, so each is one atomic step here. The locales state the contract of a queue and of a double
  ended queue; the pointer operations are an instance of both.
\<close>

section \<open>State and operations\<close>

record skq = lheap +
  qlen :: "addr \<Rightarrow> u32"

definition NULL :: addr where "NULL = 0"

definition set_qlen :: "addr \<Rightarrow> u32 \<Rightarrow> skq \<Rightarrow> skq" where
  "set_qlen q v h = h\<lparr>qlen := (qlen h)(q := v)\<rparr>"

lemma set_qlen_simps [simp]:
  "nxt (set_qlen q v h) = nxt h" "prv (set_qlen q v h) = prv h"
  "qlen (set_qlen q v h) = (qlen h)(q := v)"
  "qlen (set_next a b h) = qlen h" "qlen (set_prev a b h) = qlen h"
  "qlen (link a b h) = qlen h"
  by (simp_all add: set_qlen_def set_next_def set_prev_def link_def)

definition skb_peek :: "addr \<Rightarrow> skq \<Rightarrow> addr option" where
  "skb_peek q h = (let skb = nxt h q in if skb = q then None else Some skb)"

definition skb_peek_tail :: "addr \<Rightarrow> skq \<Rightarrow> addr option" where
  "skb_peek_tail q h = (let skb = prv h q in if skb = q then None else Some skb)"

definition skb_unlink_raw :: "addr \<Rightarrow> addr \<Rightarrow> skq \<Rightarrow> skq" where
  "skb_unlink_raw skb q h =
     (let h = set_qlen q (qlen h q - 1) h;
          next = nxt h skb;
          prev = prv h skb;
          h = set_next skb NULL (set_prev skb NULL h);
          h = set_prev next prev h;
          h = set_next prev next h
      in h)"

definition skb_unlink :: "addr \<Rightarrow> addr \<Rightarrow> skq \<Rightarrow> skq" where
  "skb_unlink skb q h = skb_unlink_raw skb q h"

definition skb_dequeue_raw :: "addr \<Rightarrow> skq \<Rightarrow> addr option \<times> skq" where
  "skb_dequeue_raw q h =
     (case skb_peek q h of
        Some skb \<Rightarrow> (Some skb, skb_unlink_raw skb q h)
      | None \<Rightarrow> (None, h))"

definition skb_dequeue_tail_raw :: "addr \<Rightarrow> skq \<Rightarrow> addr option \<times> skq" where
  "skb_dequeue_tail_raw q h =
     (case skb_peek_tail q h of
        Some skb \<Rightarrow> (Some skb, skb_unlink_raw skb q h)
      | None \<Rightarrow> (None, h))"

definition skb_insert :: "addr \<Rightarrow> addr \<Rightarrow> addr \<Rightarrow> addr \<Rightarrow> skq \<Rightarrow> skq" where
  "skb_insert newsk prev next q h =
     (let h = set_next newsk next h;
          h = set_prev newsk prev h;
          h = set_next prev newsk h;
          h = set_prev next newsk h
      in set_qlen q (qlen h q + 1) h)"

definition skb_queue_after :: "addr \<Rightarrow> addr \<Rightarrow> addr \<Rightarrow> skq \<Rightarrow> skq" where
  "skb_queue_after q prev newsk h = skb_insert newsk prev (nxt h prev) q h"

definition skb_queue_head_raw :: "addr \<Rightarrow> addr \<Rightarrow> skq \<Rightarrow> skq" where
  "skb_queue_head_raw q newsk h = skb_queue_after q q newsk h"

definition skb_queue_before :: "addr \<Rightarrow> addr \<Rightarrow> addr \<Rightarrow> skq \<Rightarrow> skq" where
  "skb_queue_before q next newsk h = skb_insert newsk (prv h next) next q h"

definition skb_queue_tail_raw :: "addr \<Rightarrow> addr \<Rightarrow> skq \<Rightarrow> skq" where
  "skb_queue_tail_raw q newsk h = skb_queue_before q q newsk h"

definition skb_queue_head :: "addr \<Rightarrow> addr \<Rightarrow> skq \<Rightarrow> skq" where
  "skb_queue_head q newsk h = skb_queue_head_raw q newsk h"

definition skb_queue_tail :: "addr \<Rightarrow> addr \<Rightarrow> skq \<Rightarrow> skq" where
  "skb_queue_tail q newsk h = skb_queue_tail_raw q newsk h"

definition skb_dequeue :: "addr \<Rightarrow> skq \<Rightarrow> addr option \<times> skq" where
  "skb_dequeue q h = skb_dequeue_raw q h"

definition skb_dequeue_tail :: "addr \<Rightarrow> skq \<Rightarrow> addr option \<times> skq" where
  "skb_dequeue_tail q h = skb_dequeue_tail_raw q h"

definition skb_del :: "addr \<Rightarrow> skq \<Rightarrow> skq" where
  "skb_del skb h =
     (let h = set_next (prv h skb) (nxt h skb) h in set_prev (nxt h skb) (prv h skb) h)"

definition skb_queue_head_init :: "addr \<Rightarrow> skq \<Rightarrow> skq" where
  "skb_queue_head_init q h = set_qlen q 0 (set_prev q q (set_next q q h))"

definition skb_queue_empty :: "addr \<Rightarrow> skq \<Rightarrow> bool" where
  "skb_queue_empty q h \<longleftrightarrow> nxt h q = q"

definition skb_queue_len :: "addr \<Rightarrow> skq \<Rightarrow> u32" where
  "skb_queue_len q h = qlen h q"

text \<open>
  A loop that dequeues until nothing comes out; the result lists what came out, in order.
  \<open>skb_queue_purge\<close> frees each buffer it gets this way.
\<close>

partial_function (option) drain :: "('s \<Rightarrow> 'a option \<times> 's) \<Rightarrow> 's \<Rightarrow> ('a list \<times> 's) option" where
  "drain deq s =
     (case deq s of
        (None, s) \<Rightarrow> Some ([], s)
      | (Some x, s) \<Rightarrow> Option.bind (drain deq s) (\<lambda>(xs, s). Some (x # xs, s)))"

definition skb_queue_purge :: "addr \<Rightarrow> skq \<Rightarrow> (addr list \<times> skq) option" where
  "skb_queue_purge q h = drain (skb_dequeue q) h"

section \<open>The contract of a queue\<close>

text \<open>
  \<open>repr s xs\<close>: the state \<open>s\<close> holds the queue \<open>xs\<close>. Elements are identities (addresses), so an
  element can be queued only once, and never one of the \<open>reserved\<close> ones.
\<close>

locale fifo_queue =
  fixes repr :: "'s \<Rightarrow> 'a list \<Rightarrow> bool"
    and reserved :: "'a set"
    and enq :: "'a \<Rightarrow> 's \<Rightarrow> 's"
    and deq :: "'s \<Rightarrow> 'a option \<times> 's"
  assumes enq_repr: "repr s xs \<Longrightarrow> x \<notin> reserved \<Longrightarrow> x \<notin> set xs \<Longrightarrow> repr (enq x s) (xs @ [x])"
    and deq_nil: "repr s [] \<Longrightarrow> deq s = (None, s)"
    and deq_cons: "repr s (x # xs) \<Longrightarrow> \<exists>s'. deq s = (Some x, s') \<and> repr s' xs"
begin

lemma enq_all:
  "repr s xs \<Longrightarrow> set ys \<inter> reserved = {} \<Longrightarrow> distinct (xs @ ys) \<Longrightarrow> repr (fold enq ys s) (xs @ ys)"
proof (induction ys arbitrary: s xs)
  case (Cons y ys)
  then have "repr (enq y s) (xs @ [y])" by (intro enq_repr) auto
  then show ?case using Cons.IH [of "enq y s" "xs @ [y]"] Cons.prems by auto
qed simp

lemma drain_all: "repr s xs \<Longrightarrow> \<exists>s'. drain deq s = Some (xs, s') \<and> repr s' []"
proof (induction xs arbitrary: s)
  case Nil
  then show ?case by (subst drain.simps) (simp add: deq_nil)
next
  case (Cons x xs)
  obtain t where t: "deq s = (Some x, t)" "repr t xs" using deq_cons [OF Cons.prems] by auto
  obtain u where "drain deq t = Some (xs, u)" "repr u []" using Cons.IH [OF t(2)] by auto
  then show ?case by (subst drain.simps) (simp add: t(1))
qed

lemma fifo_order:
  assumes "repr s []" and "set ys \<inter> reserved = {}" and "distinct ys"
  shows "\<exists>s'. drain deq (fold enq ys s) = Some (ys, s') \<and> repr s' []"
  using drain_all enq_all [OF assms(1,2)] assms(3) by simp

end

text \<open>A double ended queue also takes elements at the front and gives them back from the rear.\<close>

locale deque = fifo_queue repr reserved enq deq
  for repr :: "'s \<Rightarrow> 'a list \<Rightarrow> bool" and reserved enq deq +
  fixes push :: "'a \<Rightarrow> 's \<Rightarrow> 's"
    and pop_rear :: "'s \<Rightarrow> 'a option \<times> 's"
  assumes push_repr: "repr s xs \<Longrightarrow> x \<notin> reserved \<Longrightarrow> x \<notin> set xs \<Longrightarrow> repr (push x s) (x # xs)"
    and pop_nil: "repr s [] \<Longrightarrow> pop_rear s = (None, s)"
    and pop_snoc: "repr s (xs @ [x]) \<Longrightarrow> \<exists>s'. pop_rear s = (Some x, s') \<and> repr s' xs"
begin

lemma push_all:
  "repr s xs \<Longrightarrow> set ys \<inter> reserved = {} \<Longrightarrow> distinct (xs @ ys)
    \<Longrightarrow> repr (fold push ys s) (rev ys @ xs)"
proof (induction ys arbitrary: s xs)
  case (Cons y ys)
  then have "repr (push y s) (y # xs)" by (intro push_repr) auto
  then show ?case using Cons.IH [of "push y s" "y # xs"] Cons.prems by auto
qed simp

lemma pop_all: "repr s xs \<Longrightarrow> \<exists>s'. drain pop_rear s = Some (rev xs, s') \<and> repr s' []"
proof (induction xs arbitrary: s rule: rev_induct)
  case Nil
  then show ?case by (subst drain.simps) (simp add: pop_nil)
next
  case (snoc x xs)
  obtain t where t: "pop_rear s = (Some x, t)" "repr t xs" using pop_snoc [OF snoc.prems] by auto
  obtain u where "drain pop_rear t = Some (rev xs, u)" "repr u []" using snoc.IH [OF t(2)] by auto
  then show ?case by (subst drain.simps) (simp add: t(1))
qed

lemma push_pop_order:
  assumes "repr s []" and "set ys \<inter> reserved = {}" and "distinct ys"
  shows "\<exists>s'. drain pop_rear (fold push ys s) = Some (ys, s') \<and> repr s' []"
  using pop_all [of "fold push ys s" "rev ys"] push_all [OF assms(1,2)] assms(3) by simp

end

section \<open>The pointer queue keeps the contract\<close>

definition skq_ok :: "skq \<Rightarrow> addr \<Rightarrow> addr list \<Rightarrow> bool" where
  "skq_ok h q xs \<longleftrightarrow> dlist h q xs \<and> qlen h q = of_nat (length xs)"

lemma dlist_set_qlen [simp]: "dlist (set_qlen q v h) r xs = dlist h r xs"
  by (rule dlist_cong) simp

lemma skb_insert_ring:
  assumes "skq_ok h q (xs @ ys)" and "new \<notin> set (q # xs @ ys)"
  shows "skq_ok (skb_insert new (pred_of q xs) (succ_of ys q) q h) q (xs @ new # ys)"
proof -
  have "new \<noteq> pred_of q xs" "new \<noteq> succ_of ys q"
    using assms(2) pred_of_in [of q xs] succ_of_in [of ys q] by auto
  then have "skb_insert new (pred_of q xs) (succ_of ys q) q h
      = set_qlen q (qlen h q + 1) (list_add_raw new (pred_of q xs) (succ_of ys q) h)"
    by (simp add: skb_insert_def list_add_raw_def Let_def set_next_def set_prev_def fun_upd_twist)
  then show ?thesis
    using assms dlist_add_between [of h q xs ys new] by (simp add: skq_ok_def)
qed

lemma skb_unlink_ring:
  assumes "skq_ok h q (xs @ e # ys)"
  shows "skq_ok (skb_unlink_raw e q h) q (xs @ ys)"
proof -
  have d: "dlist h q (xs @ e # ys)" using assms by (simp add: skq_ok_def)
  let ?h = "skb_unlink_raw e q h"
  have e: "e \<notin> set (q # xs @ ys)" using dlist_distinct [OF d] by auto
  have "dlist ?h q (xs @ ys) = dlist (list_del_entry_raw e h) q (xs @ ys)"
    by (rule dlist_cong)
      (use e in \<open>auto simp: skb_unlink_raw_def list_del_entry_raw_def list_del_raw_def Let_def\<close>)
  then show ?thesis
    using dlist_del_between [OF d] assms by (simp add: skq_ok_def skb_unlink_raw_def Let_def)
qed

lemma skb_queue_tail_ok:
  "skq_ok h q xs \<Longrightarrow> x \<notin> set (q # xs) \<Longrightarrow> skq_ok (skb_queue_tail q x h) q (xs @ [x])"
  using skb_insert_ring [of h q xs "[]" x] dlist_prv_head [of h q xs]
  by (simp add: skb_queue_tail_def skb_queue_tail_raw_def skb_queue_before_def skq_ok_def)

lemma skb_queue_head_ok:
  "skq_ok h q xs \<Longrightarrow> x \<notin> set (q # xs) \<Longrightarrow> skq_ok (skb_queue_head q x h) q (x # xs)"
  using skb_insert_ring [of h q "[]" xs x] dlist_nxt_head [of h q xs]
  by (simp add: skb_queue_head_def skb_queue_head_raw_def skb_queue_after_def skq_ok_def)

lemma skb_peek_ok: "skq_ok h q xs \<Longrightarrow> skb_peek q h = (case xs of [] \<Rightarrow> None | x # r \<Rightarrow> Some x)"
  using dlist_nxt_head [of h q xs] dlist_distinct [of h q xs]
  by (cases xs) (auto simp: skq_ok_def skb_peek_def Let_def)

lemma skb_peek_tail_ok: "skq_ok h q xs \<Longrightarrow> skb_peek_tail q h = (if xs = [] then None else Some (last xs))"
  using dlist_prv_head [of h q xs] dlist_distinct [of h q xs]
  by (cases xs rule: rev_cases) (auto simp: skq_ok_def skb_peek_tail_def Let_def)

lemma skb_dequeue_ok:
  "skq_ok h q [] \<Longrightarrow> skb_dequeue q h = (None, h)"
  "skq_ok h q (x # xs) \<Longrightarrow> skb_dequeue q h = (Some x, skb_unlink_raw x q h)"
  by (simp_all add: skb_dequeue_def skb_dequeue_raw_def skb_peek_ok)

lemma skb_dequeue_tail_ok:
  "skq_ok h q [] \<Longrightarrow> skb_dequeue_tail q h = (None, h)"
  "skq_ok h q (xs @ [x]) \<Longrightarrow> skb_dequeue_tail q h = (Some x, skb_unlink_raw x q h)"
  by (simp_all add: skb_dequeue_tail_def skb_dequeue_tail_raw_def skb_peek_tail_ok)

interpretation skbq: deque "\<lambda>h xs. skq_ok h q xs" "{q}" "skb_queue_tail q" "skb_dequeue q"
  "skb_queue_head q" "skb_dequeue_tail q" for q
proof unfold_locales
  fix h xs x
  assume "skq_ok h q (x # xs)"
  then show "\<exists>h'. skb_dequeue q h = (Some x, h') \<and> skq_ok h' q xs"
    using skb_unlink_ring [of h q "[]" x xs] by (simp add: skb_dequeue_ok)
next
  fix h xs x
  assume "skq_ok h q (xs @ [x])"
  then show "\<exists>h'. skb_dequeue_tail q h = (Some x, h') \<and> skq_ok h' q xs"
    using skb_unlink_ring [of h q xs x "[]"] by (simp add: skb_dequeue_tail_ok)
qed (simp_all add: skb_queue_tail_ok skb_queue_head_ok skb_dequeue_ok skb_dequeue_tail_ok)

lemma skb_queue_head_init_ok: "skq_ok (skb_queue_head_init q h) q []"
  by (simp add: skq_ok_def skb_queue_head_init_def dlist_def)

lemma skb_queue_empty_ok: "skq_ok h q xs \<Longrightarrow> skb_queue_empty q h \<longleftrightarrow> xs = []"
  using list_empty_ring [of h q xs] by (simp add: skq_ok_def skb_queue_empty_def list_empty_def)

lemma skb_queue_len_ok:
  "skq_ok h q xs \<Longrightarrow> length xs < 2 ^ 32 \<Longrightarrow> unat (skb_queue_len q h) = length xs"
  by (simp add: skq_ok_def skb_queue_len_def unat_of_nat)

text \<open>
  \<open>skb_del\<close> unlinks a buffer without telling the queue it is on: the ring loses the buffer, the
  counter does not change.
\<close>

lemma skb_del_ring:
  assumes "skq_ok h q (xs @ e # ys)"
  shows "dlist (skb_del e h) q (xs @ ys)" and "qlen (skb_del e h) q = of_nat (length (xs @ ys) + 1)"
proof -
  have d: "dlist h q (xs @ e # ys)" using assms by (simp add: skq_ok_def)
  have e: "pred_of q xs \<noteq> e"
    using dlist_distinct [OF d] pred_of_in [of q xs] by auto
  have "skb_del e h = list_del_entry_raw e h"
    using e by (simp add: skb_del_def list_del_entry_raw_def list_del_raw_def dlist_nbr [OF d]
        Let_def set_next_def set_prev_def)
  then show "dlist (skb_del e h) q (xs @ ys)" using dlist_del_between [OF d] by simp
  show "qlen (skb_del e h) q = of_nat (length (xs @ ys) + 1)"
    using assms by (simp add: skb_del_def skq_ok_def Let_def)
qed

section \<open>Properties\<close>

definition demo_skq :: skq where
  "demo_skq = \<lparr>nxt = id, prv = id, qlen = \<lambda>a. 7\<rparr>"

text \<open>
  C30. Buffers put on a freshly initialised queue with \<open>skb_queue_tail\<close> are freed by
  \<open>skb_queue_purge\<close> in the order they came; the purge ends, and the queue is empty after it, with
  length 0.
\<close>

theorem skb_queue_purge_fifo:
  assumes "distinct (q # ys)"
  shows "\<exists>h'. skb_queue_purge q (fold (skb_queue_tail q) ys (skb_queue_head_init q h)) = Some (ys, h')
              \<and> skb_queue_empty q h' \<and> skb_queue_len q h' = 0"
proof -
  obtain h' where "drain (skb_dequeue q) (fold (skb_queue_tail q) ys (skb_queue_head_init q h)) = Some (ys, h')"
    and h': "skq_ok h' q []"
    using skbq.fifo_order [OF skb_queue_head_init_ok, of ys q h] assms by auto
  then show ?thesis
    using skb_queue_empty_ok [OF h'] by (simp add: skb_queue_purge_def skb_queue_len_def skq_ok_def)
qed

theorem skb_queue_purge_fifo_witness:
  "\<exists>h'. skb_queue_purge 1 (fold (skb_queue_tail 1) [4, 2, 9] (skb_queue_head_init 1 demo_skq))
          = Some ([4, 2, 9], h') \<and> skb_queue_empty 1 h' \<and> skb_queue_len 1 h' = 0"
  using skb_queue_purge_fifo [of 1 "[4, 2, 9]" demo_skq] by simp

text \<open>
  The length counter of a queue is the number of buffers in its ring after any sequence of
  queueing at the rear and at the front, as long as it is below \<open>2 ^ 32\<close>.
\<close>

theorem skb_queue_len_counts:
  assumes "distinct (q # xs @ ys)" and "length xs + length ys < 2 ^ 32"
  shows "unat (skb_queue_len q (fold (skb_queue_head q) ys
            (fold (skb_queue_tail q) xs (skb_queue_head_init q h)))) = length xs + length ys"
proof -
  have t: "skq_ok (fold (skb_queue_tail q) xs (skb_queue_head_init q h)) q xs"
    using skbq.enq_all [OF skb_queue_head_init_ok, of xs q h] assms(1) by simp
  have "skq_ok (fold (skb_queue_head q) ys (fold (skb_queue_tail q) xs (skb_queue_head_init q h)))
          q (rev ys @ xs)"
    using skbq.push_all [OF t, of ys] assms(1) by simp
  from skb_queue_len_ok [OF this] show ?thesis using assms(2) by simp
qed

theorem skb_queue_len_counts_example:
  "unat (skb_queue_len 1 (fold (skb_queue_head 1) [3]
      (fold (skb_queue_tail 1) [4, 2] (skb_queue_head_init 1 demo_skq)))) = 3"
  using skb_queue_len_counts [of 1 "[4, 2]" "[3]" demo_skq] by simp

end
