(* ===== verification/Fm_Walk.thy ===== *)
theory Fm_Walk
  imports Fm_Skbq
begin

text \<open>
  The iteration macros of \<open>common/fm_List.h\<close> and \<open>common/fm_skbuff.h\<close>. Every macro is the
  head of a C \<open>for\<close> statement, so each is a \<open>c_for\<close> loop over the cursor (and the saved
  neighbour of the safe variants) and the heap; the body the user supplies may change all of
  them. \<open>container_of\<close> is declared nowhere in the repository: it is a parameter \<open>cof\<close>, with
  \<open>memb\<close> for \<open>&pos->member\<close>, and what the macros rely on is that the member of the structure
  around a list head is that list head again. All loops are related to one loop over list heads
  by simulations: the macros on entries by \<open>list_entry\<close>, the reverse macros by exchanging the
  two pointers of every node.
\<close>

section \<open>The C loop\<close>

partial_function (option) c_for ::
  "('s \<Rightarrow> bool) \<Rightarrow> ('s \<Rightarrow> 's) \<Rightarrow> ('s \<Rightarrow> 's) \<Rightarrow> 's \<Rightarrow> 's option"
where
  "c_for go step body s = (if go s then c_for go step body (step (body s)) else Some s)"

lemma c_for_stop: "\<not> go s \<Longrightarrow> c_for go step body s = Some s"
  by (subst c_for.simps) simp

lemma c_for_go: "go s \<Longrightarrow> c_for go step body s = c_for go step body (step (body s))"
  by (subst c_for.simps) simp

text \<open>Two loops whose guards agree and whose iterations commute with a map end alike.\<close>

definition c_sim :: "('s \<Rightarrow> 't) \<Rightarrow> ('s \<Rightarrow> bool) \<Rightarrow> ('s \<Rightarrow> 's) \<Rightarrow> ('s \<Rightarrow> 's)
  \<Rightarrow> ('t \<Rightarrow> bool) \<Rightarrow> ('t \<Rightarrow> 't) \<Rightarrow> ('t \<Rightarrow> 't) \<Rightarrow> bool"
where
  "c_sim f go step body go' step' body' \<longleftrightarrow>
     (\<forall>s. go' (f s) = go s \<and> (go s \<longrightarrow> step' (body' (f s)) = f (step (body s))))"

lemma c_sim_forward:
  assumes "c_for go step body s = Some t" and "c_sim f go step body go' step' body'"
  shows "c_for go' step' body' (f s) = Some (f t)"
proof -
  have "c_sim f go step body go' step' body' \<longrightarrow> c_for go' step' body' (f s) = Some (f t)"
    using assms(1)
    by (rule c_for.raw_induct [where P = "\<lambda>go step body s t. c_sim f go step body go' step' body'
          \<longrightarrow> c_for go' step' body' (f s) = Some (f t)", rotated])
      (auto simp: c_sim_def c_for_stop c_for_go split: if_splits)
  then show ?thesis using assms(2) by simp
qed

lemma c_sim_backward:
  assumes "c_for go' step' body' (f s) = Some t'" and "c_sim f go step body go' step' body'"
  shows "\<exists>t. c_for go step body s = Some t \<and> t' = f t"
proof -
  have "\<forall>r. f s = f r \<and> c_sim f go step body go' step' body'
      \<longrightarrow> (\<exists>t. c_for go step body r = Some t \<and> t' = f t)"
    using assms(1)
  proof (rule c_for.raw_induct [where P = "\<lambda>go' step' body' s' t'. \<forall>r. s' = f r \<and>
        c_sim f go step body go' step' body' \<longrightarrow> (\<exists>t. c_for go step body r = Some t \<and> t' = f t)", rotated])
    fix loop :: "('a \<Rightarrow> bool) \<Rightarrow> ('a \<Rightarrow> 'a) \<Rightarrow> ('a \<Rightarrow> 'a) \<Rightarrow> 'a \<Rightarrow> 'a option" and g p b s' t'
    assume IH: "\<And>g p b s' t'. loop g p b s' = Some t' \<Longrightarrow> \<forall>r. s' = f r \<and> c_sim f go step body g p b
        \<longrightarrow> (\<exists>t. c_for go step body r = Some t \<and> t' = f t)"
      and step': "(if g s' then loop g p b (p (b s')) else Some s') = Some t'"
    show "\<forall>r. s' = f r \<and> c_sim f go step body g p b
        \<longrightarrow> (\<exists>t. c_for go step body r = Some t \<and> t' = f t)"
    proof (intro allI impI)
      fix r
      assume r: "s' = f r \<and> c_sim f go step body g p b"
      then have g: "g s' = go r" and n: "go r \<Longrightarrow> p (b s') = f (step (body r))"
        by (auto simp: c_sim_def)
      show "\<exists>t. c_for go step body r = Some t \<and> t' = f t"
      proof (cases "go r")
        case True
        then show ?thesis using IH [of g p b "p (b s')" t'] step' r g n by (simp add: c_for_go)
      qed (use step' r g in \<open>simp add: c_for_stop\<close>)
    qed
  qed
  then show ?thesis using assms(2) by blast
qed

lemma c_for_sim:
  assumes "c_sim f go step body go' step' body'"
  shows "c_for go' step' body' (f s) = map_option f (c_for go step body s)"
proof (cases "c_for go step body s")
  case (Some t)
  then show ?thesis using c_sim_forward [OF Some assms] by simp
next
  case None
  then show ?thesis using c_sim_backward [OF _ assms, of s] by (cases "c_for go' step' body' (f s)") auto
qed

section \<open>Iteration over list heads\<close>

text \<open>Bodies that leave the cursor (and the saved neighbour) alone.\<close>

definition on_cur :: "('p \<Rightarrow> 'h \<Rightarrow> 'h) \<Rightarrow> 'p \<times> 'h \<Rightarrow> 'p \<times> 'h" where
  "on_cur b = (\<lambda>(pos, h). (pos, b pos h))"

definition on_safe :: "('p \<Rightarrow> 'h \<Rightarrow> 'h) \<Rightarrow> 'p \<times> 'p \<times> 'h \<Rightarrow> 'p \<times> 'p \<times> 'h" where
  "on_safe b = (\<lambda>(pos, n, h). (pos, n, b pos h))"

type_synonym ('p, 'z) cur = "'p \<times> 'z lheap_scheme"
type_synonym ('p, 'z) cur2 = "'p \<times> 'p \<times> 'z lheap_scheme"

definition list_for_each_raw ::
  "addr \<Rightarrow> ((addr, 'z) cur \<Rightarrow> (addr, 'z) cur) \<Rightarrow> 'z lheap_scheme \<Rightarrow> (addr, 'z) cur option"
where
  "list_for_each_raw head body h =
     c_for (\<lambda>(pos, h). pos \<noteq> head) (\<lambda>(pos, h). (nxt h pos, h)) body (nxt h head, h)"

definition list_for_each_prev ::
  "addr \<Rightarrow> ((addr, 'z) cur \<Rightarrow> (addr, 'z) cur) \<Rightarrow> 'z lheap_scheme \<Rightarrow> (addr, 'z) cur option"
where
  "list_for_each_prev head body h =
     c_for (\<lambda>(pos, h). pos \<noteq> head) (\<lambda>(pos, h). (prv h pos, h)) body (prv h head, h)"


definition list_for_each_prev_safe ::
  "addr \<Rightarrow> ((addr, 'z) cur2 \<Rightarrow> (addr, 'z) cur2) \<Rightarrow> 'z lheap_scheme \<Rightarrow> (addr, 'z) cur2 option"
where
  "list_for_each_prev_safe head body h =
     (let pos = prv h head; n = prv h pos in
      c_for (\<lambda>(pos, n, h). pos \<noteq> head) (\<lambda>(pos, n, h). (n, prv h n, h)) body (pos, n, h))"

section \<open>Iteration over the structures around the list heads\<close>

definition list_entry :: "(addr \<Rightarrow> 'e) \<Rightarrow> addr \<Rightarrow> 'e" where
  "list_entry cof ptr = cof ptr"

definition list_first_entry :: "(addr \<Rightarrow> 'e) \<Rightarrow> addr \<Rightarrow> 'z lheap_scheme \<Rightarrow> 'e" where
  "list_first_entry cof ptr h = list_entry cof (nxt h ptr)"

definition list_for_each_entry ::
  "(addr \<Rightarrow> 'e) \<Rightarrow> ('e \<Rightarrow> addr) \<Rightarrow> addr \<Rightarrow> (('e, 'z) cur \<Rightarrow> ('e, 'z) cur) \<Rightarrow> 'z lheap_scheme
     \<Rightarrow> ('e, 'z) cur option"
where
  "list_for_each_entry cof memb head body h =
     c_for (\<lambda>(pos, h). memb pos \<noteq> head)
       (\<lambda>(pos, h). (list_entry cof (nxt h (memb pos)), h)) body
       (list_entry cof (nxt h head), h)"

definition list_for_each_entry_reverse ::
  "(addr \<Rightarrow> 'e) \<Rightarrow> ('e \<Rightarrow> addr) \<Rightarrow> addr \<Rightarrow> (('e, 'z) cur \<Rightarrow> ('e, 'z) cur) \<Rightarrow> 'z lheap_scheme
     \<Rightarrow> ('e, 'z) cur option"
where
  "list_for_each_entry_reverse cof memb head body h =
     c_for (\<lambda>(pos, h). memb pos \<noteq> head)
       (\<lambda>(pos, h). (list_entry cof (prv h (memb pos)), h)) body
       (list_entry cof (prv h head), h)"

text \<open>A structure pointer that may be NULL is an option.\<close>

definition list_prepare_entry :: "(addr \<Rightarrow> 'e) \<Rightarrow> 'e option \<Rightarrow> addr \<Rightarrow> 'e" where
  "list_prepare_entry cof pos head = (case pos of Some e \<Rightarrow> e | None \<Rightarrow> list_entry cof head)"

definition list_for_each_entry_continue ::
  "(addr \<Rightarrow> 'e) \<Rightarrow> ('e \<Rightarrow> addr) \<Rightarrow> 'e \<Rightarrow> addr \<Rightarrow> (('e, 'z) cur \<Rightarrow> ('e, 'z) cur) \<Rightarrow> 'z lheap_scheme
     \<Rightarrow> ('e, 'z) cur option"
where
  "list_for_each_entry_continue cof memb pos head body h =
     c_for (\<lambda>(pos, h). memb pos \<noteq> head)
       (\<lambda>(pos, h). (list_entry cof (nxt h (memb pos)), h)) body
       (list_entry cof (nxt h (memb pos)), h)"

definition list_for_each_entry_continue_reverse ::
  "(addr \<Rightarrow> 'e) \<Rightarrow> ('e \<Rightarrow> addr) \<Rightarrow> 'e \<Rightarrow> addr \<Rightarrow> (('e, 'z) cur \<Rightarrow> ('e, 'z) cur) \<Rightarrow> 'z lheap_scheme
     \<Rightarrow> ('e, 'z) cur option"
where
  "list_for_each_entry_continue_reverse cof memb pos head body h =
     c_for (\<lambda>(pos, h). memb pos \<noteq> head)
       (\<lambda>(pos, h). (list_entry cof (prv h (memb pos)), h)) body
       (list_entry cof (prv h (memb pos)), h)"

definition list_for_each_entry_from ::
  "(addr \<Rightarrow> 'e) \<Rightarrow> ('e \<Rightarrow> addr) \<Rightarrow> 'e \<Rightarrow> addr \<Rightarrow> (('e, 'z) cur \<Rightarrow> ('e, 'z) cur) \<Rightarrow> 'z lheap_scheme
     \<Rightarrow> ('e, 'z) cur option"
where
  "list_for_each_entry_from cof memb pos head body h =
     c_for (\<lambda>(pos, h). memb pos \<noteq> head)
       (\<lambda>(pos, h). (list_entry cof (nxt h (memb pos)), h)) body (pos, h)"

definition list_for_each_entry_safe ::
  "(addr \<Rightarrow> 'e) \<Rightarrow> ('e \<Rightarrow> addr) \<Rightarrow> addr \<Rightarrow> (('e, 'z) cur2 \<Rightarrow> ('e, 'z) cur2) \<Rightarrow> 'z lheap_scheme
     \<Rightarrow> ('e, 'z) cur2 option"
where
  "list_for_each_entry_safe cof memb head body h =
     (let pos = list_entry cof (nxt h head); n = list_entry cof (nxt h (memb pos)) in
      c_for (\<lambda>(pos, n, h). memb pos \<noteq> head)
        (\<lambda>(pos, n, h). (n, list_entry cof (nxt h (memb n)), h)) body (pos, n, h))"

definition list_for_each_entry_safe_continue ::
  "(addr \<Rightarrow> 'e) \<Rightarrow> ('e \<Rightarrow> addr) \<Rightarrow> 'e \<Rightarrow> addr \<Rightarrow> (('e, 'z) cur2 \<Rightarrow> ('e, 'z) cur2)
     \<Rightarrow> 'z lheap_scheme \<Rightarrow> ('e, 'z) cur2 option"
where
  "list_for_each_entry_safe_continue cof memb pos head body h =
     (let pos = list_entry cof (nxt h (memb pos)); n = list_entry cof (nxt h (memb pos)) in
      c_for (\<lambda>(pos, n, h). memb pos \<noteq> head)
        (\<lambda>(pos, n, h). (n, list_entry cof (nxt h (memb n)), h)) body (pos, n, h))"

definition list_for_each_entry_safe_from ::
  "(addr \<Rightarrow> 'e) \<Rightarrow> ('e \<Rightarrow> addr) \<Rightarrow> 'e \<Rightarrow> addr \<Rightarrow> (('e, 'z) cur2 \<Rightarrow> ('e, 'z) cur2)
     \<Rightarrow> 'z lheap_scheme \<Rightarrow> ('e, 'z) cur2 option"
where
  "list_for_each_entry_safe_from cof memb pos head body h =
     (let n = list_entry cof (nxt h (memb pos)) in
      c_for (\<lambda>(pos, n, h). memb pos \<noteq> head)
        (\<lambda>(pos, n, h). (n, list_entry cof (nxt h (memb n)), h)) body (pos, n, h))"

definition list_for_each_entry_safe_reverse ::
  "(addr \<Rightarrow> 'e) \<Rightarrow> ('e \<Rightarrow> addr) \<Rightarrow> addr \<Rightarrow> (('e, 'z) cur2 \<Rightarrow> ('e, 'z) cur2) \<Rightarrow> 'z lheap_scheme
     \<Rightarrow> ('e, 'z) cur2 option"
where
  "list_for_each_entry_safe_reverse cof memb head body h =
     (let pos = list_entry cof (prv h head); n = list_entry cof (prv h (memb pos)) in
      c_for (\<lambda>(pos, n, h). memb pos \<noteq> head)
        (\<lambda>(pos, n, h). (n, list_entry cof (prv h (memb n)), h)) body (pos, n, h))"

definition list_safe_reset_next ::
  "(addr \<Rightarrow> 'e) \<Rightarrow> ('e \<Rightarrow> addr) \<Rightarrow> ('e, 'z) cur2 \<Rightarrow> ('e, 'z) cur2"
where
  "list_safe_reset_next cof memb = (\<lambda>(pos, n, h). (pos, list_entry cof (nxt h (memb pos)), h))"

section \<open>Iteration over a packet queue\<close>

definition skb_queue_walk ::
  "addr \<Rightarrow> (addr \<times> skq \<Rightarrow> addr \<times> skq) \<Rightarrow> skq \<Rightarrow> (addr \<times> skq) option"
where
  "skb_queue_walk queue body h =
     c_for (\<lambda>(skb, h). skb \<noteq> queue) (\<lambda>(skb, h). (nxt h skb, h)) body (nxt h queue, h)"

definition skb_queue_walk_safe ::
  "addr \<Rightarrow> (addr \<times> addr \<times> skq \<Rightarrow> addr \<times> addr \<times> skq) \<Rightarrow> skq \<Rightarrow> (addr \<times> addr \<times> skq) option"
where
  "skb_queue_walk_safe queue body h =
     (let skb = nxt h queue; tmp = nxt h skb in
      c_for (\<lambda>(skb, tmp, h). skb \<noteq> queue) (\<lambda>(skb, tmp, h). (tmp, nxt h tmp, h)) body
        (skb, tmp, h))"

definition skb_queue_reverse_walk_safe ::
  "addr \<Rightarrow> (addr \<times> addr \<times> skq \<Rightarrow> addr \<times> addr \<times> skq) \<Rightarrow> skq \<Rightarrow> (addr \<times> addr \<times> skq) option"
where
  "skb_queue_reverse_walk_safe queue body h =
     (let skb = prv h queue; tmp = prv h skb in
      c_for (\<lambda>(skb, tmp, h). skb \<noteq> queue) (\<lambda>(skb, tmp, h). (tmp, prv h tmp, h)) body
        (skb, tmp, h))"

section \<open>Loops over a ring\<close>

text \<open>The loops over list heads in both directions, by the field they follow.\<close>

definition each_from ::
  "('z lheap_scheme \<Rightarrow> addr \<Rightarrow> addr) \<Rightarrow> addr \<Rightarrow> ((addr, 'z) cur \<Rightarrow> (addr, 'z) cur) \<Rightarrow> (addr, 'z) cur
     \<Rightarrow> (addr, 'z) cur option"
where
  "each_from fld q body s = c_for (\<lambda>(pos, h). pos \<noteq> q) (\<lambda>(pos, h). (fld h pos, h)) body s"

definition safe_from ::
  "('z lheap_scheme \<Rightarrow> addr \<Rightarrow> addr) \<Rightarrow> addr \<Rightarrow> ((addr, 'z) cur2 \<Rightarrow> (addr, 'z) cur2) \<Rightarrow> (addr, 'z) cur2
     \<Rightarrow> (addr, 'z) cur2 option"
where
  "safe_from fld q body s = c_for (\<lambda>(pos, n, h). pos \<noteq> q) (\<lambda>(pos, n, h). (n, fld h n, h)) body s"

lemma each_from_ring:
  assumes "dlist h q (us @ xs)"
    and keep: "\<And>x us ys h. dlist h q (us @ x # ys) \<Longrightarrow> \<exists>vs. dlist (b x h) q (vs @ x # ys)"
  shows "each_from nxt q (on_cur b) (succ_of xs q, h) = Some (q, fold b xs h)
    \<and> (\<exists>vs. dlist (fold b xs h) q vs)"
  using assms(1)
proof (induction xs arbitrary: us h)
  case Nil
  then show ?case by (auto simp: each_from_def c_for_stop)
next
  case (Cons x xs)
  obtain vs where d: "dlist (b x h) q (vs @ x # xs)" using keep [OF Cons.prems] by blast
  have "x \<noteq> q" using dlist_distinct [OF d] by auto
  then have "each_from nxt q (on_cur b) (succ_of (x # xs) q, h)
      = each_from nxt q (on_cur b) (succ_of xs q, b x h)"
    using dlist_nbr(2) [OF d] by (simp add: each_from_def c_for_go on_cur_def)
  then show ?case using Cons.IH [of "b x h" "vs @ [x]"] d by simp
qed

lemma safe_from_ring:
  assumes "dlist h q (us @ xs)"
    and keep: "\<And>x us ys h. dlist h q (us @ x # ys) \<Longrightarrow> \<exists>vs. dlist (b x h) q (vs @ ys)"
  shows "\<exists>n. safe_from nxt q (on_safe b) (succ_of xs q, nxt h (succ_of xs q), h)
      = Some (q, n, fold b xs h)"
  using assms(1)
proof (induction xs arbitrary: us h)
  case Nil
  then show ?case by (auto simp: safe_from_def c_for_stop)
next
  case (Cons x xs)
  obtain vs where d: "dlist (b x h) q (vs @ xs)" using keep [OF Cons.prems] by blast
  have "x \<noteq> q" using dlist_distinct [OF Cons.prems] by auto
  then have "safe_from nxt q (on_safe b) (succ_of (x # xs) q, nxt h (succ_of (x # xs) q), h)
      = safe_from nxt q (on_safe b) (succ_of xs q, nxt (b x h) (succ_of xs q), b x h)"
    using dlist_nbr(2) [OF Cons.prems] by (simp add: safe_from_def c_for_go on_safe_def)
  then show ?case using Cons.IH [OF d] by simp
qed

section \<open>Backwards: the mirrored heap\<close>

definition mirror :: "'z lheap_scheme \<Rightarrow> 'z lheap_scheme" where
  "mirror h = h\<lparr>nxt := prv h, prv := nxt h\<rparr>"

lemma mirror_simps [simp]:
  "nxt (mirror h) = prv h" "prv (mirror h) = nxt h" "mirror (mirror h) = h"
  by (simp_all add: mirror_def)

lemma linked_snoc2: "linked h (xs @ [a, b]) \<longleftrightarrow> linked h (xs @ [a]) \<and> nxt h a = b \<and> prv h b = a"
  using linked_join [of h xs a "[b]"] by simp

lemma linked_mirror: "linked (mirror h) xs = linked h (rev xs)"
  by (induction h xs rule: linked.induct) (auto simp: linked_snoc2)

lemma dlist_mirror: "dlist (mirror h) q xs = dlist h q (rev xs)"
  by (auto simp: dlist_def linked_mirror)

lemma each_from_mirror:
  "each_from prv q (on_cur b) (pos, h)
     = map_option (map_prod id mirror)
         (each_from nxt q (on_cur (\<lambda>x h. mirror (b x (mirror h)))) (pos, mirror h))"
  using c_for_sim [of "map_prod id mirror" "\<lambda>(pos, h). pos \<noteq> q" "\<lambda>(pos, h). (nxt h pos, h)"
      "on_cur (\<lambda>x h. mirror (b x (mirror h)))" "\<lambda>(pos, h). pos \<noteq> q" "\<lambda>(pos, h). (prv h pos, h)"
      "on_cur b" "(pos, mirror h)"]
  by (auto simp: each_from_def c_sim_def on_cur_def)

lemma safe_from_mirror:
  "safe_from prv q (on_safe b) (pos, n, h)
     = map_option (map_prod id (map_prod id mirror))
         (safe_from nxt q (on_safe (\<lambda>x h. mirror (b x (mirror h)))) (pos, n, mirror h))"
  using c_for_sim [of "map_prod id (map_prod id mirror)" "\<lambda>(pos, n, h). pos \<noteq> q"
      "\<lambda>(pos, n, h). (n, nxt h n, h)" "on_safe (\<lambda>x h. mirror (b x (mirror h)))"
      "\<lambda>(pos, n, h). pos \<noteq> q" "\<lambda>(pos, n, h). (n, prv h n, h)" "on_safe b" "(pos, n, mirror h)"]
  by (auto simp: safe_from_def c_sim_def on_safe_def)

lemma fold_mirror: "fold (\<lambda>x h. mirror (b x (mirror h))) xs (mirror h) = mirror (fold b xs h)"
  by (induction xs arbitrary: h) auto

lemma each_from_ring_prev:
  assumes "dlist h q (xs @ us)"
    and keep: "\<And>x us ys h. dlist h q (ys @ x # us) \<Longrightarrow> \<exists>vs. dlist (b x h) q (ys @ x # vs)"
  shows "each_from prv q (on_cur b) (pred_of q xs, h) = Some (q, fold b (rev xs) h)"
proof -
  have "\<exists>vs. dlist (mirror (b x (mirror g))) q (vs @ x # ys)" if "dlist g q (us @ x # ys)" for x us ys g
  proof -
    have "dlist (mirror g) q (rev ys @ x # rev us)" using that by (simp add: dlist_mirror)
    then obtain vs where "dlist (b x (mirror g)) q (rev ys @ x # vs)" using keep by blast
    then have "dlist (mirror (b x (mirror g))) q (rev vs @ x # ys)" by (simp add: dlist_mirror)
    then show ?thesis by blast
  qed
  note k = this
  have "dlist (mirror h) q (rev us @ rev xs)" using assms(1) by (simp add: dlist_mirror)
  then have "each_from nxt q (on_cur (\<lambda>x h. mirror (b x (mirror h)))) (succ_of (rev xs) q, mirror h)
      = Some (q, mirror (fold b (rev xs) h))"
    using each_from_ring [of "mirror h" q "rev us" "rev xs" "\<lambda>x h. mirror (b x (mirror h))"] k
    by (simp add: fold_mirror)
  moreover have "succ_of (rev xs) q = pred_of q xs" by (cases xs rule: rev_cases) auto
  ultimately show ?thesis by (simp add: each_from_mirror)
qed

lemma safe_from_ring_prev:
  assumes "dlist h q (xs @ us)"
    and keep: "\<And>x us ys h. dlist h q (ys @ x # us) \<Longrightarrow> \<exists>vs. dlist (b x h) q (ys @ vs)"
  shows "\<exists>n. safe_from prv q (on_safe b) (pred_of q xs, prv h (pred_of q xs), h)
      = Some (q, n, fold b (rev xs) h)"
proof -
  have "\<exists>vs. dlist (mirror (b x (mirror g))) q (vs @ ys)" if "dlist g q (us @ x # ys)" for x us ys g
  proof -
    have "dlist (mirror g) q (rev ys @ x # rev us)" using that by (simp add: dlist_mirror)
    then obtain vs where "dlist (b x (mirror g)) q (rev ys @ vs)" using keep by blast
    then have "dlist (mirror (b x (mirror g))) q (rev vs @ ys)" by (simp add: dlist_mirror)
    then show ?thesis by blast
  qed
  note k = this
  have s: "succ_of (rev xs) q = pred_of q xs" by (cases xs rule: rev_cases) auto
  have "dlist (mirror h) q (rev us @ rev xs)" using assms(1) by (simp add: dlist_mirror)
  then have "\<exists>n. safe_from nxt q (on_safe (\<lambda>x h. mirror (b x (mirror h))))
      (succ_of (rev xs) q, nxt (mirror h) (succ_of (rev xs) q), mirror h)
      = Some (q, n, mirror (fold b (rev xs) h))"
    using safe_from_ring [of "mirror h" q "rev us" "rev xs" "\<lambda>x h. mirror (b x (mirror h))"] k
    by (simp add: fold_mirror)
  then show ?thesis unfolding s by (auto simp: safe_from_mirror)
qed

section \<open>The macros as those loops\<close>

lemmas head_loop_defs = list_for_each_raw_def list_for_each_prev_def list_for_each_prev_safe_def

lemmas entry_loop_defs = list_for_each_entry_def list_for_each_entry_reverse_def
  list_for_each_entry_continue_def list_for_each_entry_continue_reverse_def
  list_for_each_entry_from_def list_for_each_entry_safe_def list_for_each_entry_safe_continue_def
  list_for_each_entry_safe_from_def list_for_each_entry_safe_reverse_def list_entry_def

lemma entry_sim:
  assumes "\<And>p. memb (cof p) = p"
  shows "c_for (\<lambda>(pos, h). memb pos \<noteq> q) (\<lambda>(pos, h). (cof (fld h (memb pos)), h)) (on_cur b) (cof p, h)
    = map_option (map_prod cof id) (each_from fld q (on_cur (\<lambda>p. b (cof p))) (p, h))"
  using c_for_sim [of "map_prod cof id" "\<lambda>(pos, h). pos \<noteq> q" "\<lambda>(pos, h). (fld h pos, h)"
      "on_cur (\<lambda>p. b (cof p))" "\<lambda>(pos, h). memb pos \<noteq> q" "\<lambda>(pos, h). (cof (fld h (memb pos)), h)"
      "on_cur b" "(p, h)"]
  by (auto simp: each_from_def c_sim_def on_cur_def assms)

lemma entry_safe_sim:
  assumes "\<And>p. memb (cof p) = p"
  shows "c_for (\<lambda>(pos, n, h). memb pos \<noteq> q) (\<lambda>(pos, n, h). (n, cof (fld h (memb n)), h)) (on_safe b)
      (cof p, cof n, h)
    = map_option (map_prod cof (map_prod cof id)) (safe_from fld q (on_safe (\<lambda>p. b (cof p))) (p, n, h))"
  using c_for_sim [of "map_prod cof (map_prod cof id)" "\<lambda>(pos, n, h). pos \<noteq> q"
      "\<lambda>(pos, n, h). (n, fld h n, h)" "on_safe (\<lambda>p. b (cof p))" "\<lambda>(pos, n, h). memb pos \<noteq> q"
      "\<lambda>(pos, n, h). (n, cof (fld h (memb n)), h)" "on_safe b" "(p, n, h)"]
  by (auto simp: safe_from_def c_sim_def on_safe_def assms)

text \<open>The safe loop of \<open>Fm_List\<close> is the same loop.\<close>

lemma walk_safe_to:
  "walk_safe q b pos n h = Some h' \<Longrightarrow> \<exists>n'. safe_from nxt q (on_safe b) (pos, n, h) = Some (q, n', h')"
proof (erule walk_safe.raw_induct [where P = "\<lambda>q b pos n h h'.
    \<exists>n'. safe_from nxt q (on_safe b) (pos, n, h) = Some (q, n', h')", rotated])
  fix loop :: "addr \<Rightarrow> (addr \<Rightarrow> 'a lheap_scheme \<Rightarrow> 'a lheap_scheme) \<Rightarrow> addr \<Rightarrow> addr \<Rightarrow> 'a lheap_scheme
      \<Rightarrow> 'a lheap_scheme option" and q b pos n h h'
  assume IH: "\<And>q b pos n h y. loop q b pos n h = Some y \<Longrightarrow>
      \<exists>n'. safe_from nxt q (on_safe b) (pos, n, h) = Some (q, n', y)"
    and step: "(if pos = q then Some h else let h = b pos h in loop q b n (nxt h n) h) = Some h'"
  show "\<exists>n'. safe_from nxt q (on_safe b) (pos, n, h) = Some (q, n', h')"
  proof (cases "pos = q")
    case False
    then have "safe_from nxt q (on_safe b) (pos, n, h)
        = safe_from nxt q (on_safe b) (n, nxt (b pos h) n, b pos h)"
      by (simp add: safe_from_def c_for_go on_safe_def)
    then show ?thesis using IH [of q b n "nxt (b pos h) n" "b pos h" h'] step False by (simp add: Let_def)
  qed (use step in \<open>simp add: safe_from_def c_for_stop\<close>)
qed

lemma walk_safe_from:
  assumes "safe_from nxt q (on_safe b) s = Some t"
  shows "walk_safe q b (fst s) (fst (snd s)) (snd (snd s)) = Some (snd (snd t))"
proof -
  have "go = (\<lambda>(pos, n, h). pos \<noteq> q) \<and> step = (\<lambda>(pos, n, h). (n, nxt h n, h)) \<and> body = on_safe b
      \<longrightarrow> walk_safe q b (fst s) (fst (snd s)) (snd (snd s)) = Some (snd (snd t))"
    if "c_for go step body s = Some t" for go step body and s t :: "(addr, 'a) cur2"
    using that
  proof (rule c_for.raw_induct [where P = "\<lambda>go step body s t. go = (\<lambda>(pos, n, h). pos \<noteq> q) \<and>
      step = (\<lambda>(pos, n, h). (n, nxt h n, h)) \<and> body = on_safe b
      \<longrightarrow> walk_safe q b (fst s) (fst (snd s)) (snd (snd s)) = Some (snd (snd t))", rotated], goal_cases)
    case (1 loop go step body s t)
    obtain p n h where s: "s = (p, n, h)" by (cases s) auto
    show ?case
    proof (intro impI)
      assume eq: "go = (\<lambda>(pos, n, h). pos \<noteq> q) \<and> step = (\<lambda>(pos, n, h). (n, nxt h n, h)) \<and> body = on_safe b"
      show "walk_safe q b (fst s) (fst (snd s)) (snd (snd s)) = Some (snd (snd t))"
      proof (cases "p = q")
        case False
        then have "loop go step body (n, nxt (b p h) n, b p h) = Some t"
          using 1(2) eq s by (simp add: on_safe_def)
        from 1(1) [OF this] eq have "walk_safe q b n (nxt (b p h) n) (b p h) = Some (snd (snd t))" by simp
        then show ?thesis using False s by (subst walk_safe.simps) (simp add: Let_def)
      qed (use 1(2) eq s in \<open>subst walk_safe.simps, auto\<close>)
    qed
  qed
  then show ?thesis using assms by (auto simp: safe_from_def)
qed

lemma walk_safe_eq:
  "walk_safe q b pos n h = map_option (\<lambda>t. snd (snd t)) (safe_from nxt q (on_safe b) (pos, n, h))"
proof (cases "safe_from nxt q (on_safe b) (pos, n, h)")
  case (Some t)
  then show ?thesis using walk_safe_from [OF Some] by simp
next
  case None
  then show ?thesis using walk_safe_to [of q b pos n h] by (cases "walk_safe q b pos n h") auto
qed

lemmas head_loop_eqs = list_for_each_raw_def [folded each_from_def]
  list_for_each_prev_def [folded each_from_def] list_for_each_prev_safe_def [folded safe_from_def]

section \<open>Unlinking in either direction\<close>

lemma fold_list_del_ring:
  assumes "dlist h q xs" and "set ys \<subseteq> set xs" and "distinct ys"
  shows "dlist (fold (\<lambda>e h. if P e then list_del e h else h) ys h) q
    (filter (\<lambda>e. \<not> (P e \<and> e \<in> set ys)) xs)"
  using assms
proof (induction ys arbitrary: h xs)
  case (Cons y ys)
  show ?case
  proof (cases "P y")
    case True
    obtain us vs where xs: "xs = us @ y # vs" and y: "y \<notin> set (us @ vs)"
      by (rule dlist_in_split [OF Cons.prems(1), of y]) (use Cons.prems(2) in auto)
    have "dlist (list_del y h) q (us @ vs)" by (rule list_del_ring) (use Cons.prems(1) xs in simp)
    from Cons.IH [OF this] have "dlist (fold (\<lambda>e h. if P e then list_del e h else h) ys (list_del y h)) q
        (filter (\<lambda>e. \<not> (P e \<and> e \<in> set ys)) (us @ vs))"
      using Cons.prems(2,3) xs by auto
    moreover have "filter (\<lambda>e. \<not> (P e \<and> e \<in> set ys)) (us @ vs)
        = filter (\<lambda>e. \<not> (P e \<and> e \<in> set (y # ys))) xs"
      using y True unfolding xs by (auto intro!: arg_cong2 [where f = append] filter_cong)
    ultimately show ?thesis using True by simp
  next
    case False
    then have "filter (\<lambda>e. \<not> (P e \<and> e \<in> set (y # ys))) xs = filter (\<lambda>e. \<not> (P e \<and> e \<in> set ys)) xs"
      by (intro filter_cong) auto
    then show ?thesis using Cons.IH [OF Cons.prems(1)] Cons.prems(2,3) False by simp
  qed
qed simp

lemma list_del_keeps:
  "dlist h q (us @ x # ys) \<Longrightarrow> \<exists>vs. dlist (if c then list_del x h else h) q (vs @ ys)"
  using list_del_ring [of h q us x ys] by (cases c) (auto intro: exI [of _ us] exI [of _ "us @ [x]"])

lemma list_del_keeps_prev:
  "dlist h q (us @ x # ys) \<Longrightarrow> \<exists>vs. dlist (if c then list_del x h else h) q (us @ vs)"
  using list_del_ring [of h q us x ys] by (cases c) auto

section \<open>Unlinking the buffers of a queue\<close>

lemma skb_unlink_dlist:
  assumes "dlist h q (us @ e # ys)"
  shows "dlist (skb_unlink e q h) q (us @ ys)"
proof -
  define g where "g = set_qlen q (of_nat (length (us @ e # ys))) h"
  have "dlist (skb_unlink_raw e q g) q (us @ ys)"
    using skb_unlink_ring [of g q us e ys] assms by (simp add: g_def skq_ok_def)
  then show ?thesis
    by (subst dlist_cong [where h = "skb_unlink_raw e q g"])
      (auto simp: skb_unlink_def skb_unlink_raw_def g_def Let_def)
qed

lemma skb_unlink_all: "skq_ok h q xs \<Longrightarrow> skq_ok (fold (\<lambda>e. skb_unlink e q) xs h) q []"
proof (induction xs arbitrary: h)
  case (Cons x xs)
  have "skq_ok (skb_unlink x q h) q xs"
    using skb_unlink_ring [of h q "[]" x xs] Cons.prems by (simp add: skb_unlink_def)
  then show ?case using Cons.IH by simp
qed simp

lemma skb_unlink_all_rev: "skq_ok h q xs \<Longrightarrow> skq_ok (fold (\<lambda>e. skb_unlink e q) (rev xs) h) q []"
proof (induction xs arbitrary: h rule: rev_induct)
  case (snoc x xs)
  have "skq_ok (skb_unlink x q h) q xs"
    using skb_unlink_ring [of h q xs x "[]"] snoc.prems by (simp add: skb_unlink_def)
  then show ?case using snoc.IH by simp
qed simp

section \<open>Properties\<close>

text \<open>A heap that also records what a body has seen, for the witnesses.\<close>

record log_heap = lheap +
  seen :: "int list"

definition see :: "int \<Rightarrow> log_heap \<Rightarrow> log_heap" where
  "see e h = h\<lparr>seen := seen h @ [e]\<rparr>"

definition demo_log :: log_heap where
  "demo_log = list_add_tail 24 8 (list_add_tail 16 8 \<lparr>nxt = id, prv = id, seen = []\<rparr>)"

lemma demo_log: "dlist demo_log 8 [16, 24]"
  by (simp add: demo_log_def list_add_tail_def list_add_raw_def dlist_def)

text \<open>
  C8. A loop over the entries of a list is the loop over its list heads, on every heap and for
  every body, ending or not: forwards, backwards, and in the variants that read the neighbour
  before the body runs; and continuing from a start point prepared from NULL is the whole loop.
  All that is needed is that the member of the structure around a list head is that list head.
\<close>

theorem entry_loops_equal_head_loops:
  assumes "\<And>p. memb (cof p) = p"
  shows "list_for_each_entry cof memb q (on_cur b) h
           = map_option (map_prod cof id) (list_for_each_raw q (on_cur (\<lambda>p. b (cof p))) h)
       \<and> list_for_each_entry_reverse cof memb q (on_cur b) h
           = map_option (map_prod cof id) (list_for_each_prev q (on_cur (\<lambda>p. b (cof p))) h)
       \<and> map_option (\<lambda>t. snd (snd t)) (list_for_each_entry_safe cof memb q (on_safe b) h)
           = list_for_each_safe q (\<lambda>p. b (cof p)) h
       \<and> list_for_each_entry_safe_reverse cof memb q (on_safe b) h
           = map_option (map_prod cof (map_prod cof id))
               (list_for_each_prev_safe q (on_safe (\<lambda>p. b (cof p))) h)
       \<and> list_for_each_entry_continue cof memb (list_prepare_entry cof None q) q (on_cur b) h
           = list_for_each_entry cof memb q (on_cur b) h"
  by (simp add: entry_loop_defs head_loop_eqs list_for_each_safe_def list_prepare_entry_def Let_def
      assms entry_sim entry_safe_sim walk_safe_eq option.map_comp comp_def)

theorem entry_loops_equal_head_loops_witness:
  "list_for_each_entry (\<lambda>p. int p - 8) (\<lambda>e. nat (e + 8)) 8 (on_cur see) demo_log
     = map_option (map_prod (\<lambda>p. int p - 8) id)
         (list_for_each_raw 8 (on_cur (\<lambda>p. see (int p - 8))) demo_log)"
  using entry_loops_equal_head_loops [of "\<lambda>e. nat (e + 8)" "\<lambda>p. int p - 8" 8 see demo_log] by simp

text \<open>
  A loop over the entries of a list, whose body leaves the links alone, ends and runs the body
  once for every entry, in the order of the list; the reverse loop does so in the opposite
  order; a loop that goes on after an entry, or starts at it, runs the body for the rest.
\<close>

theorem entry_loops_visit:
  assumes "\<And>p. memb (cof p) = p" and "\<And>e h. nxt (b e h) = nxt h \<and> prv (b e h) = prv h"
    and "dlist h q (xs @ x # ys)"
  shows "list_for_each_entry cof memb q (on_cur b) h
           = Some (cof q, fold b (map cof (xs @ x # ys)) h)
       \<and> list_for_each_entry_reverse cof memb q (on_cur b) h
           = Some (cof q, fold b (rev (map cof (xs @ x # ys))) h)
       \<and> list_for_each_entry_continue cof memb (cof x) q (on_cur b) h
           = Some (cof q, fold b (map cof ys) h)
       \<and> list_for_each_entry_continue_reverse cof memb (cof x) q (on_cur b) h
           = Some (cof q, fold b (rev (map cof xs)) h)
       \<and> list_for_each_entry_from cof memb (cof x) q (on_cur b) h
           = Some (cof q, fold b (map cof (x # ys)) h)"
proof -
  have fd: "fold (\<lambda>p. b (cof p)) zs h = fold b (map cof zs) h" for zs h
    by (simp add: fold_map comp_def)
  have keep: "dlist (b e g) q zs = dlist g q zs" for e g zs
    by (rule dlist_cong) (simp add: assms(2))
  have fwd: "each_from nxt q (on_cur (\<lambda>p. b (cof p))) (succ_of zs q, h) = Some (q, fold b (map cof zs) h)"
    if "dlist h q (us @ zs)" for us zs
    using each_from_ring [OF that, of "\<lambda>p. b (cof p)"] by (simp only: keep fd) blast
  have bwd: "each_from prv q (on_cur (\<lambda>p. b (cof p))) (pred_of q zs, h) = Some (q, fold b (rev (map cof zs)) h)"
    if "dlist h q (zs @ us)" for us zs
    using each_from_ring_prev [OF that, of "\<lambda>p. b (cof p)"] by (simp only: keep fd rev_map) blast
  have "nxt h q = succ_of (xs @ x # ys) q" "prv h q = pred_of q (xs @ x # ys)"
    using dlist_nxt_head [OF assms(3)] dlist_prv_head [OF assms(3)] .
  then show ?thesis
    using fwd [of "[]" "xs @ x # ys"] bwd [of "xs @ x # ys" "[]"] fwd [of xs "x # ys"]
      fwd [of "xs @ [x]" ys] bwd [of xs "x # ys"] dlist_nbr [OF assms(3)] assms(3)
    by (simp add: entry_loop_defs assms(1) entry_sim rev_map)
qed

theorem entry_loops_visit_example:
  "list_for_each_entry_reverse (\<lambda>p. int p - 8) (\<lambda>e. nat (e + 8)) 8 (on_cur see) demo_log
     = Some (0, demo_log\<lparr>seen := [16, 8]\<rparr>)"
  using entry_loops_visit [of "\<lambda>e. nat (e + 8)" "\<lambda>p. int p - 8" see demo_log 8 "[16]" 24 "[]"] demo_log
  by (simp add: see_def, simp add: demo_log_def list_add_tail_def list_add_raw_def set_next_def set_prev_def)

definition unlink_if ::
  "('e \<Rightarrow> addr) \<Rightarrow> ('e \<Rightarrow> bool) \<Rightarrow> 'e \<Rightarrow> 'z lheap_scheme \<Rightarrow> 'z lheap_scheme"
where
  "unlink_if memb P e h = (if P e then list_del (memb e) h else h)"

text \<open>
  C28. The deletion-safe loops over entries, forwards and backwards, may unlink the entries they are
  at: both end, and both leave the list with exactly the entries that were not unlinked, in order.
\<close>

theorem entry_safe_loops_filter:
  assumes "\<And>p. memb (cof p) = p" and "dlist h q xs"
  shows "(\<exists>n h'. list_for_each_entry_safe cof memb q (on_safe (unlink_if memb P)) h = Some (cof q, n, h')
            \<and> dlist h' q (filter (\<lambda>p. \<not> P (cof p)) xs))
       \<and> (\<exists>n h'. list_for_each_entry_safe_reverse cof memb q (on_safe (unlink_if memb P)) h = Some (cof q, n, h')
            \<and> dlist h' q (filter (\<lambda>p. \<not> P (cof p)) xs))"
proof
  let ?b = "\<lambda>p h. if P (cof p) then list_del p h else h"
  have b: "(\<lambda>p. unlink_if memb P (cof p)) = ?b" by (intro ext) (simp add: unlink_if_def assms(1))
  have f: "filter (\<lambda>p. P (cof p) \<longrightarrow> p \<notin> set xs) xs = filter (\<lambda>p. \<not> P (cof p)) xs"
    by (intro filter_cong) auto
  have "\<exists>n. safe_from nxt q (on_safe ?b) (succ_of xs q, nxt h (succ_of xs q), h) = Some (q, n, fold ?b xs h)"
    by (rule safe_from_ring [where us = "[]"], simp add: assms(2)) (rule list_del_keeps)
  moreover have "dlist (fold ?b xs h) q (filter (\<lambda>p. \<not> P (cof p)) xs)"
    using fold_list_del_ring [OF assms(2), of xs "\<lambda>p. P (cof p)"] dlist_distinct [OF assms(2)] by (simp add: f)
  ultimately show "\<exists>n h'. list_for_each_entry_safe cof memb q (on_safe (unlink_if memb P)) h = Some (cof q, n, h')
      \<and> dlist h' q (filter (\<lambda>p. \<not> P (cof p)) xs)"
    by (auto simp: entry_loop_defs Let_def assms(1) entry_safe_sim b dlist_nxt_head [OF assms(2)])
  have "\<exists>n. safe_from prv q (on_safe ?b) (pred_of q xs, prv h (pred_of q xs), h)
      = Some (q, n, fold ?b (rev xs) h)"
    by (rule safe_from_ring_prev [where us = "[]"], simp add: assms(2)) (rule list_del_keeps_prev)
  moreover have "dlist (fold ?b (rev xs) h) q (filter (\<lambda>p. \<not> P (cof p)) xs)"
    using fold_list_del_ring [OF assms(2), of "rev xs" "\<lambda>p. P (cof p)"] dlist_distinct [OF assms(2)] by (simp add: f)
  ultimately show "\<exists>n h'. list_for_each_entry_safe_reverse cof memb q (on_safe (unlink_if memb P)) h = Some (cof q, n, h')
      \<and> dlist h' q (filter (\<lambda>p. \<not> P (cof p)) xs)"
    by (auto simp: entry_loop_defs Let_def assms(1) entry_safe_sim b dlist_prv_head [OF assms(2)])
qed

theorem entry_safe_loops_filter_witness:
  "\<exists>n h'. list_for_each_entry_safe_reverse (\<lambda>p. int p - 8) (\<lambda>e. nat (e + 8)) 8
      (on_safe (unlink_if (\<lambda>e. nat (e + 8)) (\<lambda>e. e = 8))) demo_log = Some (0, n, h') \<and> dlist h' 8 [24]"
  using entry_safe_loops_filter [of "\<lambda>e. nat (e + 8)" "\<lambda>p. int p - 8" demo_log 8 "[16, 24]" "\<lambda>e. e = 8"]
    demo_log by simp

text \<open>
  Unlinking every buffer of a queue in a deletion-safe walk, forwards or backwards, ends and
  leaves the queue empty with length 0.
\<close>

theorem skb_walks_unlink_all:
  assumes "skq_ok h q xs"
  shows "(\<exists>t h'. skb_queue_walk_safe q (on_safe (\<lambda>skb. skb_unlink skb q)) h = Some (q, t, h')
            \<and> skb_queue_empty q h' \<and> skb_queue_len q h' = 0)
       \<and> (\<exists>t h'. skb_queue_reverse_walk_safe q (on_safe (\<lambda>skb. skb_unlink skb q)) h = Some (q, t, h')
            \<and> skb_queue_empty q h' \<and> skb_queue_len q h' = 0)"
proof
  have d: "dlist h q xs" using assms by (simp add: skq_ok_def)
  have e: "skb_queue_empty q g \<and> skb_queue_len q g = 0" if "skq_ok g q []" for g
    using skb_queue_empty_ok [OF that] that by (simp add: skb_queue_len_def skq_ok_def)
  show "\<exists>t h'. skb_queue_walk_safe q (on_safe (\<lambda>skb. skb_unlink skb q)) h = Some (q, t, h')
      \<and> skb_queue_empty q h' \<and> skb_queue_len q h' = 0"
    using safe_from_ring [of h q "[]" xs "\<lambda>skb. skb_unlink skb q"] d skb_unlink_dlist
      e [OF skb_unlink_all [OF assms]]
    by (auto simp: skb_queue_walk_safe_def Let_def dlist_nxt_head [OF d] safe_from_def) blast
  show "\<exists>t h'. skb_queue_reverse_walk_safe q (on_safe (\<lambda>skb. skb_unlink skb q)) h = Some (q, t, h')
      \<and> skb_queue_empty q h' \<and> skb_queue_len q h' = 0"
    using safe_from_ring_prev [of h q xs "[]" "\<lambda>skb. skb_unlink skb q"] d skb_unlink_dlist
      e [OF skb_unlink_all_rev [OF assms]]
    by (auto simp: skb_queue_reverse_walk_safe_def Let_def dlist_prv_head [OF d] safe_from_def) blast
qed

theorem skb_walks_unlink_all_example:
  "\<exists>t h'. skb_queue_walk_safe 1 (on_safe (\<lambda>skb. skb_unlink skb 1))
      (skb_queue_tail 1 4 (skb_queue_head_init 1 demo_skq)) = Some (1, t, h')
      \<and> skb_queue_empty 1 h' \<and> skb_queue_len 1 h' = 0"
  using skb_walks_unlink_all [OF skb_queue_tail_ok [OF skb_queue_head_init_ok, of 4 1 demo_skq]] by simp

text \<open>
  \<open>list_safe_reset_next\<close> mends the saved neighbour after the body changed the list behind an
  entry that stayed where it was.
\<close>

lemma list_safe_reset_next_ring:
  assumes "\<And>p. memb (cof p) = p" and "dlist h q (xs @ e # ys)"
  shows "list_safe_reset_next cof memb (cof e, n, h) = (cof e, cof (succ_of ys q), h)"
  using dlist_nbr(2) [OF assms(2)] by (simp add: list_safe_reset_next_def list_entry_def assms(1))


end
