(* ===== verification/Fm_Hashtable.thy ===== *)
theory Fm_Hashtable
  imports Tsm_Prelude "HOL-Library.Multiset"
begin

text \<open>
  \<open>common/fm_hashtable.c\<close>: the chained hash table. A bucket is the list of entries its chain of
  \<open>next\<close> pointers reaches; the \<open>prev\<close> pointers are the positions in that list. Keys and values are
  \<open>void\<close> pointers: the table is polymorphic in both, stores the key it is given (a string in
  \<open>Bc_Data\<close>, an address in \<open>Bc_Keys\<close>), and a \<open>NULL\<close> value is \<open>None\<close>. The hash and
  equality callbacks may fault (on a string that is not terminated), so they return a result. The
  delete callbacks are recorded in a log. Whether a \<open>calloc\<close> succeeds is an argument.
\<close>

section \<open>State and operations\<close>

record ('k, 'v) ht_entry =
  he_hash_key :: u32
  he_key :: 'k
  he_value :: "'v option"

datatype ('k, 'v) ht_event = Key_Del 'k | Value_Del "'v option"

record ('k, 'v) hashtable =
  ht_nelem :: nat
  ht_tab :: "('k, 'v) ht_entry list list"
  ht_tab_size :: nat
  ht_hash :: "'k \<Rightarrow> u32 res"
  ht_equal :: "'k \<Rightarrow> 'k \<Rightarrow> bool res"
  ht_key_del :: bool
  ht_value_del :: bool
  ht_log :: "('k, 'v) ht_event list"

definition zc_hashtable_new ::
  "bool \<Rightarrow> bool \<Rightarrow> nat \<Rightarrow> ('k \<Rightarrow> u32 res) \<Rightarrow> ('k \<Rightarrow> 'k \<Rightarrow> bool res) \<Rightarrow> bool \<Rightarrow> bool
     \<Rightarrow> ('k, 'v) hashtable option"
where
  "zc_hashtable_new ok1 ok2 a_size hash equal key_del value_del =
     (if \<not> ok1 then None
      else if \<not> ok2 then None
      else Some \<lparr>ht_nelem = 0, ht_tab = replicate a_size [], ht_tab_size = a_size,
                 ht_hash = hash, ht_equal = equal, ht_key_del = key_del,
                 ht_value_del = value_del, ht_log = []\<rparr>)"

text \<open>The two delete callbacks for one entry.\<close>

definition del_entry :: "('k, 'v) ht_entry \<Rightarrow> ('k, 'v) hashtable \<Rightarrow> ('k, 'v) hashtable" where
  "del_entry p t = t\<lparr>ht_log := ht_log t
       @ (if ht_key_del t then [Key_Del (he_key p)] else [])
       @ (if ht_value_del t then [Value_Del (he_value p)] else [])\<rparr>"

text \<open>The entries in the order of the double loop over buckets and chains.\<close>

definition ht_entries :: "('k, 'v) hashtable \<Rightarrow> ('k, 'v) ht_entry list" where
  "ht_entries t = concat (take (ht_tab_size t) (ht_tab t))"

definition zc_hashtable_clean :: "('k, 'v) hashtable \<Rightarrow> ('k, 'v) hashtable" where
  "zc_hashtable_clean t =
     (let t' = fold del_entry (ht_entries t) t
      in t'\<lparr>ht_tab := replicate (ht_tab_size t) [], ht_nelem := 0\<rparr>)"

text \<open>\<open>zc_hashtable_del\<close> runs the callbacks on every entry; what is left is their log.\<close>

definition zc_hashtable_del :: "('k, 'v) hashtable option \<Rightarrow> ('k, 'v) ht_event list" where
  "zc_hashtable_del a_table =
     (case a_table of None \<Rightarrow> [] | Some t \<Rightarrow> ht_log (fold del_entry (ht_entries t) t))"

definition ht_place ::
  "nat \<Rightarrow> ('k, 'v) ht_entry \<Rightarrow> ('k, 'v) ht_entry list list \<Rightarrow> ('k, 'v) ht_entry list list"
where
  "ht_place tab_size p tab =
     (let j = unat (he_hash_key p) mod tab_size in tab[j := p # tab ! j])"

definition zc_hashtable_rehash :: "bool \<Rightarrow> ('k, 'v) hashtable \<Rightarrow> int \<times> ('k, 'v) hashtable" where
  "zc_hashtable_rehash ok t =
     (let tab_size = 2 * ht_tab_size t
      in if \<not> ok then (-1, t)
         else (0, t\<lparr>ht_tab := fold (ht_place tab_size) (ht_entries t) (replicate tab_size []),
                    ht_tab_size := tab_size\<rparr>))"

text \<open>The bucket of a hash value; the remainder by 0 is undefined.\<close>

definition ht_index :: "('k, 'v) hashtable \<Rightarrow> u32 \<Rightarrow> nat res" where
  "ht_index t h = (if ht_tab_size t = 0 then Inl Undefined else Inr (unat h mod ht_tab_size t))"

text \<open>
  The search loop of the four operations: the entry it stops at, with the chain before and
  after it.
\<close>

fun ht_search ::
  "('k \<Rightarrow> 'k \<Rightarrow> bool res) \<Rightarrow> 'k \<Rightarrow> ('k, 'v) ht_entry list
     \<Rightarrow> (('k, 'v) ht_entry list \<times> ('k, 'v) ht_entry \<times> ('k, 'v) ht_entry list) option res"
where
  "ht_search equal k [] = Inr None"
| "ht_search equal k (p # ps) =
     bindR (equal k (he_key p)) (\<lambda>b.
       if b then Inr (Some ([], p, ps))
       else bindR (ht_search equal k ps) (\<lambda>r.
              Inr (map_option (\<lambda>(us, q, vs). (p # us, q, vs)) r)))"

definition ht_find ::
  "('k, 'v) hashtable \<Rightarrow> 'k
     \<Rightarrow> (nat \<times> (('k, 'v) ht_entry list \<times> ('k, 'v) ht_entry \<times> ('k, 'v) ht_entry list) option) res"
where
  "ht_find t k =
     bindR (ht_hash t k) (\<lambda>h. bindR (ht_index t h) (\<lambda>i. bindR (rd (ht_tab t) (int i)) (\<lambda>b.
       bindR (ht_search (ht_equal t) k b) (\<lambda>r. Inr (i, r)))))"

definition zc_hashtable_get_entry ::
  "('k, 'v) hashtable \<Rightarrow> 'k \<Rightarrow> ('k, 'v) ht_entry option res"
where
  "zc_hashtable_get_entry t k =
     bindR (ht_find t k) (\<lambda>(i, r). Inr (map_option (\<lambda>(us, p, vs). p) r))"

definition zc_hashtable_get :: "('k, 'v) hashtable \<Rightarrow> 'k \<Rightarrow> 'v option res" where
  "zc_hashtable_get t k =
     bindR (ht_find t k) (\<lambda>(i, r). Inr (case r of Some (us, p, vs) \<Rightarrow> he_value p | None \<Rightarrow> None))"

definition zc_hashtable_put ::
  "bool \<Rightarrow> bool \<Rightarrow> ('k, 'v) hashtable \<Rightarrow> 'k \<Rightarrow> 'v option \<Rightarrow> (int \<times> ('k, 'v) hashtable) res"
where
  "zc_hashtable_put ok1 ok2 t a_key a_value =
     bindR (ht_find t a_key) (\<lambda>(i, r). case r of
       Some (us, p, vs) \<Rightarrow>
         Inr (0, (del_entry p t)\<lparr>ht_tab := (ht_tab t)
                 [i := us @ p\<lparr>he_key := a_key, he_value := a_value\<rparr> # vs]\<rparr>)
     | None \<Rightarrow>
         (let (rc, t) = (if ht_nelem t * 10 > ht_tab_size t * 13
                         then zc_hashtable_rehash ok1 t else (0, t))
          in if rc \<noteq> 0 then Inr (-1, t)
             else if \<not> ok2 then Inr (-1, t)
             else bindR (ht_hash t a_key) (\<lambda>h. bindR (ht_index t h) (\<lambda>i.
                    bindR (rd (ht_tab t) (int i)) (\<lambda>b.
                      Inr (0, t\<lparr>ht_tab := (ht_tab t)
                            [i := \<lparr>he_hash_key = h, he_key = a_key, he_value = a_value\<rparr> # b],
                          ht_nelem := ht_nelem t + 1\<rparr>))))))"

definition zc_hashtable_remove ::
  "('k, 'v) hashtable option \<Rightarrow> 'k option \<Rightarrow> ('k, 'v) hashtable option res"
where
  "zc_hashtable_remove a_table a_key =
     (case (a_table, a_key) of
        (Some t, Some k) \<Rightarrow>
          bindR (ht_find t k) (\<lambda>(i, r). case r of
            None \<Rightarrow> Inr (Some t)
          | Some (us, p, vs) \<Rightarrow>
              bindR (if us \<noteq> [] then Inr i else ht_index t (he_hash_key p)) (\<lambda>i.
                Inr (Some ((del_entry p t)\<lparr>ht_tab := (ht_tab t)[i := us @ vs],
                                            ht_nelem := ht_nelem t - 1\<rparr>))))
      | _ \<Rightarrow> Inr a_table)"

text \<open>An entry in the table is named by its bucket and its place in the chain.\<close>

fun ht_first :: "'a list list \<Rightarrow> nat \<Rightarrow> (nat \<times> nat) option" where
  "ht_first [] j = None"
| "ht_first (b # bs) j = (if b \<noteq> [] then Some (j, 0) else ht_first bs (j + 1))"

definition zc_hashtable_begin :: "('k, 'v) hashtable \<Rightarrow> (nat \<times> nat) option" where
  "zc_hashtable_begin t = ht_first (take (ht_tab_size t) (ht_tab t)) 0"

definition zc_hashtable_next :: "('k, 'v) hashtable \<Rightarrow> nat \<times> nat \<Rightarrow> (nat \<times> nat) option" where
  "zc_hashtable_next t a_entry =
     (let (b, n) = a_entry; chain = ht_tab t ! b
      in if n + 1 < length chain then Some (b, n + 1)
         else let i = unat (he_hash_key (chain ! n)) mod ht_tab_size t
              in ht_first (drop (i + 1) (take (ht_tab_size t) (ht_tab t))) (i + 1))"

text \<open>The entries a \<open>zc_hashtable_foreach\<close> loop visits from an entry on.\<close>

partial_function (option) ht_foreach ::
  "('k, 'v) hashtable \<Rightarrow> (nat \<times> nat) option \<Rightarrow> ('k, 'v) ht_entry list option"
where
  "ht_foreach t a_entry =
     (case a_entry of
        None \<Rightarrow> Some []
      | Some e \<Rightarrow> Option.bind (ht_foreach t (zc_hashtable_next t e)) (\<lambda>ps.
                    Some (ht_tab t ! fst e ! snd e # ps)))"

definition zc_hashtable_foreach :: "('k, 'v) hashtable \<Rightarrow> ('k, 'v) ht_entry list option" where
  "zc_hashtable_foreach t = ht_foreach t (zc_hashtable_begin t)"

subsection \<open>String keys\<close>

text \<open>\<open>char\<close> is signed: a byte above 127 is added sign extended.\<close>

fun str_hash_loop :: "u8 list \<Rightarrow> u32 \<Rightarrow> u32 res" where
  "str_hash_loop [] h = Inl Out_Of_Bounds"
| "str_hash_loop (c # cs) h =
     (if c = 0 then Inr h else str_hash_loop cs ((push_bit 5 h + h) + scast c))"

definition zc_hashtable_str_hash :: "u8 list \<Rightarrow> u32 res" where
  "zc_hashtable_str_hash str = str_hash_loop str 5381"

fun zc_hashtable_str_equal :: "u8 list \<Rightarrow> u8 list \<Rightarrow> bool res" where
  "zc_hashtable_str_equal (a # s1) (b # s2) =
     (if a \<noteq> b then Inr False else if a = 0 then Inr True else zc_hashtable_str_equal s1 s2)"
| "zc_hashtable_str_equal _ _ = Inl Out_Of_Bounds"

section \<open>Well-formed tables\<close>

text \<open>
  \<open>valid\<close> are the keys a client may use, \<open>canon\<close> what its equality compares, \<open>hsh\<close> its hash.
\<close>

definition key_of :: "('k \<Rightarrow> 'c) \<Rightarrow> ('k, 'v) ht_entry \<Rightarrow> 'c" where
  "key_of canon e = canon (he_key e)"

definition entry_ok ::
  "('k \<Rightarrow> bool) \<Rightarrow> ('k \<Rightarrow> 'c) \<Rightarrow> ('c \<Rightarrow> u32) \<Rightarrow> ('k, 'v) ht_entry \<Rightarrow> bool"
where
  "entry_ok valid canon hsh e \<longleftrightarrow> valid (he_key e) \<and> he_hash_key e = hsh (key_of canon e)"

definition in_bucket :: "nat \<Rightarrow> nat \<Rightarrow> ('k, 'v) ht_entry \<Rightarrow> bool" where
  "in_bucket sz i e \<longleftrightarrow> unat (he_hash_key e) mod sz = i"

definition buckets_ok :: "nat \<Rightarrow> ('k, 'v) ht_entry list list \<Rightarrow> bool" where
  "buckets_ok sz tab \<longleftrightarrow> length tab = sz \<and> (\<forall>i < sz. \<forall>e\<in>set (tab ! i). in_bucket sz i e)"

definition ht_ok ::
  "('k \<Rightarrow> u32 res) \<Rightarrow> ('k \<Rightarrow> 'k \<Rightarrow> bool res) \<Rightarrow> ('k \<Rightarrow> bool) \<Rightarrow> ('k \<Rightarrow> 'c) \<Rightarrow> ('c \<Rightarrow> u32)
     \<Rightarrow> ('k, 'v) hashtable \<Rightarrow> bool"
where
  "ht_ok hash equal valid canon hsh t \<longleftrightarrow>
     ht_hash t = hash \<and> ht_equal t = equal \<and> 0 < ht_tab_size t
     \<and> buckets_ok (ht_tab_size t) (ht_tab t) \<and> ht_nelem t = length (concat (ht_tab t))
     \<and> (\<forall>e\<in>set (concat (ht_tab t)). entry_ok valid canon hsh e)
     \<and> distinct (map (key_of canon) (concat (ht_tab t)))"

text \<open>The finite map a list of entries stands for, and that of a table.\<close>

definition ents_map :: "('k \<Rightarrow> 'c) \<Rightarrow> ('k, 'v) ht_entry list \<Rightarrow> 'c \<Rightarrow> 'v option option" where
  "ents_map canon es = map_of (map (\<lambda>e. (key_of canon e, he_value e)) es)"

definition ht_map :: "('k \<Rightarrow> 'c) \<Rightarrow> ('k, 'v) hashtable \<Rightarrow> 'c \<Rightarrow> 'v option option" where
  "ht_map canon t = ents_map canon (concat (ht_tab t))"

lemma ents_map_simps [simp]:
  "ents_map canon [] = Map.empty"
  "ents_map canon (e # es) = (ents_map canon es)(key_of canon e \<mapsto> he_value e)"
  by (simp_all add: ents_map_def)

lemma ents_map_none: "ents_map canon es c = None \<longleftrightarrow> c \<notin> key_of canon ` set es"
  by (auto simp: ents_map_def map_of_eq_None_iff image_image)

lemma look_iff:
  "distinct (map (key_of canon) es) \<Longrightarrow>
   ents_map canon es c = Some v \<longleftrightarrow> (\<exists>e\<in>set es. key_of canon e = c \<and> he_value e = v)"
  unfolding ents_map_def by (subst map_of_eq_Some_iff) (auto simp: comp_def)

lemma ents_map_mset:
  assumes "mset xs = mset ys" and "distinct (map (key_of canon) xs)"
  shows "ents_map canon xs = ents_map canon ys"
proof -
  have "distinct (map (key_of canon) ys)"
    using assms by (metis mset_eq_imp_distinct_iff mset_map)
  moreover have "set xs = set ys" using assms(1) by (rule mset_eq_setD)
  ultimately show ?thesis
    using assms(2) unfolding ents_map_def
    by (subst map_of_inject_set) (simp_all add: comp_def)
qed

lemma concat_at: "i < length xs \<Longrightarrow> concat xs = concat (take i xs) @ xs ! i @ concat (drop (Suc i) xs)"
  by (metis concat.simps(2) concat_append id_take_nth_drop)

lemma concat_upd_at:
  "i < length xs \<Longrightarrow> concat (xs[i := ys]) = concat (take i xs) @ ys @ concat (drop (Suc i) xs)"
  by (simp add: upd_conv_take_nth_drop)

lemma buckets_upd:
  assumes "buckets_ok sz tab" and "\<forall>e\<in>set b. in_bucket sz i e"
  shows "buckets_ok sz (tab[i := b])"
  unfolding buckets_ok_def
proof (intro conjI allI impI)
  show "length (tab[i := b]) = sz" using assms(1) by (simp add: buckets_ok_def)
next
  fix j assume "j < sz"
  then show "\<forall>e\<in>set (tab[i := b] ! j). in_bucket sz j e"
    using assms by (cases "i = j") (simp_all add: buckets_ok_def)
qed

lemma bucket_home:
  assumes "buckets_ok sz tab" and "e \<in> set (concat tab)"
  shows "e \<in> set (tab ! (unat (he_hash_key e) mod sz))"
proof -
  obtain b where "b \<in> set tab" "e \<in> set b" using assms(2) by auto
  then obtain i where "i < sz" "e \<in> set (tab ! i)"
    using assms(1) by (auto simp: buckets_ok_def in_set_conv_nth [of b])
  then show ?thesis using assms(1) by (auto simp: buckets_ok_def in_bucket_def)
qed

text \<open>Rehashing moves entries between buckets and loses none.\<close>

lemma place_ok:
  assumes "buckets_ok sz tab" and "0 < sz"
  shows "buckets_ok sz (ht_place sz e tab) \<and> mset (concat (ht_place sz e tab)) = add_mset e (mset (concat tab))"
proof -
  let ?j = "unat (he_hash_key e) mod sz"
  have j: "?j < length tab" using assms by (simp add: buckets_ok_def)
  have "buckets_ok sz (ht_place sz e tab)"
    unfolding ht_place_def Let_def
    by (rule buckets_upd) (use assms j in \<open>auto simp: buckets_ok_def in_bucket_def\<close>)
  then show ?thesis
    using concat_at [OF j] concat_upd_at [OF j] by (simp add: ht_place_def Let_def)
qed

lemma place_all_ok:
  assumes "buckets_ok sz tab" and "0 < sz"
  shows "buckets_ok sz (fold (ht_place sz) es tab)
         \<and> mset (concat (fold (ht_place sz) es tab)) = mset es + mset (concat tab)"
  using assms
proof (induction es arbitrary: tab)
  case (Cons e es)
  then show ?case using place_ok [of sz tab e] by simp
qed simp

lemma buckets_empty: "buckets_ok sz (replicate sz [])"
  by (simp add: buckets_ok_def)

lemma ht_entries_ok: "buckets_ok (ht_tab_size t) (ht_tab t) \<Longrightarrow> ht_entries t = concat (ht_tab t)"
  by (simp add: ht_entries_def buckets_ok_def)

lemma ht_ok_mset:
  assumes "ht_ok hash equal valid canon hsh t" and "mset (concat tab) = mset (concat (ht_tab t))"
    and "buckets_ok sz tab" and "0 < sz"
  shows "ht_ok hash equal valid canon hsh (t\<lparr>ht_tab := tab, ht_tab_size := sz\<rparr>)
         \<and> ht_map canon (t\<lparr>ht_tab := tab, ht_tab_size := sz\<rparr>) = ht_map canon t"
proof -
  have s: "set (concat tab) = set (concat (ht_tab t))" by (rule mset_eq_setD [OF assms(2)])
  have l: "length (concat tab) = length (concat (ht_tab t))" by (rule mset_eq_length [OF assms(2)])
  have d: "distinct (map (key_of canon) (concat tab))"
    using assms(1,2) unfolding ht_ok_def by (metis mset_eq_imp_distinct_iff mset_map)
  show ?thesis
    using assms(1,3,4) s l d ents_map_mset [OF assms(2) d] by (simp add: ht_ok_def ht_map_def)
qed

lemma rehash_ok:
  assumes "ht_ok hash equal valid canon hsh t"
  obtains rc t' where "zc_hashtable_rehash ok t = (rc, t')" and "ht_ok hash equal valid canon hsh t'"
    and "ht_map canon t' = ht_map canon t" and "rc = (if ok then 0 else -1)"
    and "ht_nelem t' = ht_nelem t"
    and "ht_tab_size t' = (if ok then 2 * ht_tab_size t else ht_tab_size t)"
proof (cases ok)
  case True
  let ?sz = "2 * ht_tab_size t"
  let ?tab = "fold (ht_place ?sz) (ht_entries t) (replicate ?sz [])"
  have sz: "0 < ?sz" using assms by (simp add: ht_ok_def)
  have "buckets_ok ?sz ?tab" "mset (concat ?tab) = mset (concat (ht_tab t))"
    using place_all_ok [OF buckets_empty sz, of "ht_entries t"] assms ht_entries_ok [of t]
    by (auto simp: ht_ok_def)
  from ht_ok_mset [OF assms this(2) this(1) sz] show ?thesis
    using that True by (simp add: zc_hashtable_rehash_def Let_def)
qed (use assms that in \<open>simp add: zc_hashtable_rehash_def\<close>)

lemma ents_map_middle:
  assumes "distinct (map (key_of canon) (xs @ p # ys))"
  shows "ents_map canon (xs @ p # ys) = (ents_map canon (xs @ ys))(key_of canon p \<mapsto> he_value p)"
    and "ents_map canon (xs @ ys) = (ents_map canon (xs @ p # ys))(key_of canon p := None)"
proof -
  have "ents_map canon (xs @ p # ys) = ents_map canon (p # xs @ ys)"
    by (rule ents_map_mset) (use assms in auto)
  then show 1: "ents_map canon (xs @ p # ys) = (ents_map canon (xs @ ys))(key_of canon p \<mapsto> he_value p)"
    by simp
  have "ents_map canon (xs @ ys) (key_of canon p) = None"
    using assms by (auto simp: ents_map_none image_iff)
  then show "ents_map canon (xs @ ys) = (ents_map canon (xs @ p # ys))(key_of canon p := None)"
    by (simp add: 1 fun_upd_idem)
qed

section \<open>The contract of a map\<close>

locale map_ops =
  fixes ok :: "'s \<Rightarrow> bool"
    and lookup :: "'s \<Rightarrow> 'c \<Rightarrow> 'v option"
    and valid :: "'k \<Rightarrow> bool"
    and canon :: "'k \<Rightarrow> 'c"
    and put :: "'k \<Rightarrow> 'v \<Rightarrow> 's \<Rightarrow> 's"
    and remove :: "'k \<Rightarrow> 's \<Rightarrow> 's"
  assumes put_ok: "ok s \<Longrightarrow> valid k \<Longrightarrow> ok (put k v s)"
    and put_lookup: "ok s \<Longrightarrow> valid k \<Longrightarrow> lookup (put k v s) = (lookup s)(canon k \<mapsto> v)"
    and remove_ok: "ok s \<Longrightarrow> valid k \<Longrightarrow> ok (remove k s)"
    and remove_lookup: "ok s \<Longrightarrow> valid k \<Longrightarrow> lookup (remove k s) = (lookup s)(canon k := None)"
begin

definition put_list :: "('k \<times> 'v) list \<Rightarrow> 's \<Rightarrow> 's" where
  "put_list kvs = fold (\<lambda>kv. put (fst kv) (snd kv)) kvs"

lemma put_all:
  "ok s \<Longrightarrow> \<forall>kv\<in>set kvs. valid (fst kv) \<Longrightarrow>
   ok (put_list kvs s)
   \<and> lookup (put_list kvs s) = lookup s ++ map_of (rev (map (\<lambda>kv. (canon (fst kv), snd kv)) kvs))"
proof (induction kvs arbitrary: s)
  case (Cons kv kvs)
  have "ok (put (fst kv) (snd kv) s)"
    and l: "lookup (put (fst kv) (snd kv) s) = (lookup s)(canon (fst kv) \<mapsto> snd kv)"
    using Cons.prems put_ok put_lookup by auto
  then show ?case
    using Cons.IH [of "put (fst kv) (snd kv) s", unfolded l] Cons.prems(2)
    by (simp add: put_list_def) (simp only: fun_upd_def)
qed (simp add: put_list_def)

lemma put_remove:
  assumes "ok s" and "valid k" and "lookup s (canon k) = None"
  shows "lookup (remove k (put k v s)) = lookup s"
  using assms by (simp add: put_lookup remove_lookup put_ok fun_upd_idem)

end

section \<open>The contract of the callbacks, and the table under it\<close>

locale key_ops =
  fixes hash :: "'k \<Rightarrow> u32 res"
    and equal :: "'k \<Rightarrow> 'k \<Rightarrow> bool res"
    and valid :: "'k \<Rightarrow> bool"
    and canon :: "'k \<Rightarrow> 'c"
    and hsh :: "'c \<Rightarrow> u32"
  assumes hash_valid: "valid k \<Longrightarrow> hash k = Inr (hsh (canon k))"
    and equal_valid: "valid a \<Longrightarrow> valid b \<Longrightarrow> equal a b = Inr (canon a = canon b)"
begin

abbreviation ok :: "('k, 'v) hashtable \<Rightarrow> bool" where
  "ok \<equiv> ht_ok hash equal valid canon hsh"

text \<open>The search loop stops at the only entry of the chain with the key.\<close>

lemma search_none:
  assumes "valid k" and "\<forall>e\<in>set b. valid (he_key e)" and "canon k \<notin> key_of canon ` set b"
  shows "ht_search equal k b = Inr None"
  using assms(2,3) by (induction b) (auto simp: equal_valid [OF assms(1)] key_of_def)

lemma search_some:
  assumes "valid k" and "\<forall>e\<in>set (us @ p # vs). valid (he_key e)"
    and "canon k \<notin> key_of canon ` set us" and "key_of canon p = canon k"
  shows "ht_search equal k (us @ p # vs) = Inr (Some (us, p, vs))"
  using assms(2,3,4) by (induction us) (auto simp: equal_valid [OF assms(1)] key_of_def)

lemma find_cases:
  assumes "ok t" and "valid k"
  defines "i \<equiv> unat (hsh (canon k)) mod ht_tab_size t"
  obtains (none) "ht_find t k = Inr (i, None)" and "canon k \<notin> key_of canon ` set (concat (ht_tab t))"
      and "i < length (ht_tab t)" and "ht_index t (hsh (canon k)) = Inr i"
  | (some) us p vs where "ht_find t k = Inr (i, Some (us, p, vs))" and "ht_tab t ! i = us @ p # vs"
      and "key_of canon p = canon k" and "i < length (ht_tab t)" and "he_hash_key p = hsh (canon k)"
      and "ht_index t (hsh (canon k)) = Inr i"
proof -
  let ?b = "ht_tab t ! i"
  have i: "i < length (ht_tab t)" and idx: "ht_index t (hsh (canon k)) = Inr i"
    using assms by (auto simp: ht_ok_def buckets_ok_def ht_index_def)
  have mem: "set ?b \<subseteq> set (concat (ht_tab t))" using nth_mem [OF i] by auto
  then have v: "\<forall>e\<in>set ?b. valid (he_key e)"
    using assms(1) by (auto simp: ht_ok_def entry_ok_def)
  have find: "ht_find t k = bindR (ht_search equal k ?b) (\<lambda>r. Inr (i, r))"
    using assms idx i by (simp add: ht_find_def hash_valid ht_ok_def rd_nat)
  show ?thesis
  proof (cases "canon k \<in> key_of canon ` set ?b")
    case True
    then obtain us p vs where b: "?b = us @ p # vs" "key_of canon p = canon k"
        "canon k \<notin> key_of canon ` set us"
      using split_list_first_prop [of ?b "\<lambda>e. key_of canon e = canon k"]
      by (metis (mono_tags, lifting) image_iff)
    have "he_hash_key p = hsh (canon k)"
      using assms(1) mem b by (auto simp: ht_ok_def entry_ok_def)
    then show ?thesis
      using some [of us p vs] find search_some [OF assms(2) _ b(3,2)] v b i idx by simp
  next
    case False
    have "canon k \<notin> key_of canon ` set (concat (ht_tab t))"
    proof
      assume "canon k \<in> key_of canon ` set (concat (ht_tab t))"
      then obtain e where e: "e \<in> set (concat (ht_tab t))" "key_of canon e = canon k"
        by (metis (no_types) imageE)
      have "he_hash_key e = hsh (canon k)"
        using assms(1) e unfolding ht_ok_def entry_ok_def by metis
      then have "e \<in> set ?b"
        using bucket_home [of "ht_tab_size t" "ht_tab t" e] assms(1) e(1)
        unfolding ht_ok_def i_def by simp
      then show False using False e(2) by (metis image_eqI)
    qed
    then show ?thesis using none find search_none [OF assms(2) v False] i idx by simp
  qed
qed

lemma get_ok:
  assumes "ok t" and "valid k"
  shows "zc_hashtable_get t k = Inr (case ht_map canon t (canon k) of Some v \<Rightarrow> v | None \<Rightarrow> None)"
  using assms
proof (cases rule: find_cases)
  case none
  then show ?thesis
    by (simp add: zc_hashtable_get_def ht_map_def ents_map_none [THEN iffD2] del: set_concat)
next
  case (some us p vs)
  let ?i = "unat (hsh (canon k)) mod ht_tab_size t"
  have "concat (ht_tab t) = (concat (take ?i (ht_tab t)) @ us) @ p # (vs @ concat (drop (Suc ?i) (ht_tab t)))"
    using concat_at [OF some(4)] some(2) by simp
  moreover have "distinct (map (key_of canon) (concat (ht_tab t)))" using assms(1) by (simp add: ht_ok_def)
  ultimately have "ht_map canon t (canon k) = Some (he_value p)"
    unfolding ht_map_def using ents_map_middle(1) some(3) by (metis fun_upd_same)
  then show ?thesis using some(1) by (simp add: zc_hashtable_get_def)
qed

text \<open>Changing one chain of a well-formed table.\<close>

lemma chain_upd:
  assumes "ok t" and "i < length (ht_tab t)" and "ht_tab t ! i = us @ ps @ vs"
    and "\<forall>e\<in>set qs. in_bucket (ht_tab_size t) i e \<and> entry_ok valid canon hsh e"
    and "distinct (map (key_of canon) (A @ qs @ B))"
    and "A = concat (take i (ht_tab t)) @ us" and "B = vs @ concat (drop (Suc i) (ht_tab t))"
    and "n = length (A @ qs @ B)"
  shows "ok (t\<lparr>ht_tab := (ht_tab t)[i := us @ qs @ vs], ht_nelem := n, ht_log := w\<rparr>)"
    and "ht_map canon (t\<lparr>ht_tab := (ht_tab t)[i := us @ qs @ vs], ht_nelem := n, ht_log := w\<rparr>)
           = ents_map canon (A @ qs @ B)"
    and "concat (ht_tab t) = A @ ps @ B"
proof -
  have b: "buckets_ok (ht_tab_size t) (ht_tab t)" using assms(1) by (simp add: ht_ok_def)
  have c: "concat ((ht_tab t)[i := us @ qs @ vs]) = A @ qs @ B"
    using concat_upd_at [OF assms(2)] assms(6,7) by simp
  show c0: "concat (ht_tab t) = A @ ps @ B"
    using concat_at [OF assms(2)] assms(3,6,7) by simp
  have "\<forall>e\<in>set (us @ ps @ vs). in_bucket (ht_tab_size t) i e"
    using b assms(2,3) by (auto simp: buckets_ok_def)
  then have "\<forall>e\<in>set (us @ qs @ vs). in_bucket (ht_tab_size t) i e" using assms(4) by auto
  then have "buckets_ok (ht_tab_size t) ((ht_tab t)[i := us @ qs @ vs])" by (rule buckets_upd [OF b])
  moreover have "\<forall>e\<in>set (A @ ps @ B). entry_ok valid canon hsh e"
    using assms(1) unfolding ht_ok_def c0 by simp
  then have "\<forall>e\<in>set (A @ qs @ B). entry_ok valid canon hsh e" using assms(4) by auto
  ultimately show "ok (t\<lparr>ht_tab := (ht_tab t)[i := us @ qs @ vs], ht_nelem := n, ht_log := w\<rparr>)"
    using assms(1,5,8) unfolding ht_ok_def by (simp add: c del: set_append)
  show "ht_map canon (t\<lparr>ht_tab := (ht_tab t)[i := us @ qs @ vs], ht_nelem := n, ht_log := w\<rparr>)
           = ents_map canon (A @ qs @ B)"
    by (simp add: ht_map_def c)
qed

lemma del_entry_upd:
  "(del_entry p t)\<lparr>ht_tab := tab\<rparr>
     = t\<lparr>ht_tab := tab, ht_nelem := ht_nelem t, ht_log := ht_log (del_entry p t)\<rparr>"
  "(del_entry p t)\<lparr>ht_tab := tab, ht_nelem := n\<rparr>
     = t\<lparr>ht_tab := tab, ht_nelem := n, ht_log := ht_log (del_entry p t)\<rparr>"
  by (simp_all add: del_entry_def)

lemma insert_ok:
  fixes t :: "('k, 'v) hashtable" and v :: "'v option"
  assumes "ok t" and "valid k" and "canon k \<notin> key_of canon ` set (concat (ht_tab t))"
  defines "i \<equiv> unat (hsh (canon k)) mod ht_tab_size t"
  defines "t' \<equiv> t\<lparr>ht_tab := (ht_tab t)
            [i := \<lparr>he_hash_key = hsh (canon k), he_key = k, he_value = v\<rparr> # ht_tab t ! i],
          ht_nelem := ht_nelem t + 1\<rparr>"
  shows "ok t' \<and> ht_map canon t' = (ht_map canon t)(canon k \<mapsto> v)"
proof -
  define e :: "('k, 'v) ht_entry" where "e = \<lparr>he_hash_key = hsh (canon k), he_key = k, he_value = v\<rparr>"
  let ?A = "concat (take i (ht_tab t))" and ?B = "ht_tab t ! i @ concat (drop (Suc i) (ht_tab t))"
  have ke: "key_of canon e = canon k" "he_value e = v" by (simp_all add: e_def key_of_def)
  have i: "i < length (ht_tab t)" using assms by (simp add: ht_ok_def buckets_ok_def i_def)
  have t': "t' = t\<lparr>ht_tab := (ht_tab t)[i := [] @ [e] @ ht_tab t ! i],
               ht_nelem := length (?A @ [e] @ ?B), ht_log := ht_log t\<rparr>"
    using assms(1) concat_at [OF i] by (simp add: t'_def e_def ht_ok_def)
  have c: "concat (ht_tab t) = ?A @ ?B" using concat_at [OF i] by simp
  have d: "distinct (map (key_of canon) (?A @ e # ?B))"
    using assms(1,3) ke unfolding ht_ok_def c by auto
  have n: "\<forall>x\<in>set [e]. in_bucket (ht_tab_size t) i x \<and> entry_ok valid canon hsh x"
    using assms(2) by (simp add: e_def in_bucket_def entry_ok_def key_of_def i_def)
  have "ok t'" "ht_map canon t' = ents_map canon (?A @ [e] @ ?B)"
    unfolding t'
    by (rule chain_upd [OF assms(1) i, of "[]" "[]" "ht_tab t ! i" "[e]" ?A ?B, OF _ n _ _ _ refl];
        use d in simp)+
  then show ?thesis
    using ents_map_middle(1) [OF d] ke c by (simp add: ht_map_def)
qed

lemma put_ok:
  assumes "ok t" and "valid k"
  shows "\<exists>rc t'. zc_hashtable_put ok1 ok2 t k v = Inr (rc, t') \<and> ok t'
     \<and> ht_map canon t' = (if rc = 0 then (ht_map canon t)(canon k \<mapsto> v) else ht_map canon t)
     \<and> (ok1 \<and> ok2 \<longrightarrow> rc = 0)"
  using assms
proof (cases rule: find_cases)
  case none
  define u where "u = (if ht_nelem t * 10 > ht_tab_size t * 13
                         then zc_hashtable_rehash ok1 t else (0, t))"
  obtain rc s where u': "u = (rc, s)" by (cases u)
  have s: "ok s \<and> ht_map canon s = ht_map canon t \<and> (ok1 \<longrightarrow> rc = 0)"
  proof (cases "ht_nelem t * 10 > ht_tab_size t * 13")
    case True
    obtain rc' t' where "zc_hashtable_rehash ok1 t = (rc', t')" "ok t'"
        "ht_map canon t' = ht_map canon t" "rc' = (if ok1 then 0 else -1)"
      by (rule rehash_ok [OF assms(1), of ok1])
    then show ?thesis using u' True by (auto simp add: u_def)
  qed (use assms(1) u' in \<open>simp add: u_def\<close>)
  have fresh: "canon k \<notin> key_of canon ` set (concat (ht_tab s))"
    using none(2) s unfolding ht_map_def by (metis ents_map_none)
  let ?i = "unat (hsh (canon k)) mod ht_tab_size s"
  have i: "?i < length (ht_tab s)" "ht_index s (hsh (canon k)) = Inr ?i" "ht_hash s = hash"
    using s by (auto simp: ht_ok_def buckets_ok_def ht_index_def)
  have "zc_hashtable_put ok1 ok2 t k v = (if rc \<noteq> 0 \<or> \<not> ok2 then Inr (-1, s) else
      Inr (0, s\<lparr>ht_tab := (ht_tab s)
            [?i := \<lparr>he_hash_key = hsh (canon k), he_key = k, he_value = v\<rparr> # ht_tab s ! ?i],
          ht_nelem := ht_nelem s + 1\<rparr>))"
    using none(1) u' i hash_valid [OF assms(2)]
    by (simp add: zc_hashtable_put_def u_def [symmetric] rd_nat)
  then show ?thesis
    using insert_ok [OF _ assms(2) fresh, of v] s by auto
next
  case (some us p vs)
  let ?i = "unat (hsh (canon k)) mod ht_tab_size t"
  let ?p = "p\<lparr>he_key := k, he_value := v\<rparr>"
  let ?A = "concat (take ?i (ht_tab t)) @ us" and ?B = "vs @ concat (drop (Suc ?i) (ht_tab t))"
  have kp: "key_of canon ?p = canon k" by (simp add: key_of_def)
  have c: "concat (ht_tab t) = ?A @ [p] @ ?B"
    using concat_at [OF some(4)] some(2) by simp
  have d: "distinct (map (key_of canon) (?A @ [p] @ ?B))" using assms(1) unfolding ht_ok_def c by simp
  then have d': "distinct (map (key_of canon) (?A @ [?p] @ ?B))" using some(3) kp by simp
  have e: "\<forall>e\<in>set [?p]. in_bucket (ht_tab_size t) ?i e \<and> entry_ok valid canon hsh e"
    using assms(2) some(5) kp by (simp add: in_bucket_def entry_ok_def)
  define t' where "t' = t\<lparr>ht_tab := (ht_tab t)[?i := us @ [?p] @ vs],
      ht_nelem := length (?A @ [?p] @ ?B), ht_log := ht_log (del_entry p t)\<rparr>"
  have "ok t'" "ht_map canon t' = ents_map canon (?A @ [?p] @ ?B)"
    unfolding t'_def
    by (rule chain_upd [OF assms(1) some(4), of us "[p]" vs "[?p]" ?A ?B, OF _ e d' refl refl refl],
        simp add: some(2))+
  moreover have "zc_hashtable_put ok1 ok2 t k v = Inr (0, t')"
    using some(1) assms(1) c
    by (simp add: zc_hashtable_put_def del_entry_upd t'_def ht_ok_def)
  ultimately show ?thesis
    using ents_map_middle(1) [of canon ?A ?p ?B] ents_map_middle(1) [of canon ?A p ?B] d d' kp some(3) c
    by (simp add: ht_map_def)
qed

lemma remove_ok:
  assumes "ok t" and "valid k"
  shows "\<exists>t'. zc_hashtable_remove (Some t) (Some k) = Inr (Some t') \<and> ok t'
     \<and> ht_map canon t' = (ht_map canon t)(canon k := None)"
  using assms
proof (cases rule: find_cases)
  case none
  then have "ht_map canon t (canon k) = None" unfolding ht_map_def by (simp add: ents_map_none)
  then show ?thesis using none(1) assms(1) by (simp add: zc_hashtable_remove_def fun_upd_idem)
next
  case (some us p vs)
  let ?i = "unat (hsh (canon k)) mod ht_tab_size t"
  let ?A = "concat (take ?i (ht_tab t)) @ us" and ?B = "vs @ concat (drop (Suc ?i) (ht_tab t))"
  have c: "concat (ht_tab t) = ?A @ p # ?B"
    using concat_at [OF some(4)] some(2) by simp
  have d: "distinct (map (key_of canon) (?A @ p # ?B))" using assms(1) unfolding ht_ok_def c by simp
  define t' where "t' = t\<lparr>ht_tab := (ht_tab t)[?i := us @ [] @ vs],
      ht_nelem := length (?A @ [] @ ?B), ht_log := ht_log (del_entry p t)\<rparr>"
  have "ok t'" "ht_map canon t' = ents_map canon (?A @ [] @ ?B)"
    unfolding t'_def
    by (rule chain_upd [OF assms(1) some(4), of us "[p]" vs "[]" ?A ?B, OF _ _ _ refl refl refl];
        use some(2) d in simp)+
  moreover have "zc_hashtable_remove (Some t) (Some k) = Inr (Some t')"
    using some(1,5,6) assms(1) c
    by (simp add: zc_hashtable_remove_def del_entry_upd t'_def ht_ok_def)
  ultimately show ?thesis
    using ents_map_middle(2) [OF d] some(3) c by (simp add: ht_map_def)
qed

end

section \<open>Walking the table\<close>

lemma ht_first_None: "ht_first bs j = None \<Longrightarrow> concat bs = []"
  by (induction bs j rule: ht_first.induct) (auto split: if_splits)

lemma ht_first_Some:
  "ht_first bs j = Some e \<Longrightarrow>
   \<exists>m. e = (j + m, 0) \<and> m < length bs \<and> bs ! m \<noteq> [] \<and> concat bs = bs ! m @ concat (drop (Suc m) bs)"
proof (induction bs j rule: ht_first.induct)
  case (2 b bs j)
  show ?case
  proof (cases "b = []")
    case True
    then obtain m where "e = (j + 1 + m, 0) \<and> m < length bs \<and> bs ! m \<noteq> []
        \<and> concat bs = bs ! m @ concat (drop (Suc m) bs)"
      using 2 by auto
    then show ?thesis using True by (intro exI [of _ "Suc m"]) auto
  next
    case False
    then show ?thesis using 2 by (intro exI [of _ 0]) auto
  qed
qed simp

lemma foreach_rest:
  assumes "buckets_ok (ht_tab_size t) (ht_tab t)"
    and first: "\<And>b n. p = Some (b, n) \<Longrightarrow> b < ht_tab_size t \<and> n < length (ht_tab t ! b)
      \<and> es = drop n (ht_tab t ! b) @ concat (drop (Suc b) (ht_tab t))"
    and "p = None \<Longrightarrow> es = []"
  shows "ht_foreach t p = Some es"
  using first assms(3)
proof (induction es arbitrary: p)
  case Nil
  then have "p = None" by (cases p) auto
  then show ?case by (subst ht_foreach.simps) simp
next
  case (Cons x es)
  then obtain b n where p: "p = Some (b, n)" by (cases p) auto
  let ?c = "ht_tab t ! b"
  have b: "b < ht_tab_size t" "n < length ?c"
    and es: "x # es = drop n ?c @ concat (drop (Suc b) (ht_tab t))"
    using Cons.prems(1) [OF p] by auto
  have x: "x = ?c ! n" and es': "es = drop (Suc n) ?c @ concat (drop (Suc b) (ht_tab t))"
    using es b(2) by (auto simp: Cons_nth_drop_Suc [symmetric])
  have len: "length (ht_tab t) = ht_tab_size t" using assms(1) by (simp add: buckets_ok_def)
  have "unat (he_hash_key (?c ! n)) mod ht_tab_size t = b"
    using assms(1) b nth_mem [OF b(2)] by (auto simp: buckets_ok_def in_bucket_def)
  then have nx: "zc_hashtable_next t (b, n) =
      (if n + 1 < length ?c then Some (b, n + 1) else ht_first (drop (b + 1) (ht_tab t)) (b + 1))"
    by (simp add: zc_hashtable_next_def Let_def len [symmetric])
  have "ht_foreach t (zc_hashtable_next t (b, n)) = Some es"
  proof (cases "n + 1 < length ?c")
    case True
    then show ?thesis using nx b es' by (intro Cons.IH) auto
  next
    case False
    then have es'': "es = concat (drop (Suc b) (ht_tab t))" using es' by simp
    show ?thesis
    proof (rule Cons.IH)
      assume "zc_hashtable_next t (b, n) = None"
      then show "es = []" using nx False es'' ht_first_None [of _ "b + 1"] by simp
    next
      fix b' n' assume "zc_hashtable_next t (b, n) = Some (b', n')"
      then obtain m where "b' = b + 1 + m" "n' = 0" "m < length (drop (b + 1) (ht_tab t))"
          "drop (b + 1) (ht_tab t) ! m \<noteq> []"
          "concat (drop (b + 1) (ht_tab t))
             = drop (b + 1) (ht_tab t) ! m @ concat (drop (Suc m) (drop (b + 1) (ht_tab t)))"
        using nx False ht_first_Some [of "drop (b + 1) (ht_tab t)" "b + 1" "(b', n')"] by auto
      then show "b' < ht_tab_size t \<and> n' < length (ht_tab t ! b')
          \<and> es = drop n' (ht_tab t ! b') @ concat (drop (Suc b') (ht_tab t))"
        using len es'' by (auto simp: add.commute)
    qed
  qed
  then show ?case by (subst ht_foreach.simps) (simp add: p x)
qed

lemma foreach_all:
  assumes "buckets_ok (ht_tab_size t) (ht_tab t)"
  shows "zc_hashtable_foreach t = Some (concat (ht_tab t))"
  unfolding zc_hashtable_foreach_def zc_hashtable_begin_def
proof (rule foreach_rest [OF assms])
  have len: "length (ht_tab t) = ht_tab_size t" using assms by (simp add: buckets_ok_def)
  show "ht_first (take (ht_tab_size t) (ht_tab t)) 0 = None \<Longrightarrow> concat (ht_tab t) = []"
    using ht_first_None [of "ht_tab t" 0] len by simp
  fix b n assume "ht_first (take (ht_tab_size t) (ht_tab t)) 0 = Some (b, n)"
  then show "b < ht_tab_size t \<and> n < length (ht_tab t ! b)
      \<and> concat (ht_tab t) = drop n (ht_tab t ! b) @ concat (drop (Suc b) (ht_tab t))"
    using ht_first_Some [of "ht_tab t" 0 "(b, n)"] len by auto
qed

section \<open>String tables\<close>

text \<open>The tables of the machine use the string callbacks; a key is a terminated string.\<close>

definition terminated :: "u8 list \<Rightarrow> bool" where
  "terminated s \<longleftrightarrow> 0 \<in> set s"

definition str_hsh :: "u8 list \<Rightarrow> u32" where
  "str_hsh s = fold (\<lambda>c h. 33 * h + scast c) s 5381"

lemma str_hash_loop_fold:
  "0 \<notin> set s \<Longrightarrow> str_hash_loop (s @ 0 # r) h = Inr (fold (\<lambda>c h. 33 * h + scast c) s h)"
  by (induction s arbitrary: h) (simp_all add: push_bit_eq_mult algebra_simps)

lemma str_equal_iff:
  "0 \<notin> set a \<Longrightarrow> 0 \<notin> set b \<Longrightarrow> zc_hashtable_str_equal (a @ 0 # r) (b @ 0 # s) = Inr (a = b)"
proof (induction a arbitrary: b)
  case Nil
  then show ?case by (cases b) auto
next
  case (Cons x a)
  then show ?case by (cases b) auto
qed

interpretation strkeys: key_ops zc_hashtable_str_hash zc_hashtable_str_equal terminated cstr str_hsh
proof
  fix k :: "u8 list" assume "terminated k"
  then obtain r where "k = cstr k @ 0 # r" using cstr_split by (auto simp: terminated_def)
  then show "zc_hashtable_str_hash k = Inr (str_hsh (cstr k))"
    unfolding zc_hashtable_str_hash_def str_hsh_def
    using str_hash_loop_fold [OF cstr_nonzero [of k]] by metis
next
  fix a b :: "u8 list" assume "terminated a" "terminated b"
  then obtain r s where "a = cstr a @ 0 # r" "b = cstr b @ 0 # s"
    using cstr_split by (auto simp: terminated_def) metis
  then show "zc_hashtable_str_equal a b = Inr (cstr a = cstr b)"
    using str_equal_iff [OF cstr_nonzero [of a] cstr_nonzero [of b]] by metis
qed

text \<open>A table with string callbacks that is well-formed.\<close>

definition str_ht_ok :: "(u8 list, 'v) hashtable \<Rightarrow> bool" where
  "str_ht_ok = ht_ok zc_hashtable_str_hash zc_hashtable_str_equal terminated cstr str_hsh"

text \<open>The operations when every allocation succeeds, as state transformers.\<close>

definition ht_put :: "'k \<Rightarrow> 'v option \<Rightarrow> ('k, 'v) hashtable \<Rightarrow> ('k, 'v) hashtable" where
  "ht_put k v t = (case zc_hashtable_put True True t k v of Inr (rc, t') \<Rightarrow> t' | Inl _ \<Rightarrow> t)"

definition ht_remove :: "'k \<Rightarrow> ('k, 'v) hashtable \<Rightarrow> ('k, 'v) hashtable" where
  "ht_remove k t = (case zc_hashtable_remove (Some t) (Some k) of Inr (Some t') \<Rightarrow> t' | _ \<Rightarrow> t)"

interpretation strtab: map_ops str_ht_ok "ht_map cstr" terminated cstr ht_put ht_remove
proof
  fix t :: "(u8 list, 'v) hashtable" and k v
  assume "str_ht_ok t" "terminated k"
  then obtain t' where "zc_hashtable_put True True t k v = Inr (0, t')" "str_ht_ok t'"
      "ht_map cstr t' = (ht_map cstr t)(cstr k \<mapsto> v)"
    using strkeys.put_ok [of t k True True v] unfolding str_ht_ok_def by auto
  then show "str_ht_ok (ht_put k v t)" "ht_map cstr (ht_put k v t) = (ht_map cstr t)(cstr k \<mapsto> v)"
    by (simp_all add: ht_put_def)
next
  fix t :: "(u8 list, 'v) hashtable" and k
  assume "str_ht_ok t" "terminated k"
  then obtain t' where "zc_hashtable_remove (Some t) (Some k) = Inr (Some t')" "str_ht_ok t'"
      "ht_map cstr t' = (ht_map cstr t)(cstr k := None)"
    using strkeys.remove_ok [of t k] unfolding str_ht_ok_def by auto
  then show "str_ht_ok (ht_remove k t)" "ht_map cstr (ht_remove k t) = (ht_map cstr t)(cstr k := None)"
    by (simp_all add: ht_remove_def)
qed

lemma str_ht_new:
  assumes "0 < n"
  shows "\<exists>t. zc_hashtable_new True True n zc_hashtable_str_hash zc_hashtable_str_equal kd vd = Some t
     \<and> str_ht_ok t \<and> ht_map cstr t = Map.empty"
  using assms
  by (auto simp: zc_hashtable_new_def str_ht_ok_def ht_ok_def buckets_empty ht_map_def)

lemma str_get_ok:
  "str_ht_ok t \<Longrightarrow> terminated k \<Longrightarrow>
   zc_hashtable_get t k = Inr (case ht_map cstr t (cstr k) of Some v \<Rightarrow> v | None \<Rightarrow> None)"
  using strkeys.get_ok [of t k] by (simp add: str_ht_ok_def)

section \<open>Properties\<close>

text \<open>A table of one bucket with two keys, for the witnesses.\<close>

definition demo_ht :: "(u8 list, nat) hashtable" where
  "demo_ht = ht_put [97, 98, 0] (Some 2) (ht_put [97, 0] (Some 1)
     \<lparr>ht_nelem = 0, ht_tab = [[]], ht_tab_size = 1, ht_hash = zc_hashtable_str_hash,
      ht_equal = zc_hashtable_str_equal, ht_key_del = True, ht_value_del = True, ht_log = []\<rparr>)"

lemma demo_ht:
  "str_ht_ok demo_ht" "ht_map cstr demo_ht = [[97] \<mapsto> Some 1, [97, 98] \<mapsto> Some 2]"
proof -
  define t0 :: "(u8 list, nat) hashtable" where "t0 = \<lparr>ht_nelem = 0, ht_tab = [[]], ht_tab_size = 1,
      ht_hash = zc_hashtable_str_hash, ht_equal = zc_hashtable_str_equal, ht_key_del = True,
      ht_value_del = True, ht_log = []\<rparr>"
  have t0: "str_ht_ok t0" "ht_map cstr t0 = Map.empty"
    using str_ht_new [of 1 True True] by (auto simp: t0_def zc_hashtable_new_def)
  have v: "terminated [97, 0]" "terminated [97, 98, 0]" by (simp_all add: terminated_def)
  have c: "cstr [97, 0] = [97]" "cstr [97, 98, 0] = [97, 98]" by (simp_all add: cstr_def)
  have 1: "str_ht_ok (ht_put [97, 0] (Some 1) t0)"
    and 2: "ht_map cstr (ht_put [97, 0] (Some 1) t0) = [[97] \<mapsto> Some 1]"
    using strtab.put_ok [OF t0(1) v(1)] strtab.put_lookup [OF t0(1) v(1)] t0(2) c by auto
  then show "str_ht_ok demo_ht" "ht_map cstr demo_ht = [[97] \<mapsto> Some 1, [97, 98] \<mapsto> Some 2]"
    using strtab.put_ok [OF 1 v(2)] strtab.put_lookup [OF 1 v(2), of "Some 2"] c
    unfolding demo_ht_def t0_def [symmetric] by simp_all
qed

lemma demo_get: "zc_hashtable_get demo_ht [97, 0] = Inr (Some 1)"
  using str_get_ok [OF demo_ht(1), of "[97, 0]"] by (simp add: demo_ht terminated_def cstr_def)

text \<open>
  C22. \<open>zc_hashtable_put\<close> under string keys: when it reports success, a lookup of any string finds
  the new value for the key just put and what it found before for every other; when it fails, no
  lookup changes; it fails only when an allocation does. Growing the table makes no difference.
\<close>

theorem zc_hashtable_put_get:
  assumes "str_ht_ok t" and "terminated k" and "terminated k'"
  shows "\<exists>rc t'. zc_hashtable_put ok1 ok2 t k v = Inr (rc, t')
     \<and> zc_hashtable_get t' k' = (if rc = 0 \<and> cstr k' = cstr k then Inr v else zc_hashtable_get t k')
     \<and> (ok1 \<and> ok2 \<longrightarrow> rc = 0)"
proof -
  obtain rc t' where p: "zc_hashtable_put ok1 ok2 t k v = Inr (rc, t')" "str_ht_ok t'"
      "ht_map cstr t' = (if rc = 0 then (ht_map cstr t)(cstr k \<mapsto> v) else ht_map cstr t)"
      "ok1 \<and> ok2 \<longrightarrow> rc = 0"
    using strkeys.put_ok [of t k ok1 ok2 v] assms unfolding str_ht_ok_def by auto
  then show ?thesis by (simp add: str_get_ok assms)
qed

theorem zc_hashtable_put_get_witness:
  "\<exists>rc t'. zc_hashtable_put True True demo_ht [98, 0] (Some 3) = Inr (rc, t')
     \<and> zc_hashtable_get t' [97, 0] = Inr (Some 1)"
  using zc_hashtable_put_get [OF demo_ht(1), of "[98, 0]" "[97, 0]" True True "Some 3"]
  by (auto simp: terminated_def cstr_def demo_get)

text \<open>
  C23. \<open>zc_hashtable_remove\<close> takes one key out of the table and leaves every other lookup as it was.
\<close>

theorem zc_hashtable_remove_get:
  assumes "str_ht_ok t" and "terminated k" and "terminated k'"
  shows "\<exists>t'. zc_hashtable_remove (Some t) (Some k) = Inr (Some t')
     \<and> zc_hashtable_get t' k' = (if cstr k' = cstr k then Inr None else zc_hashtable_get t k')"
proof -
  obtain t' where p: "zc_hashtable_remove (Some t) (Some k) = Inr (Some t')" "str_ht_ok t'"
      "ht_map cstr t' = (ht_map cstr t)(cstr k := None)"
    using strkeys.remove_ok [of t k] assms unfolding str_ht_ok_def by auto
  then show ?thesis by (simp add: str_get_ok assms)
qed

theorem zc_hashtable_remove_get_witness:
  "\<exists>t'. zc_hashtable_remove (Some demo_ht) (Some [97, 98, 0]) = Inr (Some t')
     \<and> zc_hashtable_get t' [97, 0] = Inr (Some 1)"
  using zc_hashtable_remove_get [OF demo_ht(1), of "[97, 98, 0]" "[97, 0]"]
  by (auto simp: terminated_def cstr_def demo_get)

text \<open>
  C24. A \<open>zc_hashtable_foreach\<close> loop ends and visits every entry of the table exactly once: the
  values it sees under each key are those the lookup finds.
\<close>

theorem zc_hashtable_foreach_visits:
  assumes "str_ht_ok t"
  shows "\<exists>ps. zc_hashtable_foreach t = Some ps \<and> length ps = ht_nelem t
     \<and> distinct (map (\<lambda>p. cstr (he_key p)) ps)
     \<and> (\<forall>p\<in>set ps. zc_hashtable_get t (he_key p) = Inr (he_value p))"
proof -
  let ?ps = "concat (ht_tab t)"
  have ok: "buckets_ok (ht_tab_size t) (ht_tab t)" "ht_nelem t = length ?ps"
      "\<forall>e\<in>set ?ps. entry_ok terminated cstr str_hsh e" "distinct (map (key_of cstr) ?ps)"
    using assms unfolding str_ht_ok_def ht_ok_def by auto
  have "zc_hashtable_get t (he_key p) = Inr (he_value p)" if p: "p \<in> set ?ps" for p
  proof -
    have "ht_map cstr t (cstr (he_key p)) = Some (he_value p)"
      using look_iff [OF ok(4), of "cstr (he_key p)" "he_value p"] p
      unfolding ht_map_def by (auto simp: key_of_def)
    moreover have "terminated (he_key p)" using ok(3) p unfolding entry_ok_def by blast
    ultimately show ?thesis by (simp add: str_get_ok [OF assms])
  qed
  moreover have "distinct (map (\<lambda>p. cstr (he_key p)) ?ps)"
    using ok(4) unfolding key_of_def .
  ultimately show ?thesis using foreach_all [OF ok(1)] ok(2) by simp
qed

theorem zc_hashtable_foreach_visits_witness:
  "\<exists>ps. zc_hashtable_foreach demo_ht = Some ps \<and> length ps = ht_nelem demo_ht"
  using zc_hashtable_foreach_visits [OF demo_ht(1)] by blast

definition load_ok :: "('k, 'v) hashtable \<Rightarrow> bool" where
  "load_ok t \<longleftrightarrow> 0 < ht_tab_size t \<and> ht_nelem t * 10 \<le> ht_tab_size t * 13 + 10"

text \<open>
  The load of the table stays bounded: as long as its allocations succeed,
  \<open>zc_hashtable_put\<close> keeps the number of entries below 1.3 times the number of buckets plus one,
  and each entry it adds is counted.
\<close>

theorem zc_hashtable_put_load:
  assumes "load_ok t" and "zc_hashtable_put True True t k v = Inr (rc, t')"
  shows "load_ok t' \<and> ht_nelem t' \<in> {ht_nelem t, ht_nelem t + 1}"
proof -
  obtain i r where "ht_find t k = Inr (i, r)"
    using assms(2) by (cases "ht_find t k") (auto simp: zc_hashtable_put_def)
  then show ?thesis
    using assms
    by (cases "ht_nelem t * 10 > ht_tab_size t * 13"; cases r)
      (auto simp: zc_hashtable_put_def zc_hashtable_rehash_def Let_def bindR_Inr_iff load_ok_def
        del_entry_def)
qed

theorem zc_hashtable_put_load_example:
  "\<exists>t. zc_hashtable_new True True 1 zc_hashtable_str_hash zc_hashtable_str_equal False False = Some t
     \<and> load_ok (ht_put [97, 0] (Some 1) (t :: (u8 list, nat) hashtable))"
proof -
  obtain t :: "(u8 list, nat) hashtable" where
    n: "zc_hashtable_new True True 1 zc_hashtable_str_hash zc_hashtable_str_equal False False = Some t"
    and ok: "str_ht_ok t"
    using str_ht_new [of 1 False False] by auto
  have l: "load_ok t" using n by (auto simp: zc_hashtable_new_def load_ok_def)
  obtain t' where p: "zc_hashtable_put True True t [97, 0] (Some 1) = Inr (0, t')"
    using zc_hashtable_put_get [OF ok, of "[97, 0]" "[97, 0]" True True "Some 1"]
    by (auto simp: terminated_def)
  then have "load_ok (ht_put [97, 0] (Some 1) t)"
    using zc_hashtable_put_load [OF l p] by (simp add: ht_put_def)
  then show ?thesis using n by blast
qed

end
