(* ===== verification/Fm_Free.thy ===== *)
theory Fm_Free
  imports Fm_Hashtable
begin

text \<open>
  The release functions of the program on the blocks the allocator has given out: \<open>fmBytes_free\<close>
  and \<open>fmBytes_array_free\<close> of \<open>common/fm_Bytes.c\<close>, \<open>kfree_skb\<close> of \<open>common/fm_skbuff.c\<close>,
  \<open>func_array_free\<close> and \<open>byte_code_set_free\<close> of \<open>tsm_bcloader.c\<close>, and the value callback of the
  variable tables of \<open>tsm_ccb.c\<close>. The other theories identify a structure with its content; here
  a structure is its address, and the heap says which blocks are allocated and what the pointer
  fields hold. Releasing a block twice has no defined result, following a released pointer is a
  wild access.
\<close>

section \<open>The heap of blocks\<close>

type_synonym baddr = nat

record blocks =
  bk_live :: "baddr set"
  bk_buf :: "baddr \<Rightarrow> baddr"
  bk_skb_buff :: "baddr \<Rightarrow> baddr"
  bk_skb_agent :: "baddr \<Rightarrow> baddr"
  bk_array :: "baddr \<Rightarrow> baddr"
  bk_items :: "baddr \<Rightarrow> baddr list"
  bk_bc :: "baddr \<Rightarrow> baddr"
  bk_name :: "baddr \<Rightarrow> baddr"

definition free_block :: "baddr \<Rightarrow> blocks \<Rightarrow> blocks res" where
  "free_block a h =
     (if a = 0 then Inr h
      else if a \<in> bk_live h then Inr (h\<lparr>bk_live := bk_live h - {a}\<rparr>)
      else Inl Undefined)"

text \<open>A pointer field of the structure at \<open>a\<close>.\<close>

definition field_of :: "(blocks \<Rightarrow> baddr \<Rightarrow> 'a) \<Rightarrow> baddr \<Rightarrow> blocks \<Rightarrow> 'a res" where
  "field_of f a h =
     (if a = 0 then Inl Null_Deref else if a \<in> bk_live h then Inr (f h a) else Inl Wild_Pointer)"

definition free_if :: "baddr \<Rightarrow> blocks \<Rightarrow> blocks res" where
  "free_if a h = (if a \<noteq> 0 then free_block a h else Inr h)"

section \<open>Operations\<close>

definition fmBytes_free :: "baddr \<Rightarrow> blocks \<Rightarrow> blocks res" where
  "fmBytes_free p h =
     bindR (if p = 0 then Inr 0 else field_of bk_buf p h) (\<lambda>buf.
     bindR (free_if buf h) (\<lambda>h. free_if p h))"

definition fmBytes_array_free :: "baddr \<Rightarrow> blocks \<Rightarrow> blocks res" where
  "fmBytes_array_free fba h =
     (if fba = 0 then Inr h
      else bindR (field_of bk_array fba h) (\<lambda>arr.
           bindR (if bk_items h fba = [] then Inr [] else field_of (\<lambda>h a. bk_items h fba) arr h) (\<lambda>items.
           bindR (foldR fmBytes_free items h) (\<lambda>h. free_block fba h))))"

definition kfree_skb :: "baddr \<Rightarrow> blocks \<Rightarrow> blocks res" where
  "kfree_skb skb h =
     (if skb = 0 then Inr h
      else bindR (field_of bk_skb_buff skb h) (\<lambda>buff.
           bindR (if buff \<noteq> 0
                  then bindR (free_block buff h) (\<lambda>h. Inr (h\<lparr>bk_skb_buff := (bk_skb_buff h)(skb := 0)\<rparr>))
                  else Inr h) (\<lambda>h.
           bindR (field_of bk_skb_agent skb h) (\<lambda>agent.
           bindR (if agent \<noteq> 0 then fmBytes_free agent h else Inr h) (\<lambda>h. free_block skb h)))))"

text \<open>The array of names is released only when it is NULL.\<close>

definition func_array_free :: "baddr \<Rightarrow> blocks \<Rightarrow> blocks res" where
  "func_array_free p h =
     (if p = 0 then Inr h
      else bindR (field_of bk_array p h) (\<lambda>arr.
           bindR (if bk_items h p = [] then Inr [] else field_of (\<lambda>h a. bk_items h p) arr h) (\<lambda>items.
           bindR (foldR free_if items h) (\<lambda>h.
           bindR (if arr = 0 then free_block arr h else Inr h) (\<lambda>h. free_block p h)))))"

definition byte_code_set_free :: "baddr \<Rightarrow> blocks \<Rightarrow> blocks res" where
  "byte_code_set_free bc_set h =
     (if bc_set = 0 then Inr h
      else bindR (field_of bk_bc bc_set h) (\<lambda>bc.
           bindR (free_if bc h) (\<lambda>h. free_block bc_set h)))"

definition ccb_bre_entry_value_del :: "baddr option \<Rightarrow> blocks \<Rightarrow> blocks res" where
  "ccb_bre_entry_value_del v h = fmBytes_free (case v of None \<Rightarrow> 0 | Some p \<Rightarrow> p) h"

text \<open>The callbacks a table of variables runs; its keys are not released.\<close>

definition run_event :: "('k, baddr) ht_event \<Rightarrow> blocks \<Rightarrow> blocks res" where
  "run_event e h = (case e of Key_Del k \<Rightarrow> Inr h | Value_Del v \<Rightarrow> ccb_bre_entry_value_del v h)"

definition release_vars :: "('k, baddr) hashtable option \<Rightarrow> blocks \<Rightarrow> blocks res" where
  "release_vars t h = foldR run_event (zc_hashtable_del t) h"

section \<open>Lemmas\<close>

text \<open>The blocks of a structure, and what it is to release them: each once, and nothing else.\<close>

definition fb_blocks :: "blocks \<Rightarrow> baddr \<Rightarrow> baddr list" where
  "fb_blocks h p = (if p = 0 then [] else p # (if bk_buf h p = 0 then [] else [bk_buf h p]))"

definition held :: "blocks \<Rightarrow> baddr list \<Rightarrow> bool" where
  "held h as \<longleftrightarrow> distinct as \<and> 0 \<notin> set as \<and> set as \<subseteq> bk_live h"

definition drop_blocks :: "baddr list \<Rightarrow> blocks \<Rightarrow> blocks" where
  "drop_blocks as h = h\<lparr>bk_live := bk_live h - set as\<rparr>"

lemma drop_blocks_simps [simp]:
  "drop_blocks [] h = h" "drop_blocks as (drop_blocks bs h) = drop_blocks (bs @ as) h"
  "bk_live (drop_blocks as h) = bk_live h - set as" "bk_buf (drop_blocks as h) = bk_buf h"
  "bk_array (drop_blocks as h) = bk_array h" "bk_items (drop_blocks as h) = bk_items h"
  "bk_skb_buff (drop_blocks as h) = bk_skb_buff h" "bk_skb_agent (drop_blocks as h) = bk_skb_agent h"
  "fb_blocks (drop_blocks as h) p = fb_blocks h p"
  by (simp_all add: drop_blocks_def fb_blocks_def Diff_eq Int_assoc)

lemma drop_blocks_set: "set as = set bs \<Longrightarrow> drop_blocks as h = drop_blocks bs h"
  by (simp add: drop_blocks_def)

lemma held_append: "held h (as @ bs) \<longleftrightarrow> held h as \<and> held (drop_blocks as h) bs"
  by (auto simp: held_def)

lemma held_Nil [simp]: "held h []"
  by (simp add: held_def)

lemma held_Cons: "held h (a # as) \<longleftrightarrow> a \<noteq> 0 \<and> a \<in> bk_live h \<and> held (drop_blocks [a] h) as"
  by (auto simp: held_def)

lemma free_block_ok: "held h [a] \<Longrightarrow> free_block a h = Inr (drop_blocks [a] h)"
  by (simp add: held_def free_block_def drop_blocks_def)

lemma fmBytes_free_ok:
  assumes "held h (fb_blocks h p)"
  shows "fmBytes_free p h = Inr (drop_blocks (fb_blocks h p) h)"
proof (cases "p = 0")
  case False
  let ?b = "bk_buf h p"
  have p: "p \<in> bk_live h" using assms False by (simp add: held_def fb_blocks_def)
  show ?thesis
  proof (cases "?b = 0")
    case True
    then show ?thesis using False p
      by (simp add: fmBytes_free_def fb_blocks_def field_of_def free_if_def free_block_def drop_blocks_def)
  next
    case nz: False
    then have b: "?b \<in> bk_live h" "?b \<noteq> p" using assms False by (simp_all add: held_def fb_blocks_def)
    have "fmBytes_free p h = Inr (drop_blocks [?b, p] h)"
      using False p nz b
      by (simp add: fmBytes_free_def field_of_def free_if_def free_block_def drop_blocks_def Diff_insert2 [symmetric])
    then show ?thesis using False nz drop_blocks_set [of "[?b, p]" "[p, ?b]" h]
      by (auto simp: fb_blocks_def)
  qed
qed (simp add: fmBytes_free_def fb_blocks_def free_if_def)

lemma fb_blocks_cong: "bk_buf g = bk_buf h \<Longrightarrow> fb_blocks g p = fb_blocks h p"
  by (simp add: fb_blocks_def)

lemma fold_release:
  assumes "\<And>a g. held g (bs a) \<Longrightarrow> bk_buf g = bk_buf h \<Longrightarrow> f a g = Inr (drop_blocks (bs a) g)"
  shows "held g (concat (map bs as)) \<Longrightarrow> bk_buf g = bk_buf h \<Longrightarrow>
    foldR f as g = Inr (drop_blocks (concat (map bs as)) g)"
  by (induction as arbitrary: g) (simp_all add: held_append assms)

lemma fold_fmBytes_free:
  "held h (concat (map (fb_blocks h) ps)) \<Longrightarrow>
   foldR fmBytes_free ps h = Inr (drop_blocks (concat (map (fb_blocks h) ps)) h)"
  by (rule fold_release [where h = h and bs = "fb_blocks h"])
    (metis fmBytes_free_ok fb_blocks_cong, simp_all)

lemma del_log:
  "ht_value_del t \<Longrightarrow> \<not> ht_key_del t \<Longrightarrow>
   ht_log (fold del_entry es t) = ht_log t @ map (\<lambda>p. Value_Del (he_value p)) es"
  by (induction es arbitrary: t) (simp_all add: del_entry_def)

text \<open>The addresses of the variables of a table.\<close>

definition ptr_of :: "baddr option \<Rightarrow> baddr" where
  "ptr_of v = (case v of None \<Rightarrow> 0 | Some p \<Rightarrow> p)"

definition var_ptrs :: "('k, baddr) hashtable \<Rightarrow> baddr list" where
  "var_ptrs t = map (\<lambda>e. ptr_of (he_value e)) (ht_entries t)"

lemma run_events_values:
  "foldR run_event (map (\<lambda>e. Value_Del (he_value e)) es) h
     = foldR fmBytes_free (map (\<lambda>e. ptr_of (he_value e)) es) h"
  by (induction es arbitrary: h)
    (simp_all add: run_event_def ccb_bre_entry_value_del_def ptr_of_def bindR_def split: sum.splits)

lemma release_vars_eq:
  assumes "ht_value_del t" and "\<not> ht_key_del t" and "ht_log t = []"
  shows "release_vars (Some t) h = foldR fmBytes_free (var_ptrs t) h"
  by (simp add: release_vars_def zc_hashtable_del_def del_log [OF assms(1,2)] assms(3)
      run_events_values var_ptrs_def)

lemma var_ptrs_map:
  assumes "str_ht_ok t"
  shows "set (concat (map (fb_blocks h) (var_ptrs t)))
    = (\<Union>p\<in>{p. \<exists>k. ht_map cstr t k = Some (Some p)}. set (fb_blocks h p))"
proof -
  have e: "ht_entries t = concat (ht_tab t)" and d: "distinct (map (key_of cstr) (concat (ht_tab t)))"
    using assms ht_entries_ok [of t] by (auto simp: str_ht_ok_def ht_ok_def)
  have m: "ht_map cstr t k = Some v \<longleftrightarrow> (\<exists>e\<in>set (ht_entries t). key_of cstr e = k \<and> he_value e = v)" for k v
    using d unfolding e ht_map_def ents_map_def
    by (subst map_of_eq_Some_iff) (auto simp: comp_def)
  have z: "fb_blocks h 0 = []" by (simp add: fb_blocks_def)
  show ?thesis
    unfolding m by (auto simp: var_ptrs_def ptr_of_def z split: option.splits) fastforce+
qed

text \<open>A packet: its data, the copy of the name of its agent, and the structure.\<close>

lemma kfree_skb_frees:
  assumes "held h (bk_skb_buff h skb # fb_blocks h (bk_skb_agent h skb) @ [skb])"
  shows "\<exists>h'. kfree_skb skb h = Inr h'
    \<and> bk_live h' = bk_live h - {skb, bk_skb_buff h skb} - set (fb_blocks h (bk_skb_agent h skb))"
proof -
  let ?buff = "bk_skb_buff h skb" and ?ag = "bk_skb_agent h skb"
  define g where "g = (drop_blocks [?buff] h)\<lparr>bk_skb_buff := (bk_skb_buff h)(skb := 0)\<rparr>"
  have gl: "bk_live g = bk_live h - {?buff}" "bk_skb_agent g = bk_skb_agent h" "fb_blocks g = fb_blocks h"
    by (simp_all add: g_def drop_blocks_def fb_blocks_def fun_eq_iff)
  have l: "?buff \<noteq> 0" "?buff \<in> bk_live h" "?buff \<noteq> skb" "skb \<noteq> 0" "skb \<in> bk_live h"
      and b: "held g (fb_blocks g ?ag)" "held (drop_blocks (fb_blocks g ?ag) g) [skb]"
    using assms by (auto simp: held_def gl)
  have "fmBytes_free ?ag g = Inr (drop_blocks (fb_blocks g ?ag) g)" by (rule fmBytes_free_ok [OF b(1)])
  moreover have "?ag = 0 \<Longrightarrow> drop_blocks (fb_blocks g ?ag) g = g" by (simp add: fb_blocks_def)
  ultimately have "kfree_skb skb h = Inr (drop_blocks [skb] (drop_blocks (fb_blocks g ?ag) g))"
    using l free_block_ok [OF b(2)]
    by (cases "?ag = 0")
      (simp_all add: kfree_skb_def field_of_def free_block_def gl g_def [symmetric, unfolded drop_blocks_def, simplified])
  then show ?thesis by (auto simp: gl)
qed

section \<open>Properties\<close>

text \<open>
  \<open>fmBytes_array_free\<close> releases every buffer of the array and the structure, each block once; the
  block of pointers stays allocated.
\<close>

theorem fmBytes_array_free_leaks:
  assumes "held h (bk_array h fba # concat (map (fb_blocks h) (bk_items h fba)) @ [fba])"
  shows "\<exists>h'. fmBytes_array_free fba h = Inr h'
    \<and> bk_live h' = bk_live h - insert fba (set (concat (map (fb_blocks h) (bk_items h fba))))
    \<and> bk_array h fba \<in> bk_live h'"
proof -
  let ?bs = "concat (map (fb_blocks h) (bk_items h fba))"
  have l: "bk_array h fba \<noteq> 0" "bk_array h fba \<in> bk_live h" "bk_array h fba \<notin> set ?bs"
      "bk_array h fba \<noteq> fba" "fba \<noteq> 0" "fba \<in> bk_live h" and b: "held h ?bs" "held (drop_blocks ?bs h) [fba]"
    using assms by (auto simp: held_def)
  have "fmBytes_array_free fba h = Inr (drop_blocks [fba] (drop_blocks ?bs h))"
    using l fold_fmBytes_free [OF b(1)] free_block_ok [OF b(2)]
    by (cases "bk_items h fba") (simp_all add: fmBytes_array_free_def field_of_def)
  then show ?thesis using l by auto
qed

definition demo_blocks :: blocks where
  "demo_blocks = \<lparr>bk_live = {1, 2, 3, 4, 5, 6, 9}, bk_buf = (\<lambda>a. 0)(3 := 4, 5 := 6),
     bk_skb_buff = (\<lambda>a. 0)(1 := 2), bk_skb_agent = (\<lambda>a. 0)(1 := 3),
     bk_array = (\<lambda>a. 0)(1 := 2), bk_items = (\<lambda>a. [])(1 := [3, 5]), bk_bc = (\<lambda>a. 0), bk_name = (\<lambda>a. 0)\<rparr>"

theorem fmBytes_array_free_leaks_example:
  "\<exists>h'. fmBytes_array_free 1 demo_blocks = Inr h' \<and> bk_live h' = {2, 9}"
  using fmBytes_array_free_leaks [of demo_blocks 1]
  by (auto simp: demo_blocks_def held_def fb_blocks_def)

text \<open>
  Releasing a packet gives back its block of data, the copy of its agent's name and the
  structure, each exactly once, and no other block.
\<close>

theorem kfree_skb_releases:
  assumes "held h (bk_skb_buff h skb # fb_blocks h (bk_skb_agent h skb) @ [skb])"
  shows "\<exists>h'. kfree_skb skb h = Inr h'
    \<and> bk_live h' = bk_live h - {skb, bk_skb_buff h skb} - set (fb_blocks h (bk_skb_agent h skb))"
  by (rule kfree_skb_frees [OF assms])

theorem kfree_skb_releases_example:
  "\<exists>h'. kfree_skb 1 demo_blocks = Inr h' \<and> bk_live h' = {5, 6, 9}"
  using kfree_skb_releases [of demo_blocks 1]
  by (auto simp: demo_blocks_def held_def fb_blocks_def)

text \<open>
  C29. Deleting the table of variables of a session releases the buffer and the structure of every
  variable exactly once, and nothing else, whatever the table has grown to and whichever
  variables are NULL.
\<close>

theorem release_vars_once:
  assumes "str_ht_ok t" and "ht_value_del t" and "\<not> ht_key_del t" and "ht_log t = []"
    and "held h (concat (map (fb_blocks h) (var_ptrs t)))"
  shows "\<exists>h'. release_vars (Some t) h = Inr h'
    \<and> bk_live h' = bk_live h - (\<Union>p\<in>{p. \<exists>k. ht_map cstr t k = Some (Some p)}. set (fb_blocks h p))"
  using fold_fmBytes_free [OF assms(5)] release_vars_eq [OF assms(2-4)] var_ptrs_map [OF assms(1), of h]
  by simp

text \<open>A table with two variables, one of them NULL.\<close>

definition demo_vars :: "(u8 list, baddr) hashtable" where
  "demo_vars = \<lparr>ht_nelem = 2, ht_tab = [[], [],
       [\<lparr>he_hash_key = 177670, he_key = [97, 0], he_value = Some 3\<rparr>],
       [\<lparr>he_hash_key = 177671, he_key = [98, 0], he_value = None\<rparr>]],
     ht_tab_size = 4, ht_hash = zc_hashtable_str_hash, ht_equal = zc_hashtable_str_equal,
     ht_key_del = False, ht_value_del = True, ht_log = []\<rparr>"

lemma demo_vars: "str_ht_ok demo_vars"
proof -
  have four: "(\<forall>i<4. P i) \<longleftrightarrow> P 0 \<and> P (Suc 0) \<and> P (Suc (Suc 0)) \<and> P (Suc (Suc (Suc 0)))" for P :: "nat \<Rightarrow> bool"
    using All_less_Suc [of "Suc (Suc (Suc 0))" P] by (auto simp: less_Suc_eq eval_nat_numeral)
  have hash: "str_hsh [97] = 177670" "str_hsh [98] = 177671" by (simp_all add: str_hsh_def)
  have "buckets_ok 4 (ht_tab demo_vars)"
    unfolding buckets_ok_def four by (simp add: demo_vars_def in_bucket_def)
  then show ?thesis
    by (simp add: demo_vars_def str_ht_ok_def ht_ok_def entry_ok_def key_of_def terminated_def cstr_def hash)
qed

theorem release_vars_once_witness:
  "\<exists>h'. release_vars (Some demo_vars) demo_blocks = Inr h' \<and> bk_live h' = {1, 2, 5, 6, 9}"
proof -
  have v: "var_ptrs demo_vars = [3, 0]"
    by (simp add: var_ptrs_def ptr_of_def ht_entries_def demo_vars_def)
  have mm: "ht_map cstr demo_vars k = (if k = [97] then Some (Some 3) else if k = [98] then Some None else None)" for k
    by (simp add: ht_map_def demo_vars_def key_of_def cstr_def)
  have e: "ht_map cstr demo_vars [97] = Some (Some 3)" by (simp add: mm)
  have u: "ht_map cstr demo_vars k = Some (Some p) \<Longrightarrow> p = 3" for k p by (simp add: mm split: if_splits)
  have m: "{p. \<exists>k. ht_map cstr demo_vars k = Some (Some p)} = {3}"
    using e u by blast
  have "\<exists>h'. release_vars (Some demo_vars) demo_blocks = Inr h' \<and> bk_live h' = bk_live demo_blocks
      - (\<Union>p\<in>{p. \<exists>k. ht_map cstr demo_vars k = Some (Some p)}. set (fb_blocks demo_blocks p))"
    by (rule release_vars_once [OF demo_vars])
      (simp_all add: v, simp_all add: demo_vars_def demo_blocks_def held_def fb_blocks_def)
  then show ?thesis unfolding m by (auto simp: demo_blocks_def fb_blocks_def)
qed

text \<open>
  The list of names of a library is released with its array of pointers left allocated: the test
  for NULL is the wrong way round.
\<close>

theorem func_array_free_leaks:
  assumes "held h (bk_array h p # bk_items h p @ [p])"
  shows "\<exists>h'. func_array_free p h = Inr h' \<and> bk_live h' = bk_live h - insert p (set (bk_items h p))
    \<and> bk_array h p \<in> bk_live h'"
proof -
  let ?xs = "bk_items h p"
  have l: "bk_array h p \<noteq> 0" "bk_array h p \<in> bk_live h" "bk_array h p \<notin> set ?xs"
      "bk_array h p \<noteq> p" "p \<noteq> 0" "p \<in> bk_live h" and b: "held h ?xs" "held (drop_blocks ?xs h) [p]"
    using assms by (auto simp: held_def)
  have "foldR free_if ?xs h = Inr (drop_blocks (concat (map (\<lambda>a. [a]) ?xs)) h)"
    by (rule fold_release [where h = h and bs = "\<lambda>a. [a]"])
      (use b(1) in \<open>simp_all add: free_if_def free_block_ok held_def\<close>)
  then have "func_array_free p h = Inr (drop_blocks [p] (drop_blocks ?xs h))"
    using l free_block_ok [OF b(2)]
    by (cases ?xs) (simp_all add: func_array_free_def field_of_def)
  then show ?thesis using l by auto
qed

theorem func_array_free_leaks_example:
  "\<exists>h'. func_array_free 1 demo_blocks = Inr h' \<and> bk_live h' = {2, 4, 6, 9}"
  using func_array_free_leaks [of demo_blocks 1] by (auto simp: demo_blocks_def held_def)


end
