(* ===== verification/Fm_Alloc.thy ===== *)
theory Fm_Alloc
  imports Fm_Free
begin

text \<open>
  The allocating functions of the program on the heap of blocks of \<open>Fm_Free\<close>: \<open>common/fm_Mem.c\<close>,
  \<open>fmBytes_alloc\<close> and \<open>fmBytes_array_alloc\<close> of \<open>common/fm_Bytes.c\<close>, \<open>alloc_skb\<close> of
  \<open>common/fm_skbuff.c\<close>, \<open>func_array_alloc\<close> and \<open>byte_code_set_alloc\<close> of \<open>tsm_bcloader.c\<close>, with
  every failed allocation. The other theories model what these functions put into a structure;
  here it is which blocks they take and give back, next to the functions that release them.

  The allocator of the C library is a parameter, \<open>mal\<close> for \<open>malloc\<close> and \<open>cal\<close> for \<open>calloc\<close>: from the
  heap and the size it gives the address of a new block, or 0. The theorems assume of it that a
  new block is none of those that are allocated, and they hold for every pattern of failures. The
  memory of \<open>malloc\<close> holds what it held before.
\<close>

section \<open>Blocks from the allocator\<close>

type_synonym malloc_fn = "blocks \<Rightarrow> int \<Rightarrow> baddr"
type_synonym calloc_fn = "blocks \<Rightarrow> int \<Rightarrow> int \<Rightarrow> baddr"

definition fm_malloc :: "malloc_fn \<Rightarrow> int \<Rightarrow> blocks \<Rightarrow> baddr \<times> blocks" where
  "fm_malloc mal sz h =
     (let a = mal h sz in (a, if a = 0 then h else h\<lparr>bk_live := insert a (bk_live h)\<rparr>))"

definition fm_calloc :: "calloc_fn \<Rightarrow> int \<Rightarrow> int \<Rightarrow> blocks \<Rightarrow> baddr \<times> blocks" where
  "fm_calloc cal n sz h =
     (let a = cal h n sz in
      (a, if a = 0 then h
          else \<lparr>bk_live = insert a (bk_live h), bk_buf = (bk_buf h)(a := 0), bk_skb_buff = (bk_skb_buff h)(a := 0),
                bk_skb_agent = (bk_skb_agent h)(a := 0), bk_array = (bk_array h)(a := 0),
                bk_items = (bk_items h)(a := []), bk_bc = (bk_bc h)(a := 0), bk_name = (bk_name h)(a := 0)\<rparr>))"

text \<open>Sizes of the structures with four byte pointers.\<close>

definition sizeof_fmBytes :: int where "sizeof_fmBytes = 12"
definition sizeof_fmBytes_array :: int where "sizeof_fmBytes_array = 12"
definition sizeof_sk_buff :: int where "sizeof_sk_buff = 72"
definition sizeof_func_array :: int where "sizeof_func_array = 16"
definition sizeof_bc_set :: int where "sizeof_bc_set = 24"
definition sizeof_ptr :: int where "sizeof_ptr = 4"

section \<open>Structures\<close>

definition fmBytes_alloc_blk :: "calloc_fn \<Rightarrow> int \<Rightarrow> blocks \<Rightarrow> (baddr \<times> blocks) res" where
  "fmBytes_alloc_blk cal sz h =
     (case fm_calloc cal 1 sizeof_fmBytes h of (p, h) \<Rightarrow>
      if p = 0 then Inr (0, h)
      else case fm_calloc cal sz 1 h of (buf, h) \<Rightarrow>
      if buf = 0 then bindR (free_block p h) (\<lambda>h. Inr (0, h))
      else Inr (p, h\<lparr>bk_buf := (bk_buf h)(p := buf)\<rparr>))"

definition fmBytes_array_alloc_blk :: "calloc_fn \<Rightarrow> int \<Rightarrow> blocks \<Rightarrow> (baddr \<times> blocks) res" where
  "fmBytes_array_alloc_blk cal sz h =
     (case fm_calloc cal 1 sizeof_fmBytes_array h of (p, h) \<Rightarrow>
      if p = 0 then Inr (0, h)
      else case fm_calloc cal sz sizeof_ptr h of (arr, h) \<Rightarrow>
           let h = h\<lparr>bk_array := (bk_array h)(p := arr)\<rparr> in
           if arr = 0 then bindR (free_block p h) (\<lambda>h. Inr (0, h)) else Inr (p, h))"

text \<open>
  \<open>memset\<close> clears as many bytes of the structure as a pointer has, its first field; the other
  fields keep what was there.
\<close>

definition alloc_skb_blk :: "malloc_fn \<Rightarrow> int \<Rightarrow> blocks \<Rightarrow> (baddr \<times> blocks) res" where
  "alloc_skb_blk mal sz h =
     (case fm_malloc mal sizeof_sk_buff h of (tmp, h) \<Rightarrow>
      if tmp = 0 then Inr (0, h)
      else case fm_malloc mal sz h of (buff, h) \<Rightarrow>
           let h = h\<lparr>bk_skb_buff := (bk_skb_buff h)(tmp := buff)\<rparr> in
           if buff = 0 then bindR (free_block tmp h) (\<lambda>h. Inr (0, h)) else Inr (tmp, h))"

definition func_array_alloc_blk :: "calloc_fn \<Rightarrow> int \<Rightarrow> blocks \<Rightarrow> (baddr \<times> blocks) res" where
  "func_array_alloc_blk cal array_size h =
     (case fm_calloc cal 1 sizeof_func_array h of (p, h) \<Rightarrow>
      if p = 0 then Inr (0, h)
      else case fm_calloc cal array_size sizeof_ptr h of (arr, h) \<Rightarrow>
           let h = h\<lparr>bk_array := (bk_array h)(p := arr)\<rparr> in
           if arr = 0 then bindR (free_block p h) (\<lambda>h. Inr (0, h)) else Inr (p, h))"

text \<open>\<open>len\<close> is the length of the name. When the name cannot be allocated its NULL pointer is released.\<close>

definition byte_code_set_alloc_blk :: "calloc_fn \<Rightarrow> int \<Rightarrow> int \<Rightarrow> blocks \<Rightarrow> (baddr \<times> blocks) res" where
  "byte_code_set_alloc_blk cal len cnt h =
     (case fm_calloc cal 1 sizeof_bc_set h of (bc_set, h) \<Rightarrow>
      if bc_set = 0 then Inr (0, h)
      else case fm_calloc cal (len + 1) 1 h of (name, h) \<Rightarrow>
           let h = h\<lparr>bk_name := (bk_name h)(bc_set := name)\<rparr> in
           if name = 0 then bindR (free_block name h) (\<lambda>h. Inr (0, h))
           else case fm_calloc cal cnt sizeof_ptr h of (bc, h) \<Rightarrow>
                let h = h\<lparr>bk_bc := (bk_bc h)(bc_set := bc)\<rparr> in
                if bc = 0 then bindR (free_block name h) (\<lambda>h. bindR (free_block bc_set h) (\<lambda>h. Inr (0, h)))
                else Inr (bc_set, h))"

section \<open>Lemmas\<close>

definition fresh_blocks :: "calloc_fn \<Rightarrow> bool" where
  "fresh_blocks cal \<longleftrightarrow> (\<forall>h n sz. cal h n sz = 0 \<or> cal h n sz \<notin> bk_live h)"

definition fresh_malloc :: "malloc_fn \<Rightarrow> bool" where
  "fresh_malloc mal \<longleftrightarrow> (\<forall>h sz. mal h sz = 0 \<or> mal h sz \<notin> bk_live h)"

lemma fm_calloc_cases:
  assumes "fresh_blocks cal"
  obtains (none) "fm_calloc cal n sz h = (0, h)"
    | (some) a g where "fm_calloc cal n sz h = (a, g)" "a \<noteq> 0" "a \<notin> bk_live h" "bk_live g = insert a (bk_live h)"
        "bk_buf g = (bk_buf h)(a := 0)" "bk_array g = (bk_array h)(a := 0)" "bk_items g = (bk_items h)(a := [])"
        "bk_bc g = (bk_bc h)(a := 0)" "bk_name g = (bk_name h)(a := 0)"
  using assms by (cases "cal h n sz = 0") (simp_all add: fm_calloc_def Let_def fresh_blocks_def, metis less_numeral_extra(3))

lemma fm_malloc_cases:
  assumes "fresh_malloc mal"
  obtains (none) "fm_malloc mal sz h = (0, h)"
    | (some) a where "fm_malloc mal sz h = (a, h\<lparr>bk_live := insert a (bk_live h)\<rparr>)" "a \<noteq> 0" "a \<notin> bk_live h"
  using assms by (cases "mal h sz = 0") (simp_all add: fm_malloc_def Let_def fresh_malloc_def, metis less_numeral_extra(3))

text \<open>What each function takes: nothing when it fails, its structure and its array when it does not.\<close>

lemma fmBytes_alloc_takes:
  assumes "fresh_blocks cal"
  obtains (none) g where "fmBytes_alloc_blk cal sz h = Inr (0, g)" "bk_live g = bk_live h"
    | (some) p b g where "fmBytes_alloc_blk cal sz h = Inr (p, g)" "p \<noteq> 0" "fb_blocks g p = [p, b]"
        "held g [p, b]" "{p, b} \<inter> bk_live h = {}" "bk_live g = {p, b} \<union> bk_live h"
using assms
proof (cases rule: fm_calloc_cases [where n = 1 and sz = sizeof_fmBytes and h = h])
  case none
  then show ?thesis by (intro that(1) [of h]) (simp_all add: fmBytes_alloc_blk_def)
next
  case (some p g)
  from assms show ?thesis
  proof (cases rule: fm_calloc_cases [where n = sz and sz = 1 and h = g])
    case none
    then show ?thesis using some
      by (intro that(1) [of "drop_blocks [p] g"]) (simp_all add: fmBytes_alloc_blk_def free_block_def drop_blocks_def)
  next
    case (some b g')
    then show ?thesis using \<open>fm_calloc cal 1 sizeof_fmBytes h = (p, g)\<close> \<open>p \<noteq> 0\<close> \<open>p \<notin> bk_live h\<close>
        \<open>bk_live g = insert p (bk_live h)\<close>
      by (intro that(2) [of p "g'\<lparr>bk_buf := (bk_buf g')(p := b)\<rparr>" b])
        (auto simp: fmBytes_alloc_blk_def fb_blocks_def held_def)
  qed
qed

text \<open>
  The two arrays of pointers are allocated the same way; \<open>alloc\<close> is either function.
\<close>

lemma array_alloc_takes:
  assumes "fresh_blocks cal" and "alloc \<in> {fmBytes_array_alloc_blk cal, func_array_alloc_blk cal}"
  obtains (none) g where "alloc n h = Inr (0, g)" "bk_live g = bk_live h"
    | (some) p a g where "alloc n h = Inr (p, g)" "p \<noteq> 0" "bk_array g p = a" "bk_items g p = []"
        "held g [a, p]" "{p, a} \<inter> bk_live h = {}" "bk_live g = {p, a} \<union> bk_live h"
proof -
  obtain sz where alloc: "alloc n h =
     (case fm_calloc cal 1 sz h of (p, h) \<Rightarrow>
      if p = 0 then Inr (0, h)
      else case fm_calloc cal n sizeof_ptr h of (arr, h) \<Rightarrow>
           let h = h\<lparr>bk_array := (bk_array h)(p := arr)\<rparr> in
           if arr = 0 then bindR (free_block p h) (\<lambda>h. Inr (0, h)) else Inr (p, h))"
    using assms(2) by (auto simp: fmBytes_array_alloc_blk_def func_array_alloc_blk_def)
  from assms(1) show thesis
  proof (cases rule: fm_calloc_cases [where n = 1 and sz = sz and h = h])
    case none
    then show ?thesis by (intro that(1) [of h]) (simp_all add: alloc)
  next
    case (some p g)
    note p = some
    from assms(1) show ?thesis
    proof (cases rule: fm_calloc_cases [where n = n and sz = sizeof_ptr and h = g])
      case none
      then show ?thesis using p
        by (intro that(1) [of "drop_blocks [p] (g\<lparr>bk_array := (bk_array g)(p := 0)\<rparr>)"])
          (simp_all add: alloc free_block_def drop_blocks_def)
    next
      case (some a g')
      then show ?thesis using p
        by (intro that(2) [of p "g'\<lparr>bk_array := (bk_array g')(p := a)\<rparr>" a]) (auto simp: alloc held_def)
    qed
  qed
qed

lemma fmBytes_array_free_empty:
  "held g [a, p] \<Longrightarrow> bk_array g p = a \<Longrightarrow> bk_items g p = [] \<Longrightarrow> fmBytes_array_free p g = Inr (drop_blocks [p] g)"
  by (simp add: fmBytes_array_free_def field_of_def held_def free_block_def drop_blocks_def)

lemma func_array_free_empty:
  "held g [a, p] \<Longrightarrow> bk_array g p = a \<Longrightarrow> bk_items g p = [] \<Longrightarrow> func_array_free p g = Inr (drop_blocks [p] g)"
  by (simp add: func_array_free_def field_of_def held_def free_block_def drop_blocks_def)

lemma alloc_skb_takes:
  assumes "fresh_malloc mal"
  obtains (none) g where "alloc_skb_blk mal n h = Inr (0, g)" "bk_live g = bk_live h"
    | (some) p b g where "alloc_skb_blk mal n h = Inr (p, g)" "p \<noteq> 0" "bk_skb_buff g p = b"
        "bk_skb_agent g = bk_skb_agent h" "fb_blocks g = fb_blocks h"
        "held g [b, p]" "{p, b} \<inter> bk_live h = {}" "bk_live g = {p, b} \<union> bk_live h"
using assms
proof (cases rule: fm_malloc_cases [where sz = sizeof_sk_buff and h = h])
  case none
  then show ?thesis by (intro that(1) [of h]) (simp_all add: alloc_skb_blk_def)
next
  case (some p)
  note p = some
  let ?h = "h\<lparr>bk_live := insert p (bk_live h)\<rparr>"
  from assms show ?thesis
  proof (cases rule: fm_malloc_cases [where sz = n and h = ?h])
    case none
    then show ?thesis using p
      by (intro that(1) [of "drop_blocks [p] (?h\<lparr>bk_skb_buff := (bk_skb_buff h)(p := 0)\<rparr>)"])
        (simp_all add: alloc_skb_blk_def free_block_def drop_blocks_def)
  next
    case (some b)
    then show ?thesis using p
      by (intro that(2) [of p "h\<lparr>bk_live := insert b (insert p (bk_live h)), bk_skb_buff := (bk_skb_buff h)(p := b)\<rparr>" b])
        (auto simp: alloc_skb_blk_def held_def fb_blocks_def fun_eq_iff)
  qed
qed

section \<open>Properties\<close>

text \<open>
  C18. A byte buffer is given back as it was taken: for every size and every allocator, whichever of
  its two allocations fails, allocating a buffer and releasing the result leaves exactly the
  blocks allocated that were allocated before.
\<close>

theorem fmBytes_alloc_free:
  assumes "fresh_blocks cal"
  shows "\<exists>p g h'. fmBytes_alloc_blk cal n h = Inr (p, g) \<and> fmBytes_free p g = Inr h' \<and> bk_live h' = bk_live h"
using assms
proof (cases rule: fmBytes_alloc_takes [where sz = n and h = h])
  case (none g)
  then show ?thesis by (simp add: fmBytes_free_def free_if_def)
next
  case (some p b g)
  then have "fmBytes_free p g = Inr (drop_blocks [p, b] g)" using fmBytes_free_ok [of g p] by simp
  then show ?thesis using some by (intro exI [of _ p] exI [of _ g] exI [of _ "drop_blocks [p, b] g"]) auto
qed

text \<open>An allocator with five blocks.\<close>

definition demo_new :: "blocks \<Rightarrow> baddr" where
  "demo_new h = (case find (\<lambda>a. a \<notin> bk_live h) [101, 102, 103, 104, 105] of None \<Rightarrow> 0 | Some a \<Rightarrow> a)"

definition demo_cal :: calloc_fn where "demo_cal h n sz = demo_new h"
definition demo_mal :: malloc_fn where "demo_mal h sz = demo_new h"

lemma demo_fresh: "fresh_blocks demo_cal" "fresh_malloc demo_mal"
proof -
  have "demo_new h = 0 \<or> demo_new h \<notin> bk_live h" for h by (simp add: demo_new_def)
  then show "fresh_blocks demo_cal" "fresh_malloc demo_mal"
    by (simp_all add: fresh_blocks_def fresh_malloc_def demo_cal_def demo_mal_def)
qed

theorem fmBytes_alloc_free_witness:
  "\<exists>g h'. fmBytes_alloc_blk demo_cal 16 demo_blocks = Inr (101, g) \<and> bk_live g = {101, 102, 1, 2, 3, 4, 5, 6, 9}
     \<and> fmBytes_free 101 g = Inr h' \<and> bk_live h' = {1, 2, 3, 4, 5, 6, 9}"
proof -
  obtain g where g: "fmBytes_alloc_blk demo_cal 16 demo_blocks = Inr (101, g)" "bk_live g = {101, 102, 1, 2, 3, 4, 5, 6, 9}"
    by (simp add: fmBytes_alloc_blk_def fm_calloc_def demo_cal_def demo_new_def demo_blocks_def insert_commute)
  have "bk_live demo_blocks = {1, 2, 3, 4, 5, 6, 9}" by (simp add: demo_blocks_def)
  then show ?thesis using fmBytes_alloc_free [OF demo_fresh(1), of 16 demo_blocks] g by auto
qed

text \<open>What releasing a packet that returns has released: the packet, and its agent's name if it had one.\<close>

lemma free_block_live:
  "free_block a h = Inr g \<Longrightarrow> (a \<noteq> 0 \<longrightarrow> a \<in> bk_live h \<and> a \<notin> bk_live g) \<and> bk_live g \<subseteq> bk_live h
     \<and> bk_skb_agent g = bk_skb_agent h"
  by (auto simp: free_block_def split: if_splits)

lemma fmBytes_free_live:
  "fmBytes_free a h = Inr g \<Longrightarrow> a \<noteq> 0 \<Longrightarrow> a \<in> bk_live h \<and> a \<notin> bk_live g \<and> bk_live g \<subseteq> bk_live h"
  by (auto simp: fmBytes_free_def bindR_Inr_iff field_of_def free_if_def free_block_def split: if_splits)

lemma kfree_skb_live:
  assumes "kfree_skb p h = Inr g" and "p \<noteq> 0" and "bk_skb_agent h p \<noteq> 0"
  shows "bk_skb_agent h p \<in> bk_live h - {p} \<and> bk_skb_agent h p \<notin> bk_live g"
proof -
  obtain h1 h2 where k: "bk_skb_agent h1 = bk_skb_agent h" "bk_live h1 \<subseteq> bk_live h"
      "fmBytes_free (bk_skb_agent h p) h1 = Inr h2" "free_block p h2 = Inr g"
  proof -
    have p: "p \<in> bk_live h" using assms(1,2) by (simp add: kfree_skb_def field_of_def split: if_splits)
    define rest where "rest h1 = bindR (field_of bk_skb_agent p h1) (\<lambda>agent.
      bindR (if agent \<noteq> 0 then fmBytes_free agent h1 else Inr h1) (\<lambda>h. free_block p h))" for h1
    have "\<exists>h1. bk_skb_agent h1 = bk_skb_agent h \<and> bk_live h1 \<subseteq> bk_live h \<and> rest h1 = Inr g"
    proof (cases "bk_skb_buff h p = 0")
      case True
      then show ?thesis using assms(1,2) p by (intro exI [of _ h]) (simp add: kfree_skb_def field_of_def rest_def)
    next
      case False
      then obtain h0 where "free_block (bk_skb_buff h p) h = Inr h0"
          and "rest (h0\<lparr>bk_skb_buff := (bk_skb_buff h0)(p := 0)\<rparr>) = Inr g"
        using assms(1,2) p by (auto simp: kfree_skb_def field_of_def rest_def bindR_Inr_iff)
      with free_block_live [of "bk_skb_buff h p" h h0] show ?thesis
        by (intro exI [of _ "h0\<lparr>bk_skb_buff := (bk_skb_buff h0)(p := 0)\<rparr>"]) simp
    qed
    then obtain h1 where h1: "bk_skb_agent h1 = bk_skb_agent h" "bk_live h1 \<subseteq> bk_live h" "rest h1 = Inr g" by blast
    then obtain h2 where "fmBytes_free (bk_skb_agent h p) h1 = Inr h2" "free_block p h2 = Inr g"
      using assms(2,3) by (auto simp: rest_def field_of_def bindR_Inr_iff split: if_splits)
    then show thesis using h1 by (intro that)
  qed
  from fmBytes_free_live [OF k(3) assms(3)] free_block_live [OF k(4)] k(2) assms(2)
  show ?thesis by auto
qed

text \<open>
  C17. A packet is given back as it was taken when, and only when, the memory of its structure held a
  zero in the place of the agent's name, which \<open>alloc_skb\<close> does not clear: for every other
  word in that place, allocating and releasing a packet either faults or takes a block of
  the program with it. Where the word is the address of a buffer of the program, that buffer is
  released too; where it is the address of no block, \<open>kfree_skb\<close> follows it.
\<close>

theorem alloc_skb_free:
  assumes "fresh_malloc mal"
  shows "\<exists>p g. alloc_skb_blk mal n h = Inr (p, g) \<and>
    (let a = bk_skb_agent h p in
     if p = 0 then bk_live g = bk_live h
     else ((\<exists>h'. kfree_skb p g = Inr h' \<and> bk_live h' = bk_live h) \<longleftrightarrow> a = 0)
       \<and> (a \<noteq> 0 \<and> held h (fb_blocks h a) \<longrightarrow>
            (\<exists>h'. kfree_skb p g = Inr h' \<and> bk_live h' = bk_live h - set (fb_blocks h a)))
       \<and> (a \<noteq> 0 \<and> a \<notin> bk_live g \<longrightarrow> kfree_skb p g = Inl Wild_Pointer))"
using assms
proof (cases rule: alloc_skb_takes [where n = n and h = h])
  case (some p b g)
  let ?a = "bk_skb_agent h p"
  have free: "\<exists>h'. kfree_skb p g = Inr h' \<and> bk_live h' = bk_live h - set (fb_blocks h ?a)"
    if "held h (fb_blocks h ?a)"
  proof -
    have "held g (bk_skb_buff g p # fb_blocks g (bk_skb_agent g p) @ [p])"
      using some that by (auto simp: held_def)
    from kfree_skb_frees [OF this] some show ?thesis by auto
  qed
  have zero: "\<exists>h'. kfree_skb p g = Inr h' \<and> bk_live h' = bk_live h" if "?a = 0"
    using free that by (auto simp: fb_blocks_def held_def)
  have other: "bk_live h' \<noteq> bk_live h" if "?a \<noteq> 0" "kfree_skb p g = Inr h'" for h'
  proof
    assume l: "bk_live h' = bk_live h"
    from kfree_skb_live [OF that(2)] some that(1)
    have a: "?a \<in> bk_live g - {p}" "?a \<notin> bk_live h'" by auto
    then have "?a = b" using some l by auto
    moreover have "kfree_skb p g = Inl Wild_Pointer" if "?a = b"
      using some that by (simp add: kfree_skb_def field_of_def free_block_def held_def fmBytes_free_def)
    ultimately show False using that(2) by simp
  qed
  have "kfree_skb p g = Inl Wild_Pointer" if "?a \<noteq> 0" "?a \<notin> bk_live g"
    using some that by (simp add: kfree_skb_def field_of_def free_block_def held_def fmBytes_free_def)
  with some(1,2) zero other free show ?thesis
    by (intro exI [of _ p] exI [of _ g]) (simp add: Let_def, blast)
qed (simp add: Let_def)

text \<open>The memory of the new packet holds the address of a buffer in use; the buffer is lost with it.\<close>

theorem alloc_skb_free_witness:
  "\<exists>p g h'. alloc_skb_blk demo_mal 16 (demo_blocks\<lparr>bk_skb_agent := \<lambda>a. 3\<rparr>) = Inr (p, g)
     \<and> kfree_skb p g = Inr h' \<and> bk_live h' = {1, 2, 5, 6, 9}"
proof -
  let ?h = "demo_blocks\<lparr>bk_skb_agent := \<lambda>a. 3\<rparr>"
  have b: "fb_blocks ?h 3 = [3, 4]" "held ?h [3, 4]" "bk_live ?h - {3, 4} = {1, 2, 5, 6, 9}"
    by (auto simp: fb_blocks_def demo_blocks_def held_def)
  obtain g where g: "alloc_skb_blk demo_mal 16 ?h = Inr (101, g)"
    by (simp add: alloc_skb_blk_def fm_malloc_def demo_mal_def demo_new_def demo_blocks_def Let_def)
  obtain p g' where pg: "alloc_skb_blk demo_mal 16 ?h = Inr (p, g')"
    and r: "let a = bk_skb_agent ?h p in
     if p = 0 then bk_live g' = bk_live ?h
     else ((\<exists>h'. kfree_skb p g' = Inr h' \<and> bk_live h' = bk_live ?h) \<longleftrightarrow> a = 0)
       \<and> (a \<noteq> 0 \<and> held ?h (fb_blocks ?h a) \<longrightarrow>
            (\<exists>h'. kfree_skb p g' = Inr h' \<and> bk_live h' = bk_live ?h - set (fb_blocks ?h a)))
       \<and> (a \<noteq> 0 \<and> a \<notin> bk_live g' \<longrightarrow> kfree_skb p g' = Inl Wild_Pointer)"
    using alloc_skb_free [OF demo_fresh(2), of 16 ?h] by blast
  then show ?thesis using g b by (simp add: Let_def)
qed

text \<open>
  The set of byte codes of a library is not given back as it was taken: when its name cannot be
  allocated, its structure is lost, and releasing a set that was allocated leaves its name
  allocated. Only when the last of the three allocations fails is everything given back.
\<close>

theorem byte_code_set_leaks:
  assumes "fresh_blocks cal"
    and "fm_calloc cal 1 sizeof_bc_set h = (s, h1)" and "s \<noteq> 0"
    and "fm_calloc cal (len + 1) 1 h1 = (nm, h2)"
    and "fm_calloc cal cnt sizeof_ptr (h2\<lparr>bk_name := (bk_name h2)(s := nm)\<rparr>) = (bc, h3)"
  shows "\<exists>p g. byte_code_set_alloc_blk cal len cnt h = Inr (p, g) \<and>
    (if nm = 0 then p = 0 \<and> bk_live g = insert s (bk_live h)
     else if bc = 0 then p = 0 \<and> bk_live g = bk_live h
     else p = s \<and> (\<exists>h'. byte_code_set_free p g = Inr h' \<and> bk_live h' = insert nm (bk_live h)))"
proof -
  let ?h2 = "h2\<lparr>bk_name := (bk_name h2)(s := nm)\<rparr>"
  have s: "s \<notin> bk_live h" "bk_live h1 = insert s (bk_live h)"
    using fm_calloc_cases [OF assms(1), of 1 sizeof_bc_set h] assms(2,3) by auto
  have n: "nm = 0 \<and> h2 = h1 \<or> nm \<noteq> 0 \<and> nm \<notin> bk_live h1 \<and> bk_live h2 = insert nm (bk_live h1)"
    using fm_calloc_cases [OF assms(1), of "len + 1" 1 h1] assms(4) by auto
  have b: "bc = 0 \<and> h3 = ?h2 \<or> bc \<noteq> 0 \<and> bc \<notin> bk_live ?h2 \<and> bk_live h3 = insert bc (bk_live ?h2)"
    using fm_calloc_cases [OF assms(1), of cnt sizeof_ptr ?h2] assms(5) by auto
  let ?g = "h3\<lparr>bk_bc := (bk_bc h3)(s := bc)\<rparr>"
  have e: "byte_code_set_alloc_blk cal len cnt h =
     (if nm = 0 then Inr (0, ?h2)
      else if bc = 0 then bindR (free_block nm ?g) (\<lambda>h. bindR (free_block s h) (\<lambda>h. Inr (0, h)))
      else Inr (s, ?g))"
    using assms(3) by (simp add: byte_code_set_alloc_blk_def assms(2,4,5) Let_def free_block_def)
  consider "nm = 0" | "nm \<noteq> 0" "bc = 0" | "nm \<noteq> 0" "bc \<noteq> 0" by blast
  then show ?thesis
  proof cases
    case 1
    then show ?thesis using n s by (simp add: e)
  next
    case 2
    then have l: "bk_live ?g = {nm, s} \<union> bk_live h" "nm \<noteq> s" "nm \<notin> bk_live h" using n b s by auto
    then show ?thesis using 2 s(1) assms(3) by (simp add: e free_block_def insert_Diff_if)
  next
    case 3
    then have l: "bk_live ?g = {bc, nm, s} \<union> bk_live h" "distinct [bc, nm, s]" "bc \<notin> bk_live h" using n b s by auto
    then have "byte_code_set_free s ?g = Inr (drop_blocks [s] (drop_blocks [bc] ?g))"
      using 3 assms(3) by (simp add: byte_code_set_free_def field_of_def free_if_def free_block_def drop_blocks_def)
    then show ?thesis using 3 l s(1) by (auto simp: e)
  qed
qed

theorem byte_code_set_leaks_example:
  "\<exists>g h'. byte_code_set_alloc_blk demo_cal 8 2 demo_blocks = Inr (101, g)
     \<and> byte_code_set_free 101 g = Inr h' \<and> bk_live h' = {102, 1, 2, 3, 4, 5, 6, 9}"
proof -
  obtain s h1 where 1: "fm_calloc demo_cal 1 sizeof_bc_set demo_blocks = (s, h1)" by fastforce
  obtain nm h2 where 2: "fm_calloc demo_cal (8 + 1) 1 h1 = (nm, h2)" by fastforce
  obtain bc h3 where 3: "fm_calloc demo_cal 2 sizeof_ptr (h2\<lparr>bk_name := (bk_name h2)(s := nm)\<rparr>) = (bc, h3)" by fastforce
  have c: "a = demo_new h \<and> (demo_new h \<noteq> 0 \<longrightarrow> bk_live g = insert (demo_new h) (bk_live h))"
    if "fm_calloc demo_cal n sz h = (a, g)" for n sz h a g
    using that by (auto simp: fm_calloc_def demo_cal_def Let_def)
  have "demo_new demo_blocks = 101" by (simp add: demo_new_def demo_blocks_def)
  then have h1: "s = 101" "bk_live h1 = {101, 1, 2, 3, 4, 5, 6, 9}"
    using c [OF 1] by (simp_all add: demo_blocks_def)
  then have "demo_new h1 = 102" by (simp add: demo_new_def)
  then have h2: "nm = 102" "bk_live h2 = {102, 101, 1, 2, 3, 4, 5, 6, 9}"
    using c [OF 2] h1(2) by simp_all
  then have "demo_new (h2\<lparr>bk_name := (bk_name h2)(s := nm)\<rparr>) = 103" by (simp add: demo_new_def)
  then have h3: "bc = 103" using c [OF 3] by simp
  have d: "bk_live demo_blocks = {1, 2, 3, 4, 5, 6, 9}" by (simp add: demo_blocks_def)
  have "s \<noteq> 0" using h1 by simp
  from byte_code_set_leaks [OF demo_fresh(1) 1 this 2 3] obtain p g where
    r: "byte_code_set_alloc_blk demo_cal 8 2 demo_blocks = Inr (p, g)" and
    q: "if nm = 0 then p = 0 \<and> bk_live g = insert s (bk_live demo_blocks)
     else if bc = 0 then p = 0 \<and> bk_live g = bk_live demo_blocks
     else p = s \<and> (\<exists>h'. byte_code_set_free p g = Inr h' \<and> bk_live h' = insert nm (bk_live demo_blocks))"
    by blast
  from q have "p = 101 \<and> (\<exists>h'. byte_code_set_free p g = Inr h' \<and> bk_live h' = insert 102 (bk_live demo_blocks))"
    unfolding h1(1) h2(1) h3 by auto
  then show ?thesis using r unfolding d by blast
qed

text \<open>
  The two arrays of pointers, one of buffers and one of names, are not given back as they were
  taken either: releasing an array leaves its block of pointers allocated.
\<close>

theorem pointer_arrays_leak:
  assumes "fresh_blocks cal"
    and "(alloc, free) \<in> {(fmBytes_array_alloc_blk cal, fmBytes_array_free), (func_array_alloc_blk cal, func_array_free)}"
  shows "\<exists>p g. alloc n h = Inr (p, g) \<and>
    (if p = 0 then bk_live g = bk_live h
     else \<exists>h'. free p g = Inr h' \<and> bk_array g p \<notin> bk_live h \<and> bk_live h' = insert (bk_array g p) (bk_live h))"
proof -
  have "alloc \<in> {fmBytes_array_alloc_blk cal, func_array_alloc_blk cal}" using assms(2) by auto
  with assms(1) show ?thesis
  proof (cases rule: array_alloc_takes [where n = n and h = h])
    case (some p a g)
    then have "free p g = Inr (drop_blocks [p] g)"
      using assms(2) fmBytes_array_free_empty func_array_free_empty by auto
    moreover have "p \<noteq> a" using some(5) by (simp add: held_def)
    ultimately show ?thesis using some
      by (intro exI [of _ p] exI [of _ g]) auto
  qed auto
qed

theorem pointer_arrays_leak_example:
  "\<exists>p g. func_array_alloc_blk demo_cal 256 demo_blocks = Inr (p, g) \<and>
    (if p = 0 then bk_live g = bk_live demo_blocks
     else \<exists>h'. func_array_free p g = Inr h' \<and> bk_array g p \<notin> bk_live demo_blocks
       \<and> bk_live h' = insert (bk_array g p) (bk_live demo_blocks))"
  by (rule pointer_arrays_leak [OF demo_fresh(1)]) simp

end
