(* ===== verification/Bc_Keys.thy ===== *)
theory Bc_Keys
  imports Fm_Free
begin

text \<open>
  The keys of a session's variables as the addresses they are. \<open>zc_hashtable_put\<close> of
  \<open>common/fm_hashtable.c\<close> stores the pointer it is given; \<open>Bc_Data\<close> and \<open>Tsm_Types\<close> take a key for
  the string it points to, which is the same while that memory is neither changed nor released. The
  keys of \<open>data_set\<close> and \<open>data_reverse\<close> are parameters of the script, those of \<open>data_extract\<close> and
  \<open>data_extract_rsp\<close> are blocks of their own, none of which a byte code releases. \<open>data_concat\<close> is
  the exception: its key is the buffer of the variable that holds the name, which the
  table releases when that variable is set again. Here the table is the polymorphic one of
  \<open>Fm_Hashtable\<close> with addresses for keys, on the heap of blocks of \<open>Fm_Free\<close>: \<open>mem\<close> says which
  bytes a block holds, and the callbacks follow the addresses they are given.
\<close>

section \<open>Keys that are followed\<close>

type_synonym contents = "baddr \<Rightarrow> u8 list"
type_synonym var_table = "(baddr, baddr) hashtable"

definition string_at :: "contents \<Rightarrow> blocks \<Rightarrow> baddr \<Rightarrow> u8 list res" where
  "string_at mem h a = field_of (\<lambda>h a. mem a) a h"

definition key_hash :: "contents \<Rightarrow> blocks \<Rightarrow> baddr \<Rightarrow> u32 res" where
  "key_hash mem h a = bindR (string_at mem h a) zc_hashtable_str_hash"

definition key_equal :: "contents \<Rightarrow> blocks \<Rightarrow> baddr \<Rightarrow> baddr \<Rightarrow> bool res" where
  "key_equal mem h a b = bindR (string_at mem h a) (\<lambda>s1. bindR (string_at mem h b) (\<lambda>s2. zc_hashtable_str_equal s1 s2))"

text \<open>The table as the callbacks see it on a heap.\<close>

definition on_heap :: "contents \<Rightarrow> blocks \<Rightarrow> var_table \<Rightarrow> var_table" where
  "on_heap mem h t = t\<lparr>ht_hash := key_hash mem h, ht_equal := key_equal mem h, ht_log := []\<rparr>"

text \<open>Looking a variable up, and setting it: the value it had is released.\<close>

definition var_get :: "contents \<Rightarrow> baddr \<Rightarrow> var_table \<times> blocks \<Rightarrow> baddr option res" where
  "var_get mem key = (\<lambda>(t, h). zc_hashtable_get (on_heap mem h t) key)"

definition var_put :: "contents \<Rightarrow> baddr \<Rightarrow> baddr option \<Rightarrow> var_table \<times> blocks \<Rightarrow> (var_table \<times> blocks) res" where
  "var_put mem key data = (\<lambda>(t, h).
     bindR (zc_hashtable_put True True (on_heap mem h t) key data) (\<lambda>(rc, t).
     bindR (foldR run_event (ht_log t) h) (\<lambda>h. Inr (t, h))))"

text \<open>\<open>data_concat\<close> with the joined value \<open>des\<close> and the address of its last argument.\<close>

definition concat_store :: "contents \<Rightarrow> baddr option \<Rightarrow> baddr \<Rightarrow> var_table \<times> blocks \<Rightarrow> (var_table \<times> blocks) res" where
  "concat_store mem des arg = (\<lambda>(t, h).
     bindR (var_get mem arg (t, h)) (\<lambda>name.
     bindR (field_of bk_buf (ptr_of name) h) (\<lambda>key. var_put mem key des (t, h))))"

section \<open>Lemmas\<close>

definition live_key :: "contents \<Rightarrow> blocks \<Rightarrow> baddr \<Rightarrow> bool" where
  "live_key mem h a \<longleftrightarrow> a \<noteq> 0 \<and> a \<in> bk_live h \<and> terminated (mem a)"

interpretation ptrkeys: key_ops "key_hash mem h" "key_equal mem h" "live_key mem h" "\<lambda>a. cstr (mem a)" str_hsh
  for mem h
  by unfold_locales
    (simp_all add: live_key_def key_hash_def key_equal_def string_at_def field_of_def
      strkeys.hash_valid strkeys.equal_valid)

text \<open>What setting a key does to the entries and to the log of the callbacks.\<close>

context key_ops
begin

lemma rehash_entries:
  assumes "ok t" and "zc_hashtable_rehash True t = (rc, s)"
  shows "set (concat (ht_tab s)) = set (concat (ht_tab t)) \<and> ht_log s = ht_log t
    \<and> ht_key_del s = ht_key_del t \<and> ht_value_del s = ht_value_del t"
proof -
  define tab where "tab = fold (ht_place (2 * ht_tab_size t)) (ht_entries t) (replicate (2 * ht_tab_size t) [])"
  have b: "ht_entries t = concat (ht_tab t)" "0 < 2 * ht_tab_size t"
    using assms(1) ht_entries_ok [of t] by (simp_all add: ht_ok_def)
  have "mset (concat tab) = mset (concat (ht_tab t))"
    using place_all_ok [OF buckets_empty b(2), of "ht_entries t"] b(1) by (simp add: tab_def)
  then have "set (concat tab) = set (concat (ht_tab t))" by (rule mset_eq_setD)
  moreover have "s = t\<lparr>ht_tab := tab, ht_tab_size := 2 * ht_tab_size t\<rparr>"
    using assms(2) by (simp add: zc_hashtable_rehash_def tab_def Let_def)
  ultimately show ?thesis by simp
qed

lemma put_effect:
  fixes t :: "('k, 'v) hashtable"
  assumes "ok t" and "valid k" and "\<not> ht_key_del t" and "ht_value_del t"
  obtains t' e where "zc_hashtable_put True True t k v = Inr (0, t')" and "ok t'"
    and "ht_map canon t' = (ht_map canon t)(canon k \<mapsto> v)"
    and "e \<in> set (concat (ht_tab t'))" and "he_key e = k"
    and "\<And>x. x \<in> set (concat (ht_tab t)) \<Longrightarrow> key_of canon x \<noteq> canon k \<Longrightarrow> x \<in> set (concat (ht_tab t'))"
    and "ht_log t' = ht_log t @ (case ht_map canon t (canon k) of None \<Rightarrow> [] | Some w \<Rightarrow> [Value_Del w])"
    and "\<not> ht_key_del t'" and "ht_value_del t'"
proof -
  obtain rc t' where put: "zc_hashtable_put True True t k v = Inr (rc, t')" "ok t'"
      "ht_map canon t' = (if rc = 0 then (ht_map canon t)(canon k \<mapsto> v) else ht_map canon t)" "rc = 0"
    using put_ok [OF assms(1,2), of True True v] by blast
  from assms(1,2) show thesis
  proof (cases rule: find_cases)
    case none
    define u where "u = (if ht_nelem t * 10 > ht_tab_size t * 13 then zc_hashtable_rehash True t else (0, t))"
    obtain rc' s where u': "u = (rc', s)" by (cases u)
    have s: "set (concat (ht_tab s)) = set (concat (ht_tab t)) \<and> ht_log s = ht_log t
        \<and> ht_key_del s = ht_key_del t \<and> ht_value_del s = ht_value_del t"
      using u' rehash_entries [OF assms(1), of rc' s] by (simp add: u_def split: if_splits)
    obtain i h b where t': "t' = s\<lparr>ht_tab := (ht_tab s)
          [i := \<lparr>he_hash_key = h, he_key = k, he_value = v\<rparr> # b], ht_nelem := ht_nelem s + 1\<rparr>"
        and b: "rd (ht_tab s) (int i) = Inr b"
      using put(1,4) none(1) u' by (auto simp: zc_hashtable_put_def u_def [symmetric] bindR_Inr_iff split: if_splits)
    let ?e = "\<lparr>he_hash_key = h, he_key = k, he_value = v\<rparr>"
    have i: "i < length (ht_tab s)" "b = ht_tab s ! i" using b by (auto simp: rd_def split: if_splits)
    have "set (concat (ht_tab t')) = insert ?e (set (concat (ht_tab s)))"
      using concat_at [OF i(1)] concat_upd_at [OF i(1), of "?e # b"] i(2) by (simp add: t' del: set_concat)
    moreover have "ht_map canon t (canon k) = None" using none(2) unfolding ht_map_def by (simp add: ents_map_none)
    moreover have "ht_log t' = ht_log s" "ht_key_del t' = ht_key_del s" "ht_value_del t' = ht_value_del s"
      by (simp_all add: t')
    ultimately show thesis
      using that [of t' ?e] put(1-4) s assms(3,4) by (simp del: set_concat)
  next
    case (some us p vs)
    let ?i = "unat (hsh (canon k)) mod ht_tab_size t"
    let ?p = "p\<lparr>he_key := k, he_value := v\<rparr>"
    have t': "t' = (del_entry p t)\<lparr>ht_tab := (ht_tab t)[?i := us @ ?p # vs]\<rparr>"
      using put(1) some(1) by (simp add: zc_hashtable_put_def)
    have c: "concat (ht_tab t) = (concat (take ?i (ht_tab t)) @ us) @ p # (vs @ concat (drop (Suc ?i) (ht_tab t)))"
      using concat_at [OF some(4)] some(2) by simp
    have c': "concat (ht_tab t') = (concat (take ?i (ht_tab t)) @ us) @ ?p # (vs @ concat (drop (Suc ?i) (ht_tab t)))"
      using concat_upd_at [OF some(4)] by (simp add: t')
    have d: "distinct (map (key_of canon) (concat (ht_tab t)))" using assms(1) by (simp add: ht_ok_def)
    have m: "ht_map canon t (canon k) = Some (he_value p)"
      unfolding ht_map_def using ents_map_middle(1) d c some(3) by (metis fun_upd_same)
    have "x \<in> set (concat (ht_tab t'))" if "x \<in> set (concat (ht_tab t))" "key_of canon x \<noteq> canon k" for x
      using that some(3) unfolding c c' by auto
    moreover have "?p \<in> set (concat (ht_tab t'))" unfolding c' by simp
    moreover have "ht_log t' = ht_log t @ [Value_Del (he_value p)]" "ht_key_del t' = ht_key_del t"
        "ht_value_del t' = ht_value_del t"
      using assms(3,4) by (simp_all add: t' del_entry_def)
    ultimately show thesis using that [of t' ?p] put m assms(3,4) by simp
  qed
qed

end
text \<open>More blocks do no harm to a table; a chain with a released key before any match is followed into it.\<close>

definition table_ok :: "contents \<Rightarrow> blocks \<Rightarrow> var_table \<Rightarrow> bool" where
  "table_ok mem h t \<longleftrightarrow> ht_ok (key_hash mem h) (key_equal mem h) (live_key mem h) (\<lambda>a. cstr (mem a)) str_hsh (on_heap mem h t)
     \<and> ht_value_del t \<and> \<not> ht_key_del t"

abbreviation vars_at :: "contents \<Rightarrow> var_table \<Rightarrow> u8 list \<Rightarrow> baddr option option" where
  "vars_at mem \<equiv> ht_map (\<lambda>a. cstr (mem a))"

lemma on_heap_simps [simp]:
  "ht_tab (on_heap mem h t) = ht_tab t" "ht_map canon (on_heap mem h t) = ht_map canon t"
  "ht_log (on_heap mem h t) = []" "ht_value_del (on_heap mem h t) = ht_value_del t"
  "ht_key_del (on_heap mem h t) = ht_key_del t" "ht_tab_size (on_heap mem h t) = ht_tab_size t"
  "ht_hash (on_heap mem h t) = key_hash mem h" "ht_equal (on_heap mem h t) = key_equal mem h"
  "ht_nelem (on_heap mem h t) = ht_nelem t"
  by (simp_all add: on_heap_def ht_map_def)

lemma table_ok_more: "table_ok mem h t \<Longrightarrow> bk_live h \<subseteq> bk_live g \<Longrightarrow> table_ok mem g t"
  by (auto simp: table_ok_def ht_ok_def entry_ok_def live_key_def)

lemma table_ok_on_heap: "ht_ok (key_hash mem h) (key_equal mem h) (live_key mem h) (\<lambda>a. cstr (mem a)) str_hsh t \<Longrightarrow>
    ht_value_del t \<Longrightarrow> \<not> ht_key_del t \<Longrightarrow> table_ok mem h t"
  by (simp add: table_ok_def ht_ok_def)

lemma search_dangling:
  "\<forall>e\<in>set b. equal k (he_key e) = Inr False \<or> equal k (he_key e) = Inl Wild_Pointer \<Longrightarrow>
   \<exists>e\<in>set b. equal k (he_key e) = Inl Wild_Pointer \<Longrightarrow> ht_search equal k b = Inl Wild_Pointer"
proof (induction b)
  case (Cons x b)
  then show ?case by (cases "equal k (he_key x) = Inl Wild_Pointer") (simp_all, blast?)
qed simp

text \<open>
  A table that was in order on the heap \<open>h\<close>, on a heap \<open>g\<close> with fewer blocks: a string whose entry has
  a released key is not found any more.
\<close>

lemma get_dangling:
  assumes "table_ok mem h t" and "e \<in> set (concat (ht_tab t))" and "he_key e \<notin> bk_live g"
    and "live_key mem g c" and "cstr (mem c) = cstr (mem (he_key e))" and "bk_live g \<subseteq> bk_live h"
  shows "var_get mem c (t, g) = Inl Wild_Pointer"
proof -
  let ?can = "\<lambda>a. cstr (mem a)" and ?i = "unat (str_hsh (cstr (mem c))) mod ht_tab_size t"
  have ok: "buckets_ok (ht_tab_size t) (ht_tab t)" "0 < ht_tab_size t"
      "\<And>x. x \<in> set (concat (ht_tab t)) \<Longrightarrow> entry_ok (live_key mem h) ?can str_hsh x"
      "distinct (map (key_of ?can) (concat (ht_tab t)))"
    using assms(1) by (simp_all add: table_ok_def ht_ok_def del: set_concat)
  have i: "?i < length (ht_tab t)" using ok(1,2) by (simp add: buckets_ok_def)
  have e: "e \<in> set (ht_tab t ! ?i)"
    using bucket_home [OF ok(1) assms(2)] ok(3) [OF assms(2)] assms(5) by (simp add: entry_ok_def key_of_def)
  have mem: "x \<in> set (concat (ht_tab t))" if "x \<in> set (ht_tab t ! ?i)" for x using that nth_mem [OF i] by auto
  have eq: "key_equal mem g c (he_key x) = (if he_key x \<in> bk_live g then Inr False else Inl Wild_Pointer)"
    if x: "x \<in> set (ht_tab t ! ?i)" for x
  proof -
    have v: "live_key mem h (he_key x)" using ok(3) [OF mem [OF x]] by (simp add: entry_ok_def)
    show ?thesis
    proof (cases "he_key x \<in> bk_live g")
      case True
      then have "x \<noteq> e" using assms(3) by blast
      then have "cstr (mem (he_key x)) \<noteq> cstr (mem (he_key e))"
        using ok(4) mem [OF x] assms(2) by (auto simp: distinct_map inj_on_def key_of_def)
      moreover have "live_key mem g (he_key x)" using v True by (simp add: live_key_def)
      ultimately show ?thesis using True assms(5) ptrkeys.equal_valid [OF assms(4)] by simp
    next
      case False
      then show ?thesis using assms(4) v by (simp add: key_equal_def string_at_def field_of_def live_key_def)
    qed
  qed
  have "ht_search (key_equal mem g) c (ht_tab t ! ?i) = Inl Wild_Pointer"
    by (rule search_dangling) (use eq e assms(3) in auto)
  then show ?thesis
    using i ok(2) ptrkeys.hash_valid [OF assms(4)]
    by (simp add: var_get_def zc_hashtable_get_def ht_find_def ht_index_def rd_nat)
qed

text \<open>Setting a key that is in order.\<close>

lemma var_put_effect:
  assumes "table_ok mem h t" and "live_key mem h k"
  obtains t' e where "table_ok mem h t'" and "vars_at mem t' = (vars_at mem t)(cstr (mem k) \<mapsto> v)"
    and "e \<in> set (concat (ht_tab t'))" and "he_key e = k"
    and "\<And>x. x \<in> set (concat (ht_tab t)) \<Longrightarrow> cstr (mem (he_key x)) \<noteq> cstr (mem k) \<Longrightarrow> x \<in> set (concat (ht_tab t'))"
    and "var_put mem k v (t, h) = (case vars_at mem t (cstr (mem k)) of
           None \<Rightarrow> Inr (t', h) | Some w \<Rightarrow> bindR (fmBytes_free (ptr_of w) h) (\<lambda>h. Inr (t', h)))"
proof -
  have a: "ht_ok (key_hash mem h) (key_equal mem h) (live_key mem h) (\<lambda>a. cstr (mem a)) str_hsh (on_heap mem h t)"
      "\<not> ht_key_del (on_heap mem h t)" "ht_value_del (on_heap mem h t)"
    using assms(1) by (simp_all add: table_ok_def)
  obtain t' e where t': "zc_hashtable_put True True (on_heap mem h t) k v = Inr (0, t')" "table_ok mem h t'"
      "vars_at mem t' = (vars_at mem t)(cstr (mem k) \<mapsto> v)" "e \<in> set (concat (ht_tab t'))" "he_key e = k"
      "\<And>x. x \<in> set (concat (ht_tab t)) \<Longrightarrow> cstr (mem (he_key x)) \<noteq> cstr (mem k) \<Longrightarrow> x \<in> set (concat (ht_tab t'))"
      "ht_log t' = (case vars_at mem t (cstr (mem k)) of None \<Rightarrow> [] | Some w \<Rightarrow> [Value_Del w])"
    by (rule ptrkeys.put_effect [OF a(1) assms(2) a(2,3), of v])
      (simp add: table_ok_on_heap key_of_def del: set_concat)
  have "var_put mem k v (t, h) = (case vars_at mem t (cstr (mem k)) of
           None \<Rightarrow> Inr (t', h) | Some w \<Rightarrow> bindR (fmBytes_free (ptr_of w) h) (\<lambda>h. Inr (t', h)))"
    using t'(1,7) by (auto simp: var_put_def run_event_def ccb_bre_entry_value_del_def ptr_of_def bindR_def
        split: option.split sum.split)
  then show thesis using that [OF t'(2-6)] by blast
qed

section \<open>Properties\<close>

text \<open>
  C7. \<open>data_concat\<close> leaves a key that dies with another variable. It stores the joined value under
  the buffer of the variable \<open>arg\<close> names (\<open>p\<close>, whose string is no variable yet), and there it is
  found. When the variable \<open>arg\<close> is set again, with more blocks allocated by then, its
  value is released and the buffer with it; the entry stays in the table, and looking the
  joined value up again follows the released buffer.
\<close>

theorem concat_key_dangles:
  assumes "table_ok mem h t" and "live_key mem h arg" and "vars_at mem t (cstr (mem arg)) = Some (Some p)"
    and "held h [p, bk_buf h p]" and "terminated (mem (bk_buf h p))"
    and "vars_at mem t (cstr (mem (bk_buf h p))) = None"
    and "bk_live h \<subseteq> bk_live g" and "bk_buf g p = bk_buf h p"
    and "live_key mem g c" and "c \<notin> {p, bk_buf h p}" and "cstr (mem c) = cstr (mem (bk_buf h p))"
  shows "\<exists>t1 t2 h2. concat_store mem des arg (t, h) = Inr (t1, h) \<and> var_get mem c (t1, g) = Inr des
    \<and> var_put mem arg d (t1, g) = Inr (t2, h2) \<and> bk_live h2 = bk_live g - {p, bk_buf h p}
    \<and> var_get mem c (t2, h2) = Inl Wild_Pointer"
proof -
  let ?b = "bk_buf h p"
  have nz: "p \<noteq> 0" "p \<in> bk_live h" "?b \<noteq> 0" "?b \<in> bk_live h" "p \<noteq> ?b" using assms(4) by (auto simp: held_def)
  have b: "live_key mem h ?b" using nz assms(5) by (simp add: live_key_def)
  have name: "var_get mem arg (t, h) = Inr (Some p)"
    using ptrkeys.get_ok [of mem h "on_heap mem h t" arg] assms(1-3) by (simp add: var_get_def table_ok_def)
  obtain t1 e where t1: "table_ok mem h t1" "vars_at mem t1 = (vars_at mem t)(cstr (mem ?b) \<mapsto> des)"
      "e \<in> set (concat (ht_tab t1))" "he_key e = ?b" "var_put mem ?b des (t, h) = Inr (t1, h)"
    by (rule var_put_effect [OF assms(1) b, of des]) (simp add: assms(6))
  have store: "concat_store mem des arg (t, h) = Inr (t1, h)"
    using name t1(5) nz by (simp add: concat_store_def ptr_of_def field_of_def)
  have g: "table_ok mem g t1" by (rule table_ok_more [OF t1(1) assms(7)])
  have arg: "live_key mem g arg" using assms(2,7) by (auto simp: live_key_def)
  have found: "var_get mem c (t1, g) = Inr des"
    using ptrkeys.get_ok [of mem g "on_heap mem g t1" c] g assms(9,11) t1(2)
    by (simp add: var_get_def table_ok_def)
  have ne: "cstr (mem arg) \<noteq> cstr (mem ?b)" using assms(3,6) by auto
  have free: "fmBytes_free p g = Inr (drop_blocks [p, ?b] g)"
    using fmBytes_free_ok [of g p] assms(4,7,8) by (auto simp: fb_blocks_def held_def)
  obtain t2 where t2: "table_ok mem g t2" "e \<in> set (concat (ht_tab t2))"
      "var_put mem arg d (t1, g) = Inr (t2, drop_blocks [p, ?b] g)"
  proof (rule var_put_effect [OF g arg, of d])
    fix t' e' assume "table_ok mem g t'" and "\<And>x. x \<in> set (concat (ht_tab t1)) \<Longrightarrow>
        cstr (mem (he_key x)) \<noteq> cstr (mem arg) \<Longrightarrow> x \<in> set (concat (ht_tab t'))"
      and "var_put mem arg d (t1, g) = (case vars_at mem t1 (cstr (mem arg)) of
           None \<Rightarrow> Inr (t', g) | Some w \<Rightarrow> bindR (fmBytes_free (ptr_of w) g) (\<lambda>h. Inr (t', h)))"
    then show thesis using t1(2-4) ne assms(3) free by (intro that [of t']) (simp_all add: ptr_of_def del: set_concat)
  qed
  have "var_get mem c (t2, drop_blocks [p, ?b] g) = Inl Wild_Pointer"
    by (rule get_dangling [OF t2(1,2)]) (use assms(9-11) t1(4) in \<open>auto simp: live_key_def\<close>)
  then show ?thesis using store found t2(3) by (intro exI [of _ t1] exI [of _ t2] exI [of _ "drop_blocks [p, ?b] g"]) simp
qed

text \<open>
  Block 1 holds the name \<open>a\<close>, whose value is the buffer 4 of block 3 with the string \<open>b\<close>; block 2
  holds another \<open>b\<close>, block 9 the joined value.
\<close>

definition key_mem :: contents where
  "key_mem = (\<lambda>a. if a = 1 then [97, 0] else [98, 0])"

definition key_blocks :: blocks where
  "key_blocks = demo_blocks\<lparr>bk_buf := (\<lambda>a. 0)(3 := 4)\<rparr>"

definition key_table :: var_table where
  "key_table = \<lparr>ht_nelem = 1, ht_tab = [[\<lparr>he_hash_key = 177670, he_key = 1, he_value = Some 3\<rparr>]],
     ht_tab_size = 1, ht_hash = key_hash key_mem key_blocks, ht_equal = key_equal key_mem key_blocks,
     ht_key_del = False, ht_value_del = True, ht_log = []\<rparr>"

theorem concat_key_dangles_witness:
  "\<exists>t1 t2 h2. concat_store key_mem (Some 9) 1 (key_table, key_blocks) = Inr (t1, key_blocks)
    \<and> var_get key_mem 2 (t1, key_blocks) = Inr (Some 9)
    \<and> var_put key_mem 1 None (t1, key_blocks) = Inr (t2, h2) \<and> bk_live h2 = {1, 2, 5, 6, 9}
    \<and> var_get key_mem 2 (t2, h2) = Inl Wild_Pointer"
proof -
  have hash: "str_hsh [97] = 177670" by (simp add: str_hsh_def)
  have ok: "table_ok key_mem key_blocks key_table"
    by (simp add: table_ok_def ht_ok_def key_table_def entry_ok_def key_of_def live_key_def key_blocks_def
        demo_blocks_def key_mem_def terminated_def cstr_def hash buckets_ok_def in_bucket_def)
  have m: "vars_at key_mem key_table k = (if k = [97] then Some (Some 3) else None)" for k
    by (simp add: ht_map_def key_table_def key_of_def cstr_def key_mem_def)
  have b: "bk_buf key_blocks 3 = 4" "bk_live key_blocks = {1, 2, 3, 4, 5, 6, 9}"
    by (simp_all add: key_blocks_def demo_blocks_def)
  have k: "key_mem 1 = [97, 0]" "key_mem (Suc 0) = [97, 0]" "key_mem 2 = [98, 0]" "key_mem 4 = [98, 0]"
    and cs: "cstr [97, 0] = [97]" "cstr [98, 0] = [98]"
    by (simp_all add: key_mem_def cstr_def)
  have "\<exists>t1 t2 h2. concat_store key_mem (Some 9) 1 (key_table, key_blocks) = Inr (t1, key_blocks)
    \<and> var_get key_mem 2 (t1, key_blocks) = Inr (Some 9)
    \<and> var_put key_mem 1 None (t1, key_blocks) = Inr (t2, h2)
    \<and> bk_live h2 = bk_live key_blocks - {3, bk_buf key_blocks 3}
    \<and> var_get key_mem 2 (t2, h2) = Inl Wild_Pointer"
    by (rule concat_key_dangles [OF ok])
      (simp_all add: live_key_def m b held_def k cs terminated_def)
  moreover have "{1, 2, 3, 4, 5, 6, 9} - {3, 4} = {1, 2, 5, 6, 9 :: nat}" by auto
  ultimately show ?thesis unfolding b by simp
qed

end
