(* ===== verification/Fm_Timer.thy ===== *)
theory Fm_Timer
  imports Tsm_Prelude "HOL-Library.Multiset"
begin

text \<open>
  \<open>common/fm_timer.c\<close>: software timers on one periodic tick. The active and the expired list are
  lists of nodes (\<open>Fm_List\<close> has the pointer operations). An operation that holds the lock from its
  first to its last access is one step. \<open>fmtimer_add\<close> is not one: it takes its identifier from the
  counter before the lock, reading it and writing it back, and reads the node once more after
  the lock, so an addition is four steps of a thread that others may interrupt. The tick tests the
  counter of expired timers after its lock, but nothing ever decreases that counter. A callback is its
  address (\<open>None\<close> for NULL); the calls the handler thread makes are recorded in a log. The counter of
  identifiers is a C \<open>int\<close>, whose increment beyond the largest value is undefined; the other
  integers count nodes in memory and do not overflow.
\<close>

section \<open>State\<close>

record fmtimer_node =
  tn_expires :: int
  tn_function :: "u32 option"
  tn_data :: int
  tn_timerID :: int
  tn_adr :: nat

record fmtimer_list =
  tl_active_list :: "fmtimer_node list"
  tl_expire_list :: "fmtimer_node list"
  tl_active_cnt :: int
  tl_expire_cnt :: int
  tl_tv_sec :: int
  tl_tv_nsec :: int
  tl_interval :: int
  tl_sem_timer :: nat
  tl_timerID :: int
  tl_handler_alive :: bool
  tl_calls :: "(u32 \<times> int) list"

datatype timer_granularity = GR_MILLI_SECOND | GR_SECOND | GR_MINUTE | GR_HOUR | GR_OTHER

section \<open>Operations\<close>

text \<open>Division and remainder as C rounds them.\<close>

definition cdiv :: "int \<Rightarrow> int \<Rightarrow> int" where
  "cdiv a b = (if a < 0 then - ((- a) div b) else a div b)"

definition cmod :: "int \<Rightarrow> int \<Rightarrow> int" where
  "cmod a b = a - b * cdiv a b"

definition fmtimer_init :: "int \<Rightarrow> bool \<Rightarrow> bool \<Rightarrow> timer_granularity \<Rightarrow> int \<Rightarrow> int \<times> fmtimer_list" where
  "fmtimer_init next_id thread_ok timer_ok gr interval =
     (let (s, ns) = (case gr of
            GR_MILLI_SECOND \<Rightarrow> (cdiv interval 1000, cmod interval 1000 * 1000)
          | GR_SECOND \<Rightarrow> (interval, 0)
          | GR_MINUTE \<Rightarrow> (interval * 60, 0)
          | GR_HOUR \<Rightarrow> (interval * 360, 0)
          | GR_OTHER \<Rightarrow> (0, 0));
          t = \<lparr>tl_active_list = [], tl_expire_list = [], tl_active_cnt = 0, tl_expire_cnt = 0,
                tl_tv_sec = s, tl_tv_nsec = ns, tl_interval = interval, tl_sem_timer = 0,
                tl_timerID = next_id, tl_handler_alive = thread_ok, tl_calls = []\<rparr>
      in (if \<not> thread_ok then -1 else if \<not> timer_ok then -1 else 0, t))"

fun tick_loop :: "fmtimer_node list \<Rightarrow> fmtimer_list \<Rightarrow> fmtimer_list" where
  "tick_loop [] t = t"
| "tick_loop (node # ns) t =
     (let node = node\<lparr>tn_expires := tn_expires node - tl_interval t\<rparr>
      in if tn_expires node \<le> 0
         then tick_loop ns (t\<lparr>tl_active_cnt := tl_active_cnt t - 1,
                               tl_expire_list := tl_expire_list t @ [node],
                               tl_expire_cnt := tl_expire_cnt t + 1\<rparr>)
         else tick_loop ns (t\<lparr>tl_active_list := tl_active_list t @ [node]\<rparr>))"

definition clocktick_handler :: "fmtimer_list \<Rightarrow> fmtimer_list" where
  "clocktick_handler t =
     (let t = tick_loop (tl_active_list t) (t\<lparr>tl_active_list := []\<rparr>)
      in if tl_expire_cnt t > 0 then t\<lparr>tl_sem_timer := tl_sem_timer t + 1\<rparr> else t)"

text \<open>
  The handler thread waits for the semaphore once, serves every expired node and returns; there
  is no loop around its body.
\<close>

definition node_call :: "fmtimer_node \<Rightarrow> (u32 \<times> int) list" where
  "node_call node = (case tn_function node of None \<Rightarrow> [] | Some f \<Rightarrow> [(f, tn_data node)])"

definition to_handler :: "fmtimer_list \<Rightarrow> fmtimer_list" where
  "to_handler t =
     t\<lparr>tl_sem_timer := tl_sem_timer t - 1, tl_expire_list := [], tl_handler_alive := False,
        tl_calls := tl_calls t @ concat (map node_call (tl_expire_list t))\<rparr>"

text \<open>
  A thread in \<open>fmtimer_add\<close>: after \<open>fm_malloc\<close> gave it the node at an address, with the counter
  read but not written back, with the node filled, with the node in the list, and with its result.
\<close>

datatype adder =
    Enter nat u32 "u32 option" int
  | Loaded nat u32 "u32 option" int int
  | Numbered fmtimer_node
  | Linked fmtimer_node
  | Returned int

definition INT_MAX :: int where "INT_MAX = 2 ^ 31 - 1"

definition new_timer :: "nat \<Rightarrow> u32 \<Rightarrow> u32 option \<Rightarrow> int \<Rightarrow> int \<Rightarrow> fmtimer_node" where
  "new_timer a to f d i = \<lparr>tn_expires = sint to, tn_function = f, tn_data = d, tn_timerID = i, tn_adr = a\<rparr>"

text \<open>The node at an address, in either list; a node that is in neither was released.\<close>

definition node_at :: "nat \<Rightarrow> fmtimer_list \<Rightarrow> fmtimer_node option" where
  "node_at a t = find (\<lambda>n. tn_adr n = a) (tl_active_list t @ tl_expire_list t)"

fun add_step :: "adder \<Rightarrow> fmtimer_list \<Rightarrow> (adder \<times> fmtimer_list) res" where
  "add_step (Enter a to f d) t = Inr (Loaded a to f d (tl_timerID t), t)"
| "add_step (Loaded a to f d v) t =
     (if v = INT_MAX then Inl Undefined
      else Inr (Numbered (new_timer a to f d v),
                t\<lparr>tl_timerID := v + 1\<rparr>))"
| "add_step (Numbered node) t =
     Inr (Linked node, t\<lparr>tl_active_list := tl_active_list t @ [node], tl_active_cnt := tl_active_cnt t + 1\<rparr>)"
| "add_step (Linked node) t =
     (case node_at (tn_adr node) t of None \<Rightarrow> Inl Wild_Pointer | Some n \<Rightarrow> Inr (Returned (tn_timerID n), t))"
| "add_step (Returned i) t = Inr (Returned i, t)"

text \<open>The whole call, when no other thread comes between its steps.\<close>

definition fmtimer_add :: "nat \<Rightarrow> u32 \<Rightarrow> u32 option \<Rightarrow> int \<Rightarrow> fmtimer_list \<Rightarrow> (int \<times> fmtimer_list) res" where
  "fmtimer_add a to function data t =
     bindR (foldR (\<lambda>_ (th, t). add_step th t) [1, 2, 3, 4 :: nat] (Enter a to function data, t)) (\<lambda>(th, t).
       case th of Returned i \<Rightarrow> Inr (i, t) | _ \<Rightarrow> Inl Undefined)"

fun rearm_loop :: "int \<Rightarrow> int \<Rightarrow> fmtimer_node list \<Rightarrow> int \<times> fmtimer_node list" where
  "rearm_loop timerID new_expire [] = (-1, [])"
| "rearm_loop timerID new_expire (node # ns) =
     (if tn_timerID node = timerID then (0, node\<lparr>tn_expires := new_expire\<rparr> # ns)
      else (let (rc, ns) = rearm_loop timerID new_expire ns in (rc, node # ns)))"

definition fmtimer_rearm :: "int \<Rightarrow> int \<Rightarrow> fmtimer_list \<Rightarrow> int \<times> fmtimer_list" where
  "fmtimer_rearm timerID new_expire t =
     (let (rc, ns) = rearm_loop timerID new_expire (tl_active_list t)
      in (rc, t\<lparr>tl_active_list := ns\<rparr>))"

fun del_loop :: "int \<Rightarrow> fmtimer_node list \<Rightarrow> fmtimer_list \<Rightarrow> fmtimer_list" where
  "del_loop timerID [] t = t"
| "del_loop timerID (node # ns) t =
     (if tn_timerID node = timerID
      then del_loop timerID ns (t\<lparr>tl_active_cnt := tl_active_cnt t - 1\<rparr>)
      else del_loop timerID ns (t\<lparr>tl_active_list := tl_active_list t @ [node]\<rparr>))"

definition fmtimer_del :: "int \<Rightarrow> fmtimer_list \<Rightarrow> fmtimer_list" where
  "fmtimer_del timerID t = del_loop timerID (tl_active_list t) (t\<lparr>tl_active_list := []\<rparr>)"

text \<open>
  The first round of the loop unlinks a node through a pointer that was never assigned.
\<close>

definition fmtimer_deinit :: "fmtimer_list \<Rightarrow> fmtimer_list res" where
  "fmtimer_deinit t = (if tl_active_list t \<noteq> [] then Inl Undefined else Inr t)"

section \<open>Steps\<close>

text \<open>
  The timers and the threads that are adding one, at most \<open>n\<close> of them at a time. The allocator gives
  an address no node has.
\<close>

type_synonym timers = "fmtimer_list \<times> adder list"

fun adder_adr :: "adder \<Rightarrow> nat list" where
  "adder_adr (Enter a to f d) = [a]"
| "adder_adr (Loaded a to f d v) = [a]"
| "adder_adr (Numbered node) = [tn_adr node]"
| "adder_adr _ = []"

definition used_adrs :: "timers \<Rightarrow> nat set" where
  "used_adrs = (\<lambda>(t, ths). tn_adr ` set (tl_active_list t @ tl_expire_list t) \<union> set (concat (map adder_adr ths)))"

inductive timer_step :: "nat \<Rightarrow> timers \<Rightarrow> timers \<Rightarrow> bool" for n where
  tick: "timer_step n (t, ths) (clocktick_handler t, ths)"
| handler: "tl_handler_alive t \<Longrightarrow> 0 < tl_sem_timer t \<Longrightarrow> timer_step n (t, ths) (to_handler t, ths)"
| rearm: "timer_step n (t, ths) (snd (fmtimer_rearm i e t), ths)"
| del: "timer_step n (t, ths) (fmtimer_del i t, ths)"
| add_enter: "length ths < n \<Longrightarrow> a \<notin> used_adrs (t, ths) \<Longrightarrow> timer_step n (t, ths) (t, ths @ [Enter a to f d])"
| add_next: "i < length ths \<Longrightarrow> add_step (ths ! i) t = Inr (th, t') \<Longrightarrow> timer_step n (t, ths) (t', ths[i := th])"
| add_leave: "i < length ths \<Longrightarrow> ths ! i = Returned r \<Longrightarrow> timer_step n (t, ths) (t, take i ths @ drop (Suc i) ths)"

inductive_cases timer_stepE: "timer_step n s s'"

section \<open>Lemmas\<close>

text \<open>What one tick does to a node, and to a list of them.\<close>

definition aged :: "int \<Rightarrow> fmtimer_node \<Rightarrow> fmtimer_node" where
  "aged d node = node\<lparr>tn_expires := tn_expires node - d\<rparr>"

lemma aged_simps [simp]:
  "tn_expires (aged d n) = tn_expires n - d" "tn_timerID (aged d n) = tn_timerID n"
  "tn_function (aged d n) = tn_function n" "tn_data (aged d n) = tn_data n"
  by (simp_all add: aged_def)

lemma aged_aged: "aged a (aged b n) = aged (a + b) n"
  by (simp add: aged_def algebra_simps)

lemma aged_0: "aged 0 n = n"
  by (simp add: aged_def)

lemma tick_loop_eq:
  "tick_loop ns t = t\<lparr>
     tl_active_list := tl_active_list t @ filter (\<lambda>n. 0 < tn_expires n) (map (aged (tl_interval t)) ns),
     tl_expire_list := tl_expire_list t @ filter (\<lambda>n. tn_expires n \<le> 0) (map (aged (tl_interval t)) ns),
     tl_active_cnt := tl_active_cnt t - int (length (filter (\<lambda>n. tn_expires n \<le> 0) (map (aged (tl_interval t)) ns))),
     tl_expire_cnt := tl_expire_cnt t + int (length (filter (\<lambda>n. tn_expires n \<le> 0) (map (aged (tl_interval t)) ns)))\<rparr>"
  by (induction ns arbitrary: t) (simp_all add: Let_def aged_def)

lemma tick_lists:
  "tl_active_list (clocktick_handler t)
     = filter (\<lambda>n. 0 < tn_expires n) (map (aged (tl_interval t)) (tl_active_list t))"
  "tl_expire_list (clocktick_handler t) = tl_expire_list t
     @ filter (\<lambda>n. tn_expires n \<le> 0) (map (aged (tl_interval t)) (tl_active_list t))"
  "tl_interval (clocktick_handler t) = tl_interval t"
  "tl_timerID (clocktick_handler t) = tl_timerID t"
  "tl_calls (clocktick_handler t) = tl_calls t"
  "tl_handler_alive (clocktick_handler t) = tl_handler_alive t"
  by (simp_all add: clocktick_handler_def tick_loop_eq Let_def)

lemma rearm_ids: "map tn_timerID (snd (rearm_loop i e ns)) = map tn_timerID ns"
  by (induction ns) (auto simp: Let_def split_beta)

lemma del_loop_eq:
  "del_loop i ns t = t\<lparr>
     tl_active_list := tl_active_list t @ filter (\<lambda>n. tn_timerID n \<noteq> i) ns,
     tl_active_cnt := tl_active_cnt t - int (length (filter (\<lambda>n. tn_timerID n = i) ns))\<rparr>"
  by (induction ns arbitrary: t) simp_all

lemma new_timer_simps [simp]: "tn_timerID (new_timer a to f d i) = i" "tn_adr (new_timer a to f d i) = a"
  by (simp_all add: new_timer_def)

text \<open>
  The counter of active timers is right however many threads add; identifiers are fresh as long as
  at most one does.
\<close>

definition cnt_ok :: "fmtimer_list \<Rightarrow> bool" where
  "cnt_ok t \<longleftrightarrow> tl_active_cnt t = int (length (tl_active_list t))"

definition ids_below :: "fmtimer_list \<Rightarrow> bool" where
  "ids_below t \<longleftrightarrow> distinct (map tn_timerID (tl_active_list t))
     \<and> (\<forall>n\<in>set (tl_active_list t). tn_timerID n < tl_timerID t)"

definition add_ok :: "fmtimer_list \<Rightarrow> adder \<Rightarrow> bool" where
  "add_ok t th = (case th of
     Loaded a to f d v \<Rightarrow> v = tl_timerID t
   | Numbered node \<Rightarrow> tn_timerID node < tl_timerID t \<and> tn_timerID node \<notin> tn_timerID ` set (tl_active_list t)
   | _ \<Rightarrow> True)"

definition ids_ok :: "timers \<Rightarrow> bool" where
  "ids_ok = (\<lambda>(t, ths). ids_below t \<and> length ths \<le> 1 \<and> (\<forall>th\<in>set ths. add_ok t th))"

lemma length_filter_split: "length (filter P xs) + length (filter (\<lambda>x. \<not> P x) xs) = length xs"
  by (rule sum_length_filter_compl)

lemma tick_cnt: "cnt_ok t \<Longrightarrow> cnt_ok (clocktick_handler t)"
proof -
  let ?as = "map (aged (tl_interval t)) (tl_active_list t)"
  have "tl_active_cnt (clocktick_handler t)
      = tl_active_cnt t - int (length (filter (\<lambda>n. tn_expires n \<le> 0) ?as))"
    by (simp add: clocktick_handler_def tick_loop_eq Let_def)
  moreover have "int (length (filter (\<lambda>n. 0 < tn_expires n) ?as))
      + int (length (filter (\<lambda>n. tn_expires n \<le> 0) ?as)) = int (length (tl_active_list t))"
    using length_filter_split [of "\<lambda>n. 0 < tn_expires n" ?as] by (simp add: not_less)
  moreover assume "cnt_ok t"
  ultimately show ?thesis by (simp add: cnt_ok_def tick_lists)
qed

lemma rearm_length: "length (snd (rearm_loop i e ns)) = length ns"
  using arg_cong [OF rearm_ids, of length] by simp

lemma del_cnt: "cnt_ok t \<Longrightarrow> cnt_ok (fmtimer_del i t)"
  using length_filter_split [of "\<lambda>n. tn_timerID n = i" "tl_active_list t"]
  by (simp add: cnt_ok_def fmtimer_del_def del_loop_eq)

lemma add_step_cnt: "add_step th t = Inr (th', t') \<Longrightarrow> cnt_ok t \<Longrightarrow> cnt_ok t'"
  by (cases th) (auto simp: cnt_ok_def split: if_splits option.splits)

lemma handler_cnt: "cnt_ok t \<Longrightarrow> cnt_ok (to_handler t)"
  by (simp add: cnt_ok_def to_handler_def)

lemma rearm_cnt: "cnt_ok t \<Longrightarrow> cnt_ok (snd (fmtimer_rearm i e t))"
  by (simp add: cnt_ok_def fmtimer_rearm_def split_beta rearm_length)

lemma timer_step_cnt: "timer_step n s s' \<Longrightarrow> cnt_ok (fst s) \<Longrightarrow> cnt_ok (fst s')"
  by (induction rule: timer_step.induct) (auto intro: tick_cnt handler_cnt rearm_cnt del_cnt add_step_cnt)

text \<open>An operation that only drops nodes or leaves their identifiers alone keeps them fresh.\<close>

lemma ids_shrink:
  assumes "ids_ok (t, ths)" and "tl_timerID t' = tl_timerID t" and "distinct (map tn_timerID (tl_active_list t'))"
    and "tn_timerID ` set (tl_active_list t') \<subseteq> tn_timerID ` set (tl_active_list t)"
  shows "ids_ok (t', ths)"
proof -
  have "\<forall>n\<in>set (tl_active_list t'). tn_timerID n < tl_timerID t"
    using assms(1,4) by (fastforce simp: ids_ok_def ids_below_def)
  moreover have "add_ok t th \<Longrightarrow> add_ok t' th" for th
    using assms(2,4) by (cases th) (auto simp: add_ok_def)
  ultimately show ?thesis using assms(1-3) by (auto simp: ids_ok_def ids_below_def)
qed

lemma distinct_map_aged:
  "distinct (map tn_timerID ns) \<Longrightarrow> distinct (map tn_timerID (filter P (map (aged d) ns)))"
proof -
  assume "distinct (map tn_timerID ns)"
  then have "distinct (map tn_timerID (map (aged d) ns))" by (simp add: comp_def)
  then show ?thesis by (rule distinct_map_filter)
qed

lemma one_thread: "length ths \<le> 1 \<Longrightarrow> i < length ths \<Longrightarrow> i = 0 \<and> ths = [ths ! i]"
  by (cases ths) auto

lemma add_step_ids:
  assumes "ids_ok (t, [th])" and "add_step th t = Inr (th', t')"
  shows "ids_ok (t', [th'])"
  using assms
  by (cases th)
    (auto simp: ids_ok_def ids_below_def add_ok_def order.strict_implies_order split: if_splits option.splits,
     metis less_irrefl)

lemma timer_step_ids: "timer_step n s s' \<Longrightarrow> n \<le> 1 \<Longrightarrow> ids_ok s \<Longrightarrow> ids_ok s'"
proof (induction rule: timer_step.induct)
  case (tick t ths)
  then show ?case
    by (intro ids_shrink [OF tick(2)]) (auto simp: tick_lists ids_ok_def ids_below_def intro: distinct_map_aged)
next
  case (handler t ths)
  then show ?case by (intro ids_shrink [OF handler(4)]) (auto simp: to_handler_def ids_ok_def ids_below_def)
next
  case (rearm t ths i e)
  let ?ns = "snd (rearm_loop i e (tl_active_list t))"
  have "tn_timerID ` set ?ns = tn_timerID ` set (tl_active_list t)" by (metis rearm_ids set_map)
  then show ?case
    using rearm by (intro ids_shrink [OF rearm(2)]) (auto simp: fmtimer_rearm_def split_beta rearm_ids ids_ok_def ids_below_def)
next
  case (del t ths i)
  then show ?case
    by (intro ids_shrink [OF del(2)])
      (auto simp: fmtimer_del_def del_loop_eq ids_ok_def ids_below_def distinct_map_filter)
next
  case (add_enter ths a t to f d)
  then have "ths = []" by (cases ths) auto
  then show ?case using add_enter by (simp add: ids_ok_def add_ok_def)
next
  case (add_next i ths t th t')
  then have one: "i = 0" "ths = [ths ! i]" using one_thread [of ths i] by (simp_all add: ids_ok_def)
  from add_step_ids [of t "ths ! i"] add_next one show ?case by (metis list_update_code(2))
next
  case (add_leave i ths r t)
  then have one: "i = 0" "ths = [ths ! i]" using one_thread [of ths i] by (simp_all add: ids_ok_def)
  then have "take i ths @ drop (Suc i) ths = []" by (metis append_Nil drop_Suc_Cons drop_0 take_0)
  then show ?case unfolding \<open>take i ths @ drop (Suc i) ths = []\<close> using add_leave by (simp add: ids_ok_def)
qed

text \<open>What an addition without interruption does.\<close>

lemma fmtimer_add_eq:
  assumes "tl_timerID t \<noteq> INT_MAX" and "a \<notin> used_adrs (t, [])"
  shows "fmtimer_add a to f d t = Inr (tl_timerID t, t\<lparr>tl_timerID := tl_timerID t + 1,
    tl_active_list := tl_active_list t @ [new_timer a to f d (tl_timerID t)],
    tl_active_cnt := tl_active_cnt t + 1\<rparr>)"
proof -
  let ?n = "new_timer a to f d (tl_timerID t)"
  have "find (\<lambda>n. tn_adr n = a) (xs @ ?n # ys) = Some ?n" if "a \<notin> tn_adr ` set xs" for xs ys
    using that by (induction xs) (auto simp: new_timer_def)
  moreover have "a \<notin> tn_adr ` set (tl_active_list t)" using assms(2) by (auto simp: used_adrs_def)
  ultimately show ?thesis using assms(1) by (simp add: fmtimer_add_def node_at_def new_timer_def)
qed

lemma dead_step: "timer_step n s s' \<Longrightarrow> \<not> tl_handler_alive (fst s) \<Longrightarrow>
    \<not> tl_handler_alive (fst s') \<and> tl_calls (fst s') = tl_calls (fst s)"
proof (induction rule: timer_step.induct)
  case (add_next i ths t th t')
  then show ?case by (cases "ths ! i") (auto split: if_splits option.splits)
qed (auto simp: tick_lists fmtimer_rearm_def fmtimer_del_def del_loop_eq split_beta)

section \<open>Properties\<close>

definition timers_started :: "timers \<Rightarrow> bool" where
  "timers_started s \<longleftrightarrow> (\<exists>i a b gr k. s = (snd (fmtimer_init i a b gr k), []))"

lemma init_ok: "timers_started s \<Longrightarrow> cnt_ok (fst s) \<and> ids_ok s"
  by (auto simp: timers_started_def fmtimer_init_def cnt_ok_def ids_ok_def ids_below_def Let_def split_beta)

lemma timer_steps_ok:
  "(timer_step n)\<^sup>*\<^sup>* s s' \<Longrightarrow> cnt_ok (fst s) \<and> ids_ok s \<Longrightarrow> cnt_ok (fst s') \<and> (n \<le> 1 \<longrightarrow> ids_ok s')"
  by (induction rule: rtranclp_induct) (auto intro: timer_step_cnt timer_step_ids)

text \<open>
  C39. In every state reachable from \<open>fmtimer_init\<close>, whatever ticks, handler runs, rearmings,
  deletions and steps of any number of threads in \<open>fmtimer_add\<close> happened in whatever order, the
  active counter is the length of the active list; and when no two threads are in \<open>fmtimer_add\<close> at
  the same time, no two active timers share an identifier.
\<close>

theorem timer_reachable:
  assumes "(timer_step n)\<^sup>*\<^sup>* (snd (fmtimer_init i a b gr k), []) (t, ths)"
  shows "tl_active_cnt t = int (length (tl_active_list t))
    \<and> (n \<le> 1 \<longrightarrow> distinct (map tn_timerID (tl_active_list t)))"
proof -
  have "timers_started (snd (fmtimer_init i a b gr k), [])" unfolding timers_started_def by blast
  from timer_steps_ok [OF assms init_ok [OF this]] show ?thesis
    by (auto simp: cnt_ok_def ids_ok_def ids_below_def)
qed

definition demo_timers :: fmtimer_list where
  "demo_timers = (snd (fmtimer_init 0 True True GR_SECOND 1))\<lparr>tl_timerID := 2, tl_active_cnt := 2,
     tl_active_list := [new_timer 1 2 (Some 9) 3 0, new_timer 2 5 (Some 7) 1 1]\<rparr>"

text \<open>An addition is four steps of its thread, and a fifth that ends it.\<close>

lemma add_reach:
  assumes "fmtimer_add a to f d t = Inr (i, t')" and "a \<notin> used_adrs (t, [])" and "0 < n"
  shows "(timer_step n)\<^sup>*\<^sup>* (t, []) (t', [])"
proof -
  have "tl_timerID t \<noteq> INT_MAX" using assms(1) by (auto simp: fmtimer_add_def)
  note eq = fmtimer_add_eq [OF this assms(2), of to f d]
  let ?x = "new_timer a to f d i"
  let ?t1 = "t\<lparr>tl_timerID := i + 1\<rparr>"
  have i: "i = tl_timerID t" using assms(1) eq by simp
  have t': "t' = ?t1\<lparr>tl_active_list := tl_active_list t @ [?x], tl_active_cnt := tl_active_cnt t + 1\<rparr>"
    using assms(1) eq unfolding i by simp
  have s: "add_step (Enter a to f d) t = Inr (Loaded a to f d i, t)" "add_step (Loaded a to f d i) t = Inr (Numbered ?x, ?t1)"
      "add_step (Numbered ?x) ?t1 = Inr (Linked ?x, t')"
    using \<open>tl_timerID t \<noteq> INT_MAX\<close> by (simp_all add: i t')
  have s4: "add_step (Linked ?x) t' = Inr (Returned i, t')"
    using assms(1) s by (auto simp: fmtimer_add_def bindR_def split: sum.splits adder.splits option.splits)
  have e: "timer_step n (t, []) (t, [] @ [Enter a to f d])" using assms(2,3) by (intro timer_step.add_enter) simp_all
  have step: "add_step th u = Inr (th', u') \<Longrightarrow> timer_step n (u, [th]) (u', [th'])" for th u th' u'
    using timer_step.add_next [of 0 "[th]" u th' u' n] by simp
  have l: "timer_step n (t', [Returned i]) (t', [])"
    using timer_step.add_leave [of 0 "[Returned i]" i n t'] by simp
  show ?thesis
    using e [simplified] s [THEN step] s4 [THEN step] l
    by (meson converse_rtranclp_into_rtranclp rtranclp.rtrancl_refl)
qed

lemma demo_reach: "(timer_step 1)\<^sup>*\<^sup>* (snd (fmtimer_init 0 True True GR_SECOND 1), []) (demo_timers, [])"
proof -
  let ?t0 = "snd (fmtimer_init 0 True True GR_SECOND 1)"
  let ?t1 = "?t0\<lparr>tl_timerID := 1, tl_active_list := [new_timer 1 2 (Some 9) 3 0], tl_active_cnt := 1\<rparr>"
  have 1: "fmtimer_add 1 2 (Some 9) 3 ?t0 = Inr (0, ?t1)"
    by (subst fmtimer_add_eq) (simp_all add: fmtimer_init_def INT_MAX_def used_adrs_def new_timer_def)
  have 2: "fmtimer_add 2 5 (Some 7) 1 ?t1 = Inr (1, demo_timers)"
    by (subst fmtimer_add_eq) (simp_all add: fmtimer_init_def INT_MAX_def used_adrs_def new_timer_def demo_timers_def)
  have "(timer_step 1)\<^sup>*\<^sup>* (?t0, []) (?t1, [])"
    by (rule add_reach [OF 1]) (simp_all add: used_adrs_def fmtimer_init_def)
  moreover have "(timer_step 1)\<^sup>*\<^sup>* (?t1, []) (demo_timers, [])"
    by (rule add_reach [OF 2]) (simp_all add: used_adrs_def fmtimer_init_def new_timer_def)
  ultimately show ?thesis by (rule rtranclp_trans)
qed

theorem timer_reachable_witness:
  "tl_active_cnt demo_timers = int (length (tl_active_list demo_timers))
     \<and> distinct (map tn_timerID (tl_active_list demo_timers))"
  using timer_reachable [OF demo_reach] by simp

text \<open>
  Two threads in \<open>fmtimer_add\<close> at the same time can be given the same identifier: from every state
  there is an order of their steps after which both calls return the number the counter had, and the
  two new timers carry it. Deleting one of them deletes both.
\<close>

theorem timer_ids_collide:
  assumes "tl_timerID t \<noteq> INT_MAX" and "{a, b} \<inter> used_adrs (t, []) = {}" and "a \<noteq> b"
    and "tl_timerID t \<notin> tn_timerID ` set (tl_active_list t)"
  shows "\<exists>t'. (timer_step 2)\<^sup>*\<^sup>* (t, []) (t', [Returned (tl_timerID t), Returned (tl_timerID t)])
    \<and> tl_active_list t' = tl_active_list t @ [new_timer a to f d (tl_timerID t), new_timer b to' f' d' (tl_timerID t)]
    \<and> tl_active_list (fmtimer_del (tl_timerID t) t') = tl_active_list t"
proof -
  let ?i = "tl_timerID t"
  let ?x = "new_timer a to f d ?i" and ?y = "new_timer b to' f' d' ?i"
  let ?t1 = "t\<lparr>tl_timerID := ?i + 1\<rparr>"
  let ?t2 = "?t1\<lparr>tl_active_list := tl_active_list t @ [?x], tl_active_cnt := tl_active_cnt t + 1\<rparr>"
  let ?t3 = "?t1\<lparr>tl_active_list := tl_active_list t @ [?x, ?y], tl_active_cnt := tl_active_cnt t + 2\<rparr>"
  have find: "find (\<lambda>n. tn_adr n = tn_adr z) (xs @ z # ys) = Some z" if "tn_adr z \<notin> tn_adr ` set xs"
    for z :: fmtimer_node and xs ys using that by (induction xs) auto
  have at: "node_at a ?t3 = Some ?x" "node_at b ?t3 = Some ?y"
    using find [of ?x "tl_active_list t" "?y # tl_expire_list t"] find [of ?y "tl_active_list t @ [?x]" "tl_expire_list t"]
      assms(2,3) by (auto simp: node_at_def used_adrs_def new_timer_def)
  have n0: "timer_step 2 (u, [th, th2]) (u', [th', th2])" if "add_step th u = Inr (th', u')" for u u' th th' th2
    using timer_step.add_next [of 0 "[th, th2]" u th' u' 2] that by simp
  have n1: "timer_step 2 (u, [th2, th]) (u', [th2, th'])" if "add_step th u = Inr (th', u')" for u u' th th' th2
    using timer_step.add_next [of 1 "[th2, th]" u th' u' 2] that by simp
  have "timer_step 2 (t, []) (t, [Enter a to f d])"
    using timer_step.add_enter [of "[]" 2 a t to f d] assms(2) by simp
  moreover have "timer_step 2 (t, [Enter a to f d]) (t, [Enter a to f d, Enter b to' f' d'])"
    using timer_step.add_enter [of "[Enter a to f d]" 2 b t to' f' d'] assms(2,3) by (simp add: used_adrs_def)
  moreover have "timer_step 2 (t, [Enter a to f d, Enter b to' f' d']) (t, [Loaded a to f d ?i, Enter b to' f' d'])"
    by (rule n0) simp
  moreover have "timer_step 2 (t, [Loaded a to f d ?i, Enter b to' f' d']) (t, [Loaded a to f d ?i, Loaded b to' f' d' ?i])"
    by (rule n1) simp
  moreover have "timer_step 2 (t, [Loaded a to f d ?i, Loaded b to' f' d' ?i]) (?t1, [Numbered ?x, Loaded b to' f' d' ?i])"
    by (rule n0) (simp add: assms(1))
  moreover have "timer_step 2 (?t1, [Numbered ?x, Loaded b to' f' d' ?i]) (?t1, [Numbered ?x, Numbered ?y])"
    by (rule n1) (simp add: assms(1))
  moreover have "timer_step 2 (?t1, [Numbered ?x, Numbered ?y]) (?t2, [Linked ?x, Numbered ?y])"
    by (rule n0) simp
  moreover have "timer_step 2 (?t2, [Linked ?x, Numbered ?y]) (?t3, [Linked ?x, Linked ?y])"
    by (rule n1) simp
  moreover have "timer_step 2 (?t3, [Linked ?x, Linked ?y]) (?t3, [Returned ?i, Linked ?y])"
    by (rule n0) (simp add: at [unfolded new_timer_def] new_timer_def)
  moreover have "timer_step 2 (?t3, [Returned ?i, Linked ?y]) (?t3, [Returned ?i, Returned ?i])"
    by (rule n1) (simp add: at [unfolded new_timer_def] new_timer_def)
  ultimately have "(timer_step 2)\<^sup>*\<^sup>* (t, []) (?t3, [Returned ?i, Returned ?i])"
    by (meson converse_rtranclp_into_rtranclp rtranclp.rtrancl_refl)
  moreover have "filter (\<lambda>n. tn_timerID n \<noteq> ?i) (tl_active_list t) = tl_active_list t"
    using assms(4) by (force simp: filter_id_conv)
  ultimately show ?thesis
    by (intro exI [of _ ?t3]) (simp add: fmtimer_del_def del_loop_eq new_timer_def)
qed

theorem timer_ids_collide_example:
  "\<exists>t'. (timer_step 2)\<^sup>*\<^sup>* (demo_timers, []) (t', [Returned 2, Returned 2])
     \<and> tl_active_list t' = tl_active_list demo_timers @ [new_timer 3 1 None 0 2, new_timer 4 9 None 0 2]
     \<and> tl_active_list (fmtimer_del 2 t') = tl_active_list demo_timers"
proof -
  have d: "tl_timerID demo_timers = 2" "used_adrs (demo_timers, []) = {1, 2}" "2 \<notin> tn_timerID ` set (tl_active_list demo_timers)"
    by (simp_all add: demo_timers_def used_adrs_def new_timer_def fmtimer_init_def)
  show ?thesis using timer_ids_collide [of demo_timers 3 4 1 None 0 9 None 0] d by (simp add: INT_MAX_def)
qed

lemma ticks_interval: "tl_interval ((clocktick_handler ^^ k) t) = tl_interval t"
  by (induction k) (simp_all add: tick_lists)

text \<open>The timers the ticks take away, and the call a timer stands for.\<close>

lemma ticks_active:
  assumes "0 \<le> tl_interval t"
  shows "tl_active_list ((clocktick_handler ^^ Suc k) t)
    = map (aged (int (Suc k) * tl_interval t))
        (filter (\<lambda>m. int (Suc k) * tl_interval t < tn_expires m) (tl_active_list t))"
proof (induction k)
  case 0
  then show ?case by (simp add: tick_lists filter_map comp_def)
next
  case (Suc k)
  let ?i = "tl_interval t" and ?s = "(clocktick_handler ^^ Suc k) t"
  have "tl_active_list (clocktick_handler ?s)
      = filter (\<lambda>m. 0 < tn_expires m) (map (aged ?i) (tl_active_list ?s))"
    by (simp only: tick_lists ticks_interval)
  also have "\<dots> = map (aged (int (Suc (Suc k)) * ?i))
      (filter (\<lambda>m. int (Suc (Suc k)) * ?i < tn_expires m \<and> int (Suc k) * ?i < tn_expires m)
        (tl_active_list t))"
    unfolding Suc by (simp add: filter_map comp_def aged_aged algebra_simps conj_commute)
  also have "(\<lambda>m. int (Suc (Suc k)) * ?i < tn_expires m \<and> int (Suc k) * ?i < tn_expires m)
      = (\<lambda>m. int (Suc (Suc k)) * ?i < tn_expires m)"
    using assms by (auto simp: algebra_simps)
  finally show ?case by simp
qed

lemma node_call_aged: "node_call (aged d n) = node_call n"
  by (simp add: node_call_def split: option.split)

definition calls_of :: "fmtimer_node list \<Rightarrow> (u32 \<times> int) multiset" where
  "calls_of ns = mset (concat (map node_call ns))"

lemma calls_of_append: "calls_of (xs @ ys) = calls_of xs + calls_of ys"
  by (simp add: calls_of_def)

lemma calls_of_aged: "calls_of (map (aged d) ns) = calls_of ns"
  by (simp add: calls_of_def node_call_aged comp_def)

lemma calls_of_split: "calls_of (filter P ns) + calls_of (filter (\<lambda>n. \<not> P n) ns) = calls_of ns"
  by (induction ns) (simp_all add: calls_of_def)

lemma tick_calls:
  "calls_of (tl_expire_list (clocktick_handler t)) + calls_of (tl_active_list (clocktick_handler t))
    = calls_of (tl_expire_list t) + calls_of (tl_active_list t)"
proof -
  let ?as = "map (aged (tl_interval t)) (tl_active_list t)"
  show ?thesis
    using calls_of_split [of "\<lambda>n. 0 < tn_expires n" ?as]
    by (simp add: not_less tick_lists calls_of_append calls_of_aged ac_simps)
qed

lemma ticks_calls:
  "calls_of (tl_expire_list ((clocktick_handler ^^ k) t)) + calls_of (tl_active_list ((clocktick_handler ^^ k) t))
    = calls_of (tl_expire_list t) + calls_of (tl_active_list t)"
  by (induction k) (simp_all add: tick_calls)

text \<open>The nodes in the expired list are never more than its counter says, and a tick that finds one posts.\<close>

definition expired_ok :: "fmtimer_list \<Rightarrow> bool" where
  "expired_ok t \<longleftrightarrow> int (length (tl_expire_list t)) \<le> tl_expire_cnt t"

lemma tick_expired: "expired_ok t \<Longrightarrow> expired_ok (clocktick_handler t)"
  by (simp add: expired_ok_def clocktick_handler_def tick_loop_eq Let_def)

lemma tick_posts:
  assumes "expired_ok t" and "tl_expire_list (clocktick_handler t) \<noteq> []"
  shows "0 < tl_sem_timer (clocktick_handler t)"
proof -
  have "0 < tl_expire_cnt (clocktick_handler t)"
    using tick_expired [OF assms(1)] assms(2)
    by (cases "tl_expire_list (clocktick_handler t)") (simp_all add: expired_ok_def)
  moreover have "tl_expire_cnt (clocktick_handler t) = tl_expire_cnt (tick_loop (tl_active_list t) (t\<lparr>tl_active_list := []\<rparr>))"
    by (simp add: clocktick_handler_def Let_def)
  ultimately show ?thesis by (simp add: clocktick_handler_def Let_def)
qed

lemma ticks_expired: "expired_ok t \<Longrightarrow> expired_ok ((clocktick_handler ^^ k) t)"
  by (induction k) (simp_all add: tick_expired)

text \<open>
  C38. A timer with timeout \<open>e\<close> fires after the ticks its timeout takes, and not before. After \<open>k + 1\<close>
  ticks the active list is the old one without the timers with \<open>e \<le> (k + 1) * interval\<close>, in the same
  order, each aged by the time that passed. When there is a timer in the expired list, the
  semaphore of the handler thread is raised; and when that thread then runs, it calls exactly the
  callbacks of the timers whose time is over, each once with its data, besides those of the timers
  that had expired before.
\<close>

theorem ticks_expire:
  fixes t :: fmtimer_list and k :: nat
  defines "t' \<equiv> (clocktick_handler ^^ Suc k) t"
    and "over \<equiv> \<lambda>m. tn_expires m \<le> int (Suc k) * tl_interval t"
  assumes "0 \<le> tl_interval t" and "int (length (tl_expire_list t)) \<le> tl_expire_cnt t"
  shows "tl_active_list t' = map (aged (int (Suc k) * tl_interval t)) (filter (\<lambda>m. \<not> over m) (tl_active_list t))
    \<and> (tl_expire_list t' \<noteq> [] \<longrightarrow> 0 < tl_sem_timer t')
    \<and> mset (tl_calls (to_handler t')) = mset (tl_calls t) + calls_of (tl_expire_list t)
        + calls_of (filter over (tl_active_list t))"
proof (intro conjI impI)
  have nover: "(\<lambda>m. int (Suc k) * tl_interval t < tn_expires m) = (\<lambda>m. \<not> over m)"
    by (auto simp: over_def)
  show act: "tl_active_list t' = map (aged (int (Suc k) * tl_interval t)) (filter (\<lambda>m. \<not> over m) (tl_active_list t))"
    unfolding t'_def ticks_active [OF assms(3)] nover by (rule refl)
  have "expired_ok ((clocktick_handler ^^ k) t)" using assms(4) by (intro ticks_expired) (simp add: expired_ok_def)
  then show "tl_expire_list t' \<noteq> [] \<Longrightarrow> 0 < tl_sem_timer t'" unfolding t'_def by (simp add: tick_posts)
  have "calls_of (tl_expire_list t') + calls_of (filter (\<lambda>m. \<not> over m) (tl_active_list t))
      = calls_of (tl_expire_list t) + calls_of (tl_active_list t)"
    using ticks_calls [of "Suc k" t] unfolding t'_def [symmetric] act calls_of_aged .
  also have "\<dots> = calls_of (tl_expire_list t) + (calls_of (filter over (tl_active_list t))
      + calls_of (filter (\<lambda>m. \<not> over m) (tl_active_list t)))"
    by (simp only: calls_of_split)
  finally have e: "calls_of (tl_expire_list t') = calls_of (tl_expire_list t) + calls_of (filter over (tl_active_list t))"
    by (simp add: ac_simps)
  have "tl_calls t' = tl_calls t" unfolding t'_def by (induction k) (simp_all add: tick_lists)
  then show "mset (tl_calls (to_handler t')) = mset (tl_calls t) + calls_of (tl_expire_list t)
      + calls_of (filter over (tl_active_list t))"
    using e by (simp add: to_handler_def calls_of_def ac_simps)
qed

theorem ticks_expire_witness:
  "map tn_expires (tl_active_list ((clocktick_handler ^^ Suc 1) demo_timers)) = [3]
     \<and> tl_calls (to_handler ((clocktick_handler ^^ Suc 1) demo_timers)) = [(9, 3)]"
proof -
  have "mset (tl_calls (to_handler ((clocktick_handler ^^ Suc 1) demo_timers))) = {#(9, 3)#}"
    by (subst ticks_expire [THEN conjunct2, THEN conjunct2])
      (simp_all add: demo_timers_def new_timer_def fmtimer_init_def calls_of_def node_call_def)
  moreover have "map tn_expires (tl_active_list ((clocktick_handler ^^ Suc 1) demo_timers)) = [3]"
    by (subst ticks_active) (simp_all add: demo_timers_def new_timer_def fmtimer_init_def)
  ultimately show ?thesis by simp
qed

lemma dead_steps: "(timer_step n)\<^sup>*\<^sup>* s s' \<Longrightarrow> \<not> tl_handler_alive (fst s) \<Longrightarrow>
    \<not> tl_handler_alive (fst s') \<and> tl_calls (fst s') = tl_calls (fst s)"
  by (induction rule: rtranclp_induct) (auto dest: dead_step)

text \<open>
  The handler thread serves one batch only: once it has run, no sequence of ticks, additions
  and deletions leads to another callback.
\<close>

theorem handler_serves_once:
  assumes "(timer_step n)\<^sup>*\<^sup>* (to_handler t, ths) (t', ths')"
  shows "tl_calls t' = tl_calls (to_handler t)"
  using dead_steps [OF assms] by (simp add: to_handler_def)

theorem handler_serves_once_example:
  "tl_calls (clocktick_handler (clocktick_handler (to_handler demo_timers))) = []"
proof -
  have "(timer_step 1)\<^sup>*\<^sup>* (to_handler demo_timers, []) (clocktick_handler (clocktick_handler (to_handler demo_timers)), [])"
    by (meson timer_step.tick rtranclp.rtrancl_into_rtrancl rtranclp.rtrancl_refl)
  from handler_serves_once [OF this] show ?thesis
    by (simp add: demo_timers_def to_handler_def fmtimer_init_def)
qed

text \<open>
  Deleting a timer right after it was added takes exactly that timer away again: the other
  timers, the counter and the expired list are as before, only its identifier is used up.
\<close>

theorem fmtimer_add_del:
  assumes "ids_below t" and "tl_timerID t \<noteq> INT_MAX" and "a \<notin> used_adrs (t, [])"
  shows "\<exists>i t'. fmtimer_add a to f d t = Inr (i, t') \<and> fmtimer_del i t' = t\<lparr>tl_timerID := tl_timerID t + 1\<rparr>"
proof -
  have "filter (\<lambda>n. tn_timerID n \<noteq> tl_timerID t) (tl_active_list t) = tl_active_list t"
    using assms(1) by (auto simp: ids_below_def filter_id_conv)
  moreover have "filter (\<lambda>n. tn_timerID n = tl_timerID t) (tl_active_list t) = []"
    using assms(1) by (auto simp: ids_below_def filter_empty_conv)
  ultimately show ?thesis
    using fmtimer_add_eq [OF assms(2,3)] by (simp add: fmtimer_del_def del_loop_eq)
qed

theorem fmtimer_add_del_example:
  "\<exists>i t'. fmtimer_add 3 1 None 0 demo_timers = Inr (i, t') \<and> fmtimer_del i t' = demo_timers\<lparr>tl_timerID := 3\<rparr>"
  using fmtimer_add_del [of demo_timers 3 1 None 0]
  by (simp add: ids_below_def demo_timers_def new_timer_def fmtimer_init_def INT_MAX_def used_adrs_def)

text \<open>
  A period of fewer than 1000 milliseconds is set up a thousand times too short: \<open>n\<close>
  milliseconds become \<open>n * 1000\<close> nanoseconds.
\<close>

theorem fmtimer_init_milliseconds:
  assumes "0 \<le> n" "n < 1000"
  shows "(tl_tv_sec (snd (fmtimer_init i a b GR_MILLI_SECOND n)),
      tl_tv_nsec (snd (fmtimer_init i a b GR_MILLI_SECOND n))) = (0, n * 1000)"
  using assms by (simp add: fmtimer_init_def cmod_def cdiv_def Let_def)

theorem fmtimer_init_milliseconds_example:
  "tl_tv_nsec (snd (fmtimer_init 0 True True GR_MILLI_SECOND 20)) = 20000"
  using fmtimer_init_milliseconds [of 20 0 True True] by simp

end
