(* ===== verification/Fm_Bytes.thy ===== *)
theory Fm_Bytes
  imports Tsm_Prelude
begin

text \<open>
  \<open>common/fm_Bytes.c\<close>: counted byte buffers (\<open>fmBytes\<close>) and arrays of them
  (\<open>fmBytes_array_t\<close>). A pointer to an \<open>fmBytes\<close> is an option (\<open>None\<close> is NULL), and so is its
  \<open>buf\<close>; a buffer is the block it points to. \<open>size\<close> and \<open>leng\<close> are C \<open>int\<close>s whose
  overflow the code never relies on, hence HOL integers. The outcome of each allocation is a
  parameter of the allocating function.
\<close>

unbundle bit_operations_syntax

section \<open>State\<close>

record fmBytes =
  fb_size :: int
  fb_leng :: int
  fb_buf :: "u8 list option"

record fmBytes_array =
  fa_size :: int
  fa_cnt :: int
  fa_array :: "fmBytes option list"

section \<open>Accessors\<close>

definition fmBytes_get_buf :: "fmBytes option \<Rightarrow> u8 list option" where
  "fmBytes_get_buf p = (case p of None \<Rightarrow> None | Some q \<Rightarrow> fb_buf q)"

definition fmBytes_set_buf :: "fmBytes option \<Rightarrow> u8 list option \<Rightarrow> fmBytes option" where
  "fmBytes_set_buf p b = (case p of None \<Rightarrow> None | Some q \<Rightarrow> Some (q\<lparr>fb_buf := b\<rparr>))"

definition fmBytes_get_size :: "fmBytes option \<Rightarrow> int res" where
  "fmBytes_get_size p = bindR (deref p) (\<lambda>q. Inr (fb_size q))"

definition fmBytes_set_size :: "fmBytes option \<Rightarrow> int \<Rightarrow> fmBytes res" where
  "fmBytes_set_size p n = bindR (deref p) (\<lambda>q. Inr (q\<lparr>fb_size := n\<rparr>))"

definition fmBytes_get_length :: "fmBytes option \<Rightarrow> int res" where
  "fmBytes_get_length p = bindR (deref p) (\<lambda>q. Inr (fb_leng q))"

definition fmBytes_set_length :: "fmBytes option \<Rightarrow> int \<Rightarrow> fmBytes res" where
  "fmBytes_set_length p n = bindR (deref p) (\<lambda>q. Inr (q\<lparr>fb_leng := n\<rparr>))"

section \<open>Operations\<close>

text \<open>
  \<open>ok1\<close> and \<open>ok2\<close> say whether the two \<open>fm_calloc\<close> calls succeed. A negative size converts
  to a \<open>size_t\<close> beyond any object size, so the second call fails for it. The bytes are zero.
\<close>

definition fmBytes_alloc :: "bool \<Rightarrow> bool \<Rightarrow> int \<Rightarrow> fmBytes option" where
  "fmBytes_alloc ok1 ok2 n =
     (if \<not> ok1 then None
      else if \<not> ok2 \<or> n < 0 then None
      else Some \<lparr>fb_size = n, fb_leng = 0, fb_buf = Some (replicate (nat n) 0)\<rparr>)"

text \<open>The loop of \<open>fmBytes_is_zeros\<close> and of \<open>is_all_zero\<close>: bytes \<open>i\<close> to \<open>n - 1\<close> after \<open>off\<close>.\<close>

fun zeros_loop :: "u8 list \<Rightarrow> int \<Rightarrow> nat \<Rightarrow> bool res" where
  "zeros_loop b off 0 = Inr True"
| "zeros_loop b off (Suc n) =
     bindR (rd b off) (\<lambda>x. if x \<noteq> 0 then Inr False else zeros_loop b (off + 1) n)"

definition fmBytes_is_zeros :: "fmBytes option \<Rightarrow> int \<Rightarrow> int \<Rightarrow> bool res" where
  "fmBytes_is_zeros p off len =
     (if len \<le> 0 then Inr True
      else bindR (deref (fmBytes_get_buf p)) (\<lambda>b. zeros_loop b off (nat len)))"

definition fmBytes_copy ::
  "fmBytes option \<Rightarrow> int \<Rightarrow> fmBytes option \<Rightarrow> int \<Rightarrow> int \<Rightarrow> (int \<times> fmBytes option) res"
where
  "fmBytes_copy des offset1 src offset2 len =
     (case (src, des) of
        (Some s, Some d) \<Rightarrow>
          (case (fb_buf s, fb_buf d) of
             (Some sb, Some db) \<Rightarrow>
               if fb_size d - offset1 < len then Inr (-1, des)
               else if fb_leng s - offset2 < len then Inr (-1, des)
               else bindR (rdn sb offset2 len) (\<lambda>xs.
                    bindR (wrn db offset1 xs) (\<lambda>db'.
                      Inr (0, Some (d\<lparr>fb_buf := Some db', fb_leng := fb_leng d + len\<rparr>))))
           | _ \<Rightarrow> Inr (-1, des))
      | _ \<Rightarrow> Inr (-1, des))"

text \<open>The source is a raw pointer: \<open>None\<close> for NULL, otherwise the block it points to.\<close>

definition fmBytes_copy_from ::
  "fmBytes option \<Rightarrow> int \<Rightarrow> u8 list option \<Rightarrow> int \<Rightarrow> int \<Rightarrow> (int \<times> fmBytes option) res"
where
  "fmBytes_copy_from des offset1 src offset2 len =
     (case (src, des) of
        (Some sb, Some d) \<Rightarrow>
          (case fb_buf d of
             None \<Rightarrow> Inr (-1, des)
           | Some db \<Rightarrow>
               if fb_size d - offset1 < len then Inr (-1, des)
               else bindR (rdn sb offset2 len) (\<lambda>xs.
                    bindR (wrn db offset1 xs) (\<lambda>db'.
                      Inr (0, Some (d\<lparr>fb_buf := Some db', fb_leng := fb_leng d + len\<rparr>)))))
      | _ \<Rightarrow> Inr (-1, des))"

definition fmBytes_compare ::
  "fmBytes option \<Rightarrow> int \<Rightarrow> fmBytes option \<Rightarrow> int \<Rightarrow> int \<Rightarrow> bool res"
where
  "fmBytes_compare p1 offset1 p2 offset2 len =
     (case (p1, p2) of
        (Some q1, Some q2) \<Rightarrow>
          (case (fb_buf q1, fb_buf q2) of
             (Some b1, Some b2) \<Rightarrow>
               if fb_leng q1 < offset1 + len \<or> fb_leng q2 < offset2 + len then Inr False
               else bindR (rdn b1 offset1 len) (\<lambda>xs.
                    bindR (rdn b2 offset2 len) (\<lambda>ys. Inr (xs = ys)))
           | _ \<Rightarrow> Inr False)
      | _ \<Rightarrow> Inr False)"

text \<open>
  \<open>fmBytes2intBE\<close> never initialises \<open>ret\<close>: the value it starts from is the parameter \<open>ret\<close>.
  The shift in round \<open>i\<close> is \<open>i * 8\<close>, as the source has it, on 32 bits.
\<close>

fun toint_loop :: "u8 list \<Rightarrow> nat \<Rightarrow> nat \<Rightarrow> u32 \<Rightarrow> u32 res" where
  "toint_loop b i 0 ret = Inr ret"
| "toint_loop b i (Suc n) ret =
     bindR (rd b (int i)) (\<lambda>x. toint_loop b (Suc i) n (push_bit (i * 8) ret OR ucast x))"

definition fmBytes2intBE :: "u32 \<Rightarrow> fmBytes option \<Rightarrow> u32 res" where
  "fmBytes2intBE ret p =
     bindR (fmBytes_get_length p) (\<lambda>n.
       if n > 4 then Inr 0xFFFFFFFF
       else if n \<le> 0 then Inr ret
       else bindR (deref (fmBytes_get_buf p)) (\<lambda>b. toint_loop b 0 (nat n) ret))"

definition fmBytes_array_alloc :: "bool \<Rightarrow> bool \<Rightarrow> int \<Rightarrow> fmBytes_array option" where
  "fmBytes_array_alloc ok1 ok2 n =
     (if \<not> ok1 then None
      else if \<not> ok2 \<or> n < 0 then None
      else Some \<lparr>fa_size = n, fa_cnt = 0, fa_array = replicate (nat n) None\<rparr>)"

definition fmBytes_array_resize ::
  "bool \<Rightarrow> bool \<Rightarrow> fmBytes_array \<Rightarrow> int \<Rightarrow> fmBytes_array res"
where
  "fmBytes_array_resize ok1 ok2 old new_size =
     (if new_size \<le> fa_size old then Inr old
      else (case fmBytes_array_alloc ok1 ok2 new_size of
              None \<Rightarrow> Inr old
            | Some new \<Rightarrow>
                if fa_cnt old \<le> 0 then Inr (new\<lparr>fa_cnt := fa_cnt old\<rparr>)
                else bindR (rdn (fa_array old) 0 (fa_cnt old)) (\<lambda>xs.
                     bindR (wrn (fa_array new) 0 xs) (\<lambda>arr.
                       Inr (new\<lparr>fa_cnt := fa_cnt old, fa_array := arr\<rparr>)))))"

section \<open>Well-formed buffers and their contents\<close>

definition fb_ok :: "fmBytes \<Rightarrow> bool" where
  "fb_ok p \<longleftrightarrow> (case fb_buf p of
     None \<Rightarrow> False
   | Some b \<Rightarrow> fb_size p = int (length b) \<and> 0 \<le> fb_leng p \<and> fb_leng p \<le> fb_size p)"

definition fb_bytes :: "fmBytes \<Rightarrow> u8 list" where
  "fb_bytes p = take (nat (fb_leng p)) (case fb_buf p of None \<Rightarrow> [] | Some b \<Rightarrow> b)"

definition fa_ok :: "fmBytes_array \<Rightarrow> bool" where
  "fa_ok a \<longleftrightarrow> fa_size a = int (length (fa_array a)) \<and> 0 \<le> fa_cnt a \<and> fa_cnt a \<le> fa_size a"

definition fa_items :: "fmBytes_array \<Rightarrow> fmBytes option list" where
  "fa_items a = take (nat (fa_cnt a)) (fa_array a)"

text \<open>A buffer filled exactly by \<open>xs\<close>, as a loader or a parser builds it.\<close>

definition fb_of :: "u8 list \<Rightarrow> fmBytes" where
  "fb_of xs = \<lparr>fb_size = int (length xs), fb_leng = int (length xs), fb_buf = Some xs\<rparr>"

lemma fb_of_ok [simp]: "fb_ok (fb_of xs)"
  by (simp add: fb_ok_def fb_of_def)

lemma fb_bytes_of [simp]: "fb_bytes (fb_of xs) = xs"
  by (simp add: fb_bytes_def fb_of_def)

lemma fb_of_simps [simp]:
  "fb_size (fb_of xs) = int (length xs)"
  "fb_leng (fb_of xs) = int (length xs)"
  "fb_buf (fb_of xs) = Some xs"
  by (simp_all add: fb_of_def)

lemma fb_okE:
  assumes "fb_ok p"
  obtains b where "fb_buf p = Some b" "fb_size p = int (length b)"
    "0 \<le> fb_leng p" "nat (fb_leng p) \<le> length b" "fb_bytes p = take (nat (fb_leng p)) b"
  using assms by (auto simp: fb_ok_def fb_bytes_def split: option.splits)

lemma fb_bytes_length: "fb_ok p \<Longrightarrow> int (length (fb_bytes p)) = fb_leng p"
  by (erule fb_okE) simp

lemma fmBytes_alloc_ok:
  "fmBytes_alloc ok1 ok2 n = Some p \<Longrightarrow> fb_ok p \<and> fb_size p = n \<and> fb_bytes p = []"
  by (auto simp: fmBytes_alloc_def fb_ok_def fb_bytes_def split: if_splits)

lemma fmBytes_get_buf_simps [simp]:
  "fmBytes_get_buf None = None"
  "fmBytes_get_buf (Some q) = fb_buf q"
  by (simp_all add: fmBytes_get_buf_def)

lemma fmBytes_get_length_simps [simp]:
  "fmBytes_get_length (Some q) = Inr (fb_leng q)"
  "fmBytes_get_length None = Inl Null_Deref"
  by (simp_all add: fmBytes_get_length_def)

lemma fmBytes_get_size_simps [simp]:
  "fmBytes_get_size (Some q) = Inr (fb_size q)"
  "fmBytes_get_size None = Inl Null_Deref"
  by (simp_all add: fmBytes_get_size_def)

section \<open>Properties\<close>

lemma zeros_loop_ok:
  "0 \<le> off \<Longrightarrow> off + int n \<le> int (length b) \<Longrightarrow>
   zeros_loop b off n = Inr (\<forall>x \<in> set (take n (drop (nat off) b)). x = 0)"
proof (induction b off n rule: zeros_loop.induct)
  case (2 b off n)
  have *: "drop (nat off) b = b ! nat off # drop (Suc (nat off)) b"
    using "2.prems" by (simp add: Cons_nth_drop_Suc)
  have "rd b off = Inr (b ! nat off)" using "2.prems" by (simp add: rd_def)
  moreover have "nat (off + 1) = Suc (nat off)" using "2.prems" by simp
  ultimately show ?case using "2.IH" "2.prems" by (auto simp: *)
qed simp

lemma fb_bytes_drop:
  "fb_ok p \<Longrightarrow> 0 \<le> off \<Longrightarrow> 0 \<le> n \<Longrightarrow> off + n \<le> fb_leng p \<Longrightarrow>
   take (nat n) (drop (nat off) (the (fb_buf p))) = take (nat n) (drop (nat off) (fb_bytes p))"
  by (erule fb_okE) (simp add: take_drop nat_add_distrib [symmetric] min_def)

lemma fb_slice:
  "fb_ok p \<Longrightarrow> 0 \<le> off \<Longrightarrow> 0 \<le> n \<Longrightarrow> off + n \<le> fb_leng p \<Longrightarrow>
   rdn (the (fb_buf p)) off n = Inr (take (nat n) (drop (nat off) (fb_bytes p)))"
  using fb_bytes_drop [of p off n] by (auto simp: rdn_def elim!: fb_okE)

lemma fb_append:
  assumes "fb_ok d" and "fb_leng d + int (length xs) \<le> fb_size d"
  shows "\<exists>b'. wrn (the (fb_buf d)) (fb_leng d) xs = Inr b' \<and>
    fb_ok (d\<lparr>fb_buf := Some b', fb_leng := fb_leng d + int (length xs)\<rparr>) \<and>
    fb_bytes (d\<lparr>fb_buf := Some b', fb_leng := fb_leng d + int (length xs)\<rparr>) = fb_bytes d @ xs"
proof -
  obtain b where b: "fb_buf d = Some b" "fb_size d = int (length b)" "0 \<le> fb_leng d"
    using assms(1) by (auto elim!: fb_okE)
  then show ?thesis
    using assms(2) by (simp add: wrn_def fb_ok_def fb_bytes_def nat_add_distrib)
qed

text \<open>
  Copying \<open>len\<close> bytes from inside a well-formed source to the end of a well-formed
  destination never leaves either buffer. When the bytes fit, the destination stays well formed
  and its contents grow by exactly the copied slice; when they do not fit, or the source is too
  short, the call returns -1 and changes nothing.
\<close>

theorem fmBytes_copy_append:
  assumes "fb_ok d" and "fb_ok s" and "0 \<le> off" and "0 \<le> n"
  shows "if fb_leng d + n \<le> fb_size d \<and> off + n \<le> fb_leng s
    then \<exists>d'. fmBytes_copy (Some d) (fb_leng d) (Some s) off n = Inr (0, Some d') \<and>
      fb_ok d' \<and> fb_size d' = fb_size d \<and>
      fb_bytes d' = fb_bytes d @ take (nat n) (drop (nat off) (fb_bytes s))
    else fmBytes_copy (Some d) (fb_leng d) (Some s) off n = Inr (-1, Some d)"
proof (cases "fb_leng d + n \<le> fb_size d \<and> off + n \<le> fb_leng s")
  case True
  let ?xs = "take (nat n) (drop (nat off) (fb_bytes s))"
  have len: "int (length ?xs) = n"
    using True assms fb_bytes_length [of s] by (simp add: min_def) linarith
  obtain db sb where b: "fb_buf d = Some db" "fb_buf s = Some sb"
    using assms by (auto elim!: fb_okE)
  obtain b' where "wrn db (fb_leng d) ?xs = Inr b'"
    "fb_ok (d\<lparr>fb_buf := Some b', fb_leng := fb_leng d + n\<rparr>)"
    "fb_bytes (d\<lparr>fb_buf := Some b', fb_leng := fb_leng d + n\<rparr>) = fb_bytes d @ ?xs"
    using fb_append [of d ?xs] assms True len b by auto
  moreover have "rdn sb off n = Inr ?xs"
    using fb_slice [of s off n] assms True b by simp
  ultimately show ?thesis
    using True b by (simp add: fmBytes_copy_def)
next
  case False
  with assms show ?thesis
    by (auto elim!: fb_okE simp: fmBytes_copy_def)
qed

theorem fmBytes_copy_append_example:
  "\<exists>d'. fmBytes_copy (fmBytes_alloc True True 4) 0 (Some (fb_of [1, 2, 3])) 1 2 = Inr (0, Some d')
     \<and> fb_bytes d' = [2, 3]"
proof -
  let ?d = "\<lparr>fb_size = 4, fb_leng = 0, fb_buf = Some [0, 0, 0, 0]\<rparr> :: fmBytes"
  have d: "fmBytes_alloc True True 4 = Some ?d"
    by (simp add: fmBytes_alloc_def numeral_eq_Suc)
  have "fb_ok ?d" by (simp add: fb_ok_def)
  from fmBytes_copy_append [OF this, of "fb_of [1, 2, 3]" 1 2]
  show ?thesis by (auto simp: d fb_bytes_def numeral_eq_Suc)
qed

text \<open>
  For well-formed buffers and offsets inside the non-negative range, \<open>fmBytes_compare\<close> never
  leaves a buffer and answers exactly whether both slices exist and hold the same bytes.
\<close>

theorem fmBytes_compare_correct:
  assumes "fb_ok p" and "fb_ok q" and "0 \<le> i" and "0 \<le> j" and "0 \<le> n"
  shows "fmBytes_compare (Some p) i (Some q) j n =
    Inr (i + n \<le> fb_leng p \<and> j + n \<le> fb_leng q \<and>
         take (nat n) (drop (nat i) (fb_bytes p)) = take (nat n) (drop (nat j) (fb_bytes q)))"
proof -
  obtain bp bq where b: "fb_buf p = Some bp" "fb_buf q = Some bq"
    using assms by (auto elim!: fb_okE)
  show ?thesis
  proof (cases "i + n \<le> fb_leng p \<and> j + n \<le> fb_leng q")
    case True
    with assms b fb_slice [of p i n] fb_slice [of q j n] show ?thesis
      by (simp add: fmBytes_compare_def)
  next
    case False
    with b show ?thesis by (auto simp: fmBytes_compare_def)
  qed
qed

theorem fmBytes_compare_correct_example:
  "fmBytes_compare (Some (fb_of [1, 2, 0x90, 0])) 2 (Some (fb_of [0x90, 0])) 0 2 = Inr True"
  using fmBytes_compare_correct [of "fb_of [1, 2, 0x90, 0]" "fb_of [0x90, 0]" 2 0 2]
  by (simp add: numeral_eq_Suc)

section \<open>Reading an integer\<close>

lemma push_or_u8:
  "unat (push_bit 8 (ucast (x :: u8) :: u32) OR ucast (y :: u8)) = unat x * 256 + unat y"
proof -
  have "push_bit 8 (ucast x :: u32) AND ucast y = 0"
    by (rule bit_eqI) (auto simp: bit_simps dest: bit_imp_le_length)
  then have "push_bit 8 (ucast x :: u32) OR ucast y = push_bit 8 (ucast x) + ucast y"
    by (simp add: disjunctive_add_eq_or)
  moreover have "unat (push_bit 8 (ucast x :: u32) + ucast y) = unat x * 256 + unat y"
  proof -
    have "unat (ucast x :: u32) = unat x" "unat (ucast y :: u32) = unat y"
      using unat_u8_less [of x] unat_u8_less [of y] by (simp_all add: unsigned_ucast_eq take_bit_nat_eq_self)
    then show ?thesis
      using unat_u8_less [of x] unat_u8_less [of y]
      by (simp add: unat_word_ariths push_bit_eq_mult)
  qed
  ultimately show ?thesis by simp
qed

lemma ucast_u8_u32 [simp]: "unat (ucast (x :: u8) :: u32) = unat x"
  using unat_u8_less [of x] by (simp add: unsigned_ucast_eq take_bit_nat_eq_self)

lemma fb_ok_read:
  assumes "fb_ok p" and "fb_bytes p = xs"
  obtains r where "fb_buf p = Some (xs @ r)" "fb_leng p = int (length xs)"
proof -
  obtain b where b: "fb_buf p = Some b" "0 \<le> fb_leng p" "nat (fb_leng p) \<le> length b"
    "fb_bytes p = take (nat (fb_leng p)) b"
    using assms(1) by (auto elim!: fb_okE)
  have "b = xs @ drop (nat (fb_leng p)) b"
    using b(4) assms(2) append_take_drop_id [of "nat (fb_leng p)" b] by simp
  moreover have "fb_leng p = int (length xs)"
    using fb_bytes_length [OF assms(1)] assms(2) by simp
  ultimately show ?thesis using b(1) that by metis
qed

lemma rd_Cons_append [mem_simps]:
  "rd ((x # xs) @ r) 0 = Inr x"
  by (simp add: rd_def)

lemma toint_loop_1: "toint_loop (x # r) 0 1 ret = Inr (ret OR ucast x)"
  by (simp add: rd_def)

lemma toint_loop_2:
  "toint_loop (x # y # r) 0 2 ret = Inr (push_bit 8 (ret OR ucast x) OR ucast y)"
  by (simp add: numeral_2_eq_2 rd_def)

lemma toint_loop_4:
  "toint_loop (a # b # c # d # r) 0 4 ret =
     Inr (push_bit 24 (push_bit 16 (push_bit 8 (ret OR ucast a) OR ucast b) OR ucast c) OR ucast d)"
proof -
  have four: "(4::nat) = Suc (Suc (Suc (Suc 0)))" by simp
  show ?thesis unfolding four by (simp add: rd_def)
qed

text \<open>
  Started from a zero \<open>ret\<close>, \<open>fmBytes2intBE\<close> returns the big-endian value of a
  well-formed buffer of at most two bytes.
\<close>

theorem fmBytes2intBE_short:
  assumes "fb_ok p" and "length (fb_bytes p) \<le> 2"
  shows "\<exists>r. fmBytes2intBE 0 (Some p) = Inr r \<and> unat r = be_val (fb_bytes p)"
proof -
  obtain r where b: "fb_buf p = Some (fb_bytes p @ r)" "fb_leng p = int (length (fb_bytes p))"
    using fb_ok_read [OF assms(1) refl] by blast
  consider "fb_bytes p = []" | x where "fb_bytes p = [x]" | x y where "fb_bytes p = [x, y]"
    using assms(2) by (cases "fb_bytes p"; cases "tl (fb_bytes p)") auto
  then show ?thesis
  proof cases
    case 1 with b show ?thesis by (simp add: fmBytes2intBE_def)
  next
    case 2 with b toint_loop_1 [of x r 0] show ?thesis by (simp add: fmBytes2intBE_def)
  next
    case 3 with b show ?thesis
      by (simp add: fmBytes2intBE_def toint_loop_2 push_or_u8)
  qed
qed

theorem fmBytes2intBE_short_example:
  "\<exists>r. fmBytes2intBE 0 (Some (fb_of [1, 4])) = Inr r \<and> unat r = 260"
  using fmBytes2intBE_short [of "fb_of [1, 4]"] by simp

text \<open>
  On wider input the shift by \<open>i * 8\<close> in round \<open>i\<close> loses data: the result for four
  bytes depends only on the last two of them (the third lands in the top byte), whatever
  \<open>ret\<close> started as; with more than four bytes the answer is always all ones.
\<close>

theorem fmBytes2intBE_wide:
  assumes "fb_ok p" and "4 \<le> length (fb_bytes p)"
  shows "fmBytes2intBE ret (Some p) =
    Inr (if length (fb_bytes p) = 4
         then push_bit 24 (ucast (fb_bytes p ! 2)) OR ucast (fb_bytes p ! 3) else 0xFFFFFFFF)"
proof (cases "length (fb_bytes p) = 4")
  case False
  with assms fb_bytes_length [of p] show ?thesis by (simp add: fmBytes2intBE_def)
next
  case True
  then obtain a b c d where abcd: "fb_bytes p = [a, b, c, d]"
    by (auto simp: length_Suc_conv numeral_eq_Suc)
  with assms(1) obtain r where buf: "fb_buf p = Some (a # b # c # d # r)" "fb_leng p = 4"
    using fb_ok_read [of p "[a, b, c, d]"] by auto
  have "push_bit 24 (push_bit 16 (push_bit 8 (ret OR ucast a) OR ucast b) OR ucast c) =
      (push_bit 24 (ucast c) :: u32)"
    by (rule bit_eqI) (auto simp: bit_simps)
  with abcd buf show ?thesis
    by (simp add: fmBytes2intBE_def toint_loop_4)
qed

theorem fmBytes2intBE_wide_example:
  "fmBytes2intBE 7 (Some (fb_of [0, 0, 1, 4])) = Inr 0x1000004"
  using fmBytes2intBE_wide [of "fb_of [0, 0, 1, 4]" 7] by (simp add: push_bit_eq_mult)

section \<open>Growing an array\<close>

text \<open>
  Resizing a well-formed array keeps its elements in order and its count, never reads or
  writes outside either array, and gives at least the requested capacity when the allocations
  succeed.
\<close>

theorem fmBytes_array_resize_keeps:
  assumes "fa_ok a"
  shows "\<exists>a'. fmBytes_array_resize ok1 ok2 a n = Inr a' \<and> fa_ok a' \<and>
    fa_items a' = fa_items a \<and> fa_cnt a' = fa_cnt a \<and> (ok1 \<and> ok2 \<longrightarrow> n \<le> fa_size a')"
  using assms
  by (auto simp: fmBytes_array_resize_def fmBytes_array_alloc_def fa_ok_def fa_items_def rdn_def
      wrn_def)

theorem fmBytes_array_resize_keeps_example:
  "\<exists>a'. fmBytes_array_resize True True
      \<lparr>fa_size = 1, fa_cnt = 1, fa_array = [Some (fb_of [9])]\<rparr> 2 = Inr a' \<and>
     fa_items a' = [Some (fb_of [9])] \<and> 2 \<le> fa_size a'"
  using fmBytes_array_resize_keeps
    [of "\<lparr>fa_size = 1, fa_cnt = 1, fa_array = [Some (fb_of [9])]\<rparr>" True True 2]
  by (auto simp: fa_ok_def fa_items_def)

end
