(* ===== verification/Fm_Util.thy ===== *)
theory Fm_Util
  imports Fm_Bytes
begin

text \<open>
  \<open>common/fm_Util.c\<close>: searching and trimming of C strings, hexadecimal decoding, the
  length-prefix encoders used to build APDUs, the readers of A0/A1 tags, and the bit tricks.
  A pointer argument is a block; where the source passes \<open>buf + pos\<close> the block comes with an
  offset. Functions that write return the new block beside their result.
\<close>

section \<open>Searching\<close>

text \<open>The inner \<open>while\<close> of \<open>fm_strstr\<close>: it compares without looking at \<open>len\<close>.\<close>

function strstr_inner :: "u8 list \<Rightarrow> u8 list \<Rightarrow> int \<Rightarrow> nat \<Rightarrow> nat \<Rightarrow> bool res" where
  "strstr_inner str sub sub_len i j =
     bindR (rd str (int i)) (\<lambda>x. bindR (rd sub (int j)) (\<lambda>y.
       if x = y
       then (if int (Suc j) = sub_len then Inr True
             else strstr_inner str sub sub_len (Suc i) (Suc j))
       else Inr False))"
  by pat_completeness auto
termination
  by (relation "measure (\<lambda>(str, sub, sub_len, i, j). length str - i)")
    (auto simp: rd_def split: if_splits)

declare strstr_inner.simps [simp del]

function strstr_outer :: "u8 list \<Rightarrow> int \<Rightarrow> u8 list \<Rightarrow> int \<Rightarrow> nat \<Rightarrow> int option res" where
  "strstr_outer str len sub sub_len i =
     (if int i < len
      then bindR (strstr_inner str sub sub_len i 0) (\<lambda>found.
             if found then Inr (Some (int i)) else strstr_outer str len sub sub_len (Suc i))
      else Inr None)"
  by pat_completeness auto
termination
  by (relation "measure (\<lambda>(str, len, sub, sub_len, i). nat (len - int i))") auto

declare strstr_outer.simps [simp del]

definition fm_strstr :: "u8 list \<Rightarrow> int \<Rightarrow> u8 list \<Rightarrow> int \<Rightarrow> int option res" where
  "fm_strstr str len sub_str sub_len = strstr_outer str len sub_str sub_len 0"

text \<open>The loop of \<open>last_index_of\<close> runs from the terminator down and stops before the start.\<close>

fun last_index_loop :: "u8 list \<Rightarrow> u8 \<Rightarrow> nat \<Rightarrow> int res" where
  "last_index_loop str d 0 = Inr (-1)"
| "last_index_loop str d (Suc n) =
     bindR (rd str (int (Suc n))) (\<lambda>c.
       if c = d then Inr (int (Suc n)) else last_index_loop str d n)"

definition last_index_of :: "u8 list \<Rightarrow> u8 \<Rightarrow> int res" where
  "last_index_of str d = bindR (strlen str) (\<lambda>len. last_index_loop str d (nat len))"

section \<open>Trimming and substrings\<close>

function str_trim_loop :: "u8 list \<Rightarrow> nat \<Rightarrow> nat \<Rightarrow> u8 list res" where
  "str_trim_loop b p t =
     bindR (rd b (int p)) (\<lambda>c.
       if c = 0 then wr b (int t) 0
       else if c \<noteq> 0x20
       then bindR (wr b (int t) c) (\<lambda>b'. str_trim_loop b' (Suc p) (Suc t))
       else str_trim_loop b (Suc p) t)"
  by pat_completeness auto
termination
  by (relation "measure (\<lambda>(b, p, t). length b - p)")
    (auto simp: rd_def wr_def split: if_splits)

declare str_trim_loop.simps [simp del]

definition str_trim :: "u8 list \<Rightarrow> u8 list res" where
  "str_trim b = str_trim_loop b 0 0"

definition is_blank :: "u8 \<Rightarrow> bool" where
  "is_blank c \<longleftrightarrow> c = 0x20 \<or> c = 0x09 \<or> c = 0x0A"

function skip_blanks :: "u8 list \<Rightarrow> nat \<Rightarrow> nat res" where
  "skip_blanks b p =
     bindR (rd b (int p)) (\<lambda>c. if is_blank c then skip_blanks b (Suc p) else Inr p)"
  by pat_completeness auto
termination
  by (relation "measure (\<lambda>(b, p). length b - p)") (auto simp: rd_def split: if_splits)

declare skip_blanks.simps [simp del]

function shift_left :: "u8 list \<Rightarrow> nat \<Rightarrow> nat \<Rightarrow> (u8 list \<times> nat) res" where
  "shift_left b p q =
     bindR (rd b (int p)) (\<lambda>c.
       if c = 0 then Inr (b, q)
       else bindR (wr b (int q) c) (\<lambda>b'. shift_left b' (Suc p) (Suc q)))"
  by pat_completeness auto
termination
  by (relation "measure (\<lambda>(b, p, q). length b - p)")
    (auto simp: rd_def wr_def split: if_splits)

declare shift_left.simps [simp del]

function back_blanks :: "u8 list \<Rightarrow> int \<Rightarrow> int res" where
  "back_blanks b p =
     bindR (rd b p) (\<lambda>c. if is_blank c then back_blanks b (p - 1) else Inr p)"
  by pat_completeness auto
termination
  by (relation "measure (\<lambda>(b, p). nat (p + 1))") (auto simp: rd_def split: if_splits)

declare back_blanks.simps [simp del]

definition trim_lr :: "u8 list option \<Rightarrow> u8 list option res" where
  "trim_lr ptr = (case ptr of
     None \<Rightarrow> Inr None
   | Some b \<Rightarrow>
       bindR (skip_blanks b 0) (\<lambda>p.
       bindR (rd b (int p)) (\<lambda>c.
         if c = 0 then bindR (wr b 0 0) (\<lambda>b'. Inr (Some b'))
         else bindR (shift_left b p 0) (\<lambda>(b', q).
              bindR (back_blanks b' (int q - 1)) (\<lambda>e.
              bindR (wr b' (e + 1) 0) (\<lambda>b''. Inr (Some b'')))))))"

definition sub_str :: "u8 list \<Rightarrow> int \<Rightarrow> int \<Rightarrow> u8 list \<Rightarrow> (int \<times> u8 list) res" where
  "sub_str str start len dst =
     bindR (strlen str) (\<lambda>length.
       if start + len > length then Inr (-1, dst)
       else bindR (rdn str start len) (\<lambda>xs. bindR (wrn dst 0 xs) (\<lambda>dst'. Inr (0, dst'))))"

section \<open>Hexadecimal\<close>

text \<open>
  \<open>((in[i]-0x30)<<4)|(in[i+1]-0x30)\<close>, stored into a byte: only the low eight bits of the
  operands reach the result, so the arithmetic is done on bytes.
\<close>

definition hex_pair :: "u8 \<Rightarrow> u8 \<Rightarrow> u8" where
  "hex_pair hi lo = push_bit 4 (hi - 0x30) OR (lo - 0x30)"

function hex_loop :: "u8 list \<Rightarrow> u8 list \<Rightarrow> int \<Rightarrow> nat \<Rightarrow> u8 list res" where
  "hex_loop ib ob n i =
     (if int i < n
      then bindR (rd ib (int i)) (\<lambda>hi. bindR (rd ib (int i + 1)) (\<lambda>lo.
           bindR (wr ob (int (i div 2)) (hex_pair hi lo)) (\<lambda>ob'. hex_loop ib ob' n (i + 2))))
      else Inr ob)"
  by pat_completeness auto
termination
  by (relation "measure (\<lambda>(ib, ob, n, i). nat (n - int i))") auto

declare hex_loop.simps [simp del]

text \<open>Division by two as C rounds it, towards zero.\<close>

definition half :: "int \<Rightarrow> int" where
  "half n = (if n < 0 then - ((- n) div 2) else n div 2)"

definition str_2_hexstr :: "u8 list \<Rightarrow> u8 list \<Rightarrow> (int \<times> u8 list) res" where
  "str_2_hexstr inp out =
     bindR (strlen inp) (\<lambda>n. bindR (hex_loop inp out n 0) (\<lambda>out'. Inr (0, out')))"

text \<open>The lengths are read before the NULL test, so a NULL argument is followed.\<close>

definition hexstr_to_hex :: "fmBytes option \<Rightarrow> fmBytes option \<Rightarrow> (int \<times> fmBytes option) res" where
  "hexstr_to_hex hexstr out =
     bindR (fmBytes_get_length hexstr) (\<lambda>len_in.
     bindR (fmBytes_get_size out) (\<lambda>size_out.
       if size_out < half len_in then Inr (-1, out)
       else if len_in \<le> 0 then bindR (fmBytes_set_length out (half len_in)) (\<lambda>o'. Inr (0, Some o'))
       else bindR (deref (fmBytes_get_buf hexstr)) (\<lambda>ib.
            bindR (deref (fmBytes_get_buf out)) (\<lambda>ob.
            bindR (hex_loop ib ob len_in 0) (\<lambda>ob'.
            bindR (fmBytes_set_length (fmBytes_set_buf out (Some ob')) (half len_in)) (\<lambda>o'.
              Inr (0, Some o')))))))"

section \<open>Length prefixes\<close>

text \<open>
  \<open>des\<close> is the offset \<open>off\<close> of the block \<open>b\<close>. The length byte is the low byte of the length;
  the copy takes the whole length; the result is the byte read back, plus one.
\<close>

definition fmbytes_concat_with_len ::
  "u8 list \<Rightarrow> int \<Rightarrow> fmBytes option \<Rightarrow> (int \<times> u8 list) res"
where
  "fmbytes_concat_with_len b off src =
     (case src of
        None \<Rightarrow> bindR (wr b off 0) (\<lambda>b'. Inr (1, b'))
      | Some s \<Rightarrow>
          bindR (wr b off (of_int (fb_leng s))) (\<lambda>b'.
          bindR (deref (fb_buf s)) (\<lambda>sb.
          bindR (rdn sb 0 (fb_leng s)) (\<lambda>xs.
          bindR (wrn b' (off + 1) xs) (\<lambda>b''.
          bindR (rd b'' off) (\<lambda>l. Inr (uint l + 1, b'')))))))"

text \<open>A shift by 32 or more has no defined result; it is needed as soon as \<open>len_size > 4\<close>.\<close>

fun nlen_loop :: "u8 list \<Rightarrow> int \<Rightarrow> nat \<Rightarrow> int \<Rightarrow> nat \<Rightarrow> u8 list res" where
  "nlen_loop b off len_size len 0 = Inr b"
| "nlen_loop b off len_size len (Suc k) =
     (if 32 \<le> k * 8 then Inl Undefined
      else bindR (wr b (off + int (len_size - Suc k)) (of_int (drop_bit (k * 8) len AND 0xFF)))
             (\<lambda>b'. nlen_loop b' off len_size len k))"

definition fmbytes_concat_with_nlen ::
  "u8 list \<Rightarrow> int \<Rightarrow> u8 \<Rightarrow> fmBytes option \<Rightarrow> (int \<times> u8 list) res"
where
  "fmbytes_concat_with_nlen b off len_size src =
     bindR (fmBytes_get_length src) (\<lambda>len.
     bindR (nlen_loop b off (unat len_size) len (unat len_size)) (\<lambda>b'.
     bindR (deref (fmBytes_get_buf src)) (\<lambda>sb.
     bindR (rdn sb 0 len) (\<lambda>xs.
     bindR (wrn b' (off + uint len_size) xs) (\<lambda>b''. Inr (len + uint len_size, b''))))))"

text \<open>The \<open>do\<close>-\<open>while\<close> of \<open>get_BERLen\<close>: how many bytes the length takes.\<close>

function ber_count :: "u32 \<Rightarrow> nat" where
  "ber_count len = (let rest = drop_bit 8 len in if rest \<noteq> 0 then Suc (ber_count rest) else 1)"
  by pat_completeness auto
termination
proof (relation "measure unat")
  fix len rest :: u32
  assume r: "rest = drop_bit 8 len" and nz: "rest \<noteq> 0"
  have "unat rest = unat len div 256"
    by (simp add: r drop_bit_eq_div unat_div_distrib)
  moreover from nz have "unat rest \<noteq> 0" by (simp add: unat_eq_zero)
  ultimately show "(rest, len) \<in> measure unat" by simp
qed simp

declare ber_count.simps [simp del]

text \<open>The \<open>for\<close> loop: bytes \<open>i\<close> down to 1, least significant first.\<close>

fun ber_fill :: "u8 list \<Rightarrow> u32 \<Rightarrow> nat \<Rightarrow> u8 list res" where
  "ber_fill b len 0 = Inr b"
| "ber_fill b len (Suc i) =
     bindR (wr b (int (Suc i)) (ucast (len AND 0xFF))) (\<lambda>b'. ber_fill b' (drop_bit 8 len) i)"

definition get_BERLen :: "u32 \<Rightarrow> u8 list \<Rightarrow> (int \<times> u8 list) res" where
  "get_BERLen len berlen =
     (if len < 128 then bindR (wr berlen 0 (ucast len)) (\<lambda>b'. Inr (1, b'))
      else let LenFirst = ber_count len in
           bindR (wr berlen 0 (of_nat LenFirst + 128)) (\<lambda>b'.
           bindR (ber_fill b' len LenFirst) (\<lambda>b''. Inr (int LenFirst + 1, b''))))"

definition is_all_zero :: "u8 list \<Rightarrow> int \<Rightarrow> int \<Rightarrow> bool res" where
  "is_all_zero b off len = (if len \<le> 0 then Inr True else zeros_loop b off (nat len))"

definition int2byteBE :: "u32 \<Rightarrow> u8 list \<Rightarrow> (int \<times> u8 list) res" where
  "int2byteBE v b =
     bindR (wr b 0 (ucast (drop_bit 24 v AND 0xFF))) (\<lambda>b.
     bindR (wr b 1 (ucast (drop_bit 16 v AND 0xFF))) (\<lambda>b.
     bindR (wr b 2 (ucast (drop_bit 8 v AND 0xFF))) (\<lambda>b.
     bindR (wr b 3 (ucast (v AND 0xFF))) (\<lambda>b. Inr (4, b)))))"

section \<open>Integer-wise memory loops\<close>

text \<open>
  \<open>mem + i\<close> on a \<open>void *\<close> advances \<open>i\<close> bytes, while each access moves four: the bytes of an
  \<open>int\<close>, least significant first on the little-endian machines the program is built for.
\<close>

definition le_bytes :: "u32 \<Rightarrow> u8 list" where
  "le_bytes v = [ucast v, ucast (drop_bit 8 v), ucast (drop_bit 16 v), ucast (drop_bit 24 v)]"

function memset_int_loop :: "u8 list \<Rightarrow> u32 \<Rightarrow> int \<Rightarrow> nat \<Rightarrow> u8 list res" where
  "memset_int_loop mem val len i =
     (if int i < len
      then bindR (wrn mem (int i) (le_bytes val)) (\<lambda>mem'. memset_int_loop mem' val len (Suc i))
      else Inr mem)"
  by pat_completeness auto
termination
  by (relation "measure (\<lambda>(mem, val, len, i). nat (len - int i))") auto

declare memset_int_loop.simps [simp del]

definition memset_int :: "u8 list \<Rightarrow> u32 \<Rightarrow> int \<Rightarrow> u8 list res" where
  "memset_int mem val len = memset_int_loop mem val len 0"

text \<open>Despite its parameter names, \<open>memcpy_int(src, des, len)\<close> writes \<open>src\<close> and reads \<open>des\<close>.
  The two blocks do not overlap.\<close>

function memcpy_int_loop :: "u8 list \<Rightarrow> u8 list \<Rightarrow> int \<Rightarrow> nat \<Rightarrow> u8 list res" where
  "memcpy_int_loop src des len i =
     (if int i < len
      then bindR (rdn des (int i) 4) (\<lambda>x.
           bindR (wrn src (int i) x) (\<lambda>src'. memcpy_int_loop src' des len (Suc i)))
      else Inr src)"
  by pat_completeness auto
termination
  by (relation "measure (\<lambda>(src, des, len, i). nat (len - int i))") auto

declare memcpy_int_loop.simps [simp del]

definition memcpy_int :: "u8 list \<Rightarrow> u8 list \<Rightarrow> int \<Rightarrow> u8 list res" where
  "memcpy_int src des len = memcpy_int_loop src des len 0"

section \<open>A0/A1 tags\<close>

text \<open>\<open>p\<close> is the offset of the tag in the block.\<close>

definition get_Tag_Ax_len :: "u8 list \<Rightarrow> int \<Rightarrow> int res" where
  "get_Tag_Ax_len b p =
     bindR (rd b (p + 1)) (\<lambda>x.
       if x = 0xFF
       then bindR (rd b (p + 2)) (\<lambda>hi. bindR (rd b (p + 3)) (\<lambda>lo. Inr (uint hi * 256 + uint lo)))
       else Inr (uint x))"

definition skip_Tag_Ax :: "u8 list \<Rightarrow> int \<Rightarrow> int res" where
  "skip_Tag_Ax b p = bindR (rd b (p + 1)) (\<lambda>x. Inr (if x = 0xFF then p + 4 else p + 2))"

section \<open>Bit searches\<close>

text \<open>
  The additions of \<open>GetUnUseMem\<close> bind tighter than the \<open>&\<close> beside them, and so do the shifts
  in its last line; the parentheses below are the ones C puts.
\<close>

definition GetUnUseMem :: "u32 \<Rightarrow> u32" where
  "GetUnUseMem UseMask =
     (let i0 = UseMask;
          i1 = (i0 - 1) AND NOT i0;
          i2 = i1 AND (0x55555555 + drop_bit 1 i1) AND 0x55555555;
          i3 = i2 AND (0x33333333 + drop_bit 2 i2) AND 0x33333333;
          i4 = i3 AND (0x0F0F0F0F + drop_bit 4 i3) AND 0x0F0F0F0F
      in i4 AND (0xFF + (i4 AND drop_bit 8 0xFF00) + (i4 AND drop_bit 16 0xFF0000) +
                 (i4 AND drop_bit 24 0xFF000000)))"

text \<open>\<open>x\<close> is a signed \<open>int\<close>, so \<open>>>\<close> copies the sign bit.\<close>

definition ffs_step :: "u32 \<Rightarrow> nat \<Rightarrow> u32 \<times> int \<Rightarrow> u32 \<times> int" where
  "ffs_step m k s =
     (case s of (x, r) \<Rightarrow> if x AND m = 0 then (signed_drop_bit k x, r + int k) else (x, r))"

definition generic_ffs :: "u32 \<Rightarrow> int" where
  "generic_ffs x =
     (if x = 0 then 0
      else snd (ffs_step 1 1 (ffs_step 3 2 (ffs_step 0xf 4 (ffs_step 0xff 8
             (ffs_step 0xffff 16 (x, 1)))))))"

section \<open>File names\<close>

definition get_filename_from_path ::
  "u8 list option \<Rightarrow> u8 list option \<Rightarrow> int \<Rightarrow> (int \<times> u8 list option) res"
where
  "get_filename_from_path path name sz =
     (case (path, name) of
        (Some p, Some nm) \<Rightarrow>
          bindR (last_index_of p 0x2F) (\<lambda>index.
          bindR (strlen p) (\<lambda>len.
            if index = -1
            then (if len > sz then Inr (-1, name)
                  else bindR (rdn p 0 (len + 1)) (\<lambda>xs.
                       bindR (wrn nm 0 xs) (\<lambda>nm'. Inr (0, Some nm'))))
            else (if len - (index + 1) > sz then Inr (-1, name)
                  else bindR (rdn p (index + 1) (len - (index + 1))) (\<lambda>xs.
                       bindR (wrn nm 0 xs) (\<lambda>nm'. Inr (0, Some nm'))))))
      | _ \<Rightarrow> Inr (-1, name))"

section \<open>Properties of the searches\<close>

lemma strstr_inner_ok:
  "i + length sub - j \<le> length str \<Longrightarrow> j < length sub \<Longrightarrow>
   strstr_inner str sub (int (length sub)) i j =
     Inr (take (length sub - j) (drop i str) = drop j sub)"
proof (induction str sub "int (length sub)" i j rule: strstr_inner.induct)
  case (1 str sub i j)
  have i: "i < length str" using "1.prems" by linarith
  then have di: "drop i str = str ! i # drop (Suc i) str" by (simp add: Cons_nth_drop_Suc)
  have dj: "drop j sub = sub ! j # drop (Suc j) sub"
    using "1.prems" by (simp add: Cons_nth_drop_Suc)
  have r: "rd str (int i) = Inr (str ! i)" "rd sub (int j) = Inr (sub ! j)"
    using i "1.prems" by (simp_all add: rd_nat)
  have l: "length sub - j = Suc (length sub - Suc j)" using "1.prems" by linarith
  show ?case
  proof (cases "str ! i = sub ! j")
    case False
    then show ?thesis by (subst strstr_inner.simps) (simp add: r di dj l)
  next
    case True
    show ?thesis
    proof (cases "Suc j = length sub")
      case True
      then show ?thesis using \<open>str ! i = sub ! j\<close>
        by (subst strstr_inner.simps) (simp add: r di dj l)
    next
      case False
      then have "strstr_inner str sub (int (length sub)) (Suc i) (Suc j) =
          Inr (take (length sub - Suc j) (drop (Suc i) str) = drop (Suc j) sub)"
        using "1.hyps" [OF r True] "1.prems" by simp
      then show ?thesis using True False
        by (subst strstr_inner.simps) (simp add: r di dj l)
    qed
  qed
qed

lemma strstr_outer_ok:
  "sub \<noteq> [] \<Longrightarrow> len + int (length sub) - 1 \<le> int (length str) \<Longrightarrow>
   strstr_outer str len sub (int (length sub)) i =
     Inr (map_option int (find (\<lambda>k. take (length sub) (drop k str) = sub) [i..<nat len]))"
proof (induction str len sub "int (length sub)" i rule: strstr_outer.induct)
  case (1 str len sub i)
  show ?case
  proof (cases "int i < len")
    case False
    then show ?thesis by (subst strstr_outer.simps) simp
  next
    case True
    then have "i + length sub \<le> length str" "0 < length sub" using "1.prems" by auto
    then have inner: "strstr_inner str sub (int (length sub)) i 0 =
        Inr (take (length sub) (drop i str) = sub)"
      using strstr_inner_ok [of i sub 0 str] by simp
    have up: "[i..<nat len] = i # [Suc i..<nat len]" using True by (simp add: upt_conv_Cons)
    show ?thesis
      using True "1.hyps" [OF True inner] "1.prems"
      by (subst strstr_outer.simps) (auto simp: inner up)
  qed
qed

text \<open>
  When the block extends far enough for a comparison that starts at the last searched
  position, \<open>fm_strstr\<close> with a non-empty pattern never leaves a block and returns the least
  position below \<open>len\<close> at which the pattern occurs, NULL if there is none.
\<close>

theorem fm_strstr_finds_first:
  assumes "sub \<noteq> []" and "len + int (length sub) - 1 \<le> int (length str)"
  shows "fm_strstr str len sub (int (length sub)) =
    Inr (map_option int (find (\<lambda>k. take (length sub) (drop k str) = sub) [0..<nat len]))"
  using strstr_outer_ok [OF assms, of 0] by (simp add: fm_strstr_def)

theorem fm_strstr_finds_first_example:
  "fm_strstr [1, 0x66, 2, 0x66, 0x10, 0] 5 [0x66, 0x10] 2 = Inr (Some 3)"
  using fm_strstr_finds_first [of "[0x66, 0x10]" 5 "[1, 0x66, 2, 0x66, 0x10, 0]"]
  by (simp add: upt_rec)

lemma last_index_loop_ok:
  "n < length b \<Longrightarrow> last_index_loop b d n =
     (let ks = filter (\<lambda>k. b ! k = d) [1..<Suc n]
      in Inr (if ks = [] then -1 else int (last ks)))"
  by (induction n) (auto simp: Let_def rd_nat simp del: of_nat_Suc)

lemma last_index_of_filter:
  assumes "0 \<notin> set s"
  shows "last_index_of (s @ 0 # rest) d =
    (let ks = filter (\<lambda>k. (s @ [0]) ! k = d) [1..<Suc (length s)]
     in Inr (if ks = [] then -1 else int (last ks)))"
proof -
  have "filter (\<lambda>k. (s @ 0 # rest) ! k = d) [1..<Suc (length s)] =
      filter (\<lambda>k. (s @ [0]) ! k = d) [1..<Suc (length s)]"
    by (rule filter_cong) (auto simp: nth_append)
  then show ?thesis
    using assms last_index_loop_ok [of "length s" "s @ 0 # rest" d]
    by (simp add: last_index_of_def)
qed

text \<open>
  For a NUL-terminated string \<open>last_index_of\<close> returns the greatest index of the character
  among positions 1 to the terminator, and -1 when it occurs at none of them: the first position
  is not searched.
\<close>

theorem last_index_of_correct:
  assumes "0 \<notin> set s"
  shows "last_index_of (s @ 0 # rest) d =
    (let ks = filter (\<lambda>k. (s @ [0]) ! k = d) [1..<Suc (length s)]
     in Inr (if ks = [] then -1 else int (last ks)))"
  using assms by (rule last_index_of_filter)

theorem last_index_of_correct_example:
  "last_index_of ([0x2F, 0x61] @ 0 # []) 0x2F = Inr (-1)"
  using last_index_of_correct [of "[0x2F, 0x61]" "[]" "0x2F"]
  by (simp add: upt_rec)

lemma last_index_loop_at:
  "1 \<le> k \<Longrightarrow> k \<le> n \<Longrightarrow> n < length b \<Longrightarrow> b ! k = d \<Longrightarrow>
   (\<And>i. k < i \<Longrightarrow> i \<le> n \<Longrightarrow> b ! i \<noteq> d) \<Longrightarrow> last_index_loop b d n = Inr (int k)"
proof (induction n)
  case (Suc n)
  show ?case
  proof (cases "k = Suc n")
    case True
    with Suc.prems show ?thesis by (simp del: of_nat_Suc add: rd_nat)
  next
    case False
    then have "last_index_loop b d n = Inr (int k)" using Suc by auto
    moreover have "b ! Suc n \<noteq> d" using Suc.prems False by simp
    ultimately show ?thesis using Suc.prems by (simp del: of_nat_Suc add: rd_nat)
  qed
qed simp

lemma last_index_of_split:
  assumes "a \<noteq> []" and "0 \<notin> set (a @ d # f)" and "d \<notin> set f"
  shows "last_index_of (a @ d # f @ 0 # rest) d = Inr (int (length a))"
proof -
  let ?b = "a @ d # f @ 0 # rest"
  have "?b ! i \<noteq> d" if "length a < i" "i \<le> length a + Suc (length f)" for i
  proof -
    obtain j where j: "i = Suc (length a + j)"
      using less_imp_Suc_add [OF \<open>length a < i\<close>] by blast
    then have "?b ! i = (f @ 0 # rest) ! j" "j \<le> length f" using that by (simp_all add: nth_append)
    then show ?thesis using assms(2,3)
      by (cases "j < length f") (auto simp: nth_append dest: nth_mem)
  qed
  moreover have "strlen ?b = Inr (int (length a + Suc (length f)))"
    using strlen_append [of "a @ d # f" rest] assms(2) by simp
  moreover have "1 \<le> length a" using assms(1) by (simp add: Suc_le_eq)
  ultimately have "last_index_loop ?b d (length a + Suc (length f)) = Inr (int (length a))"
    by (intro last_index_loop_at) auto
  moreover have "last_index_of ?b d = last_index_loop ?b d (length a + Suc (length f))"
    unfolding last_index_of_def \<open>strlen ?b = _\<close> by (simp only: bindR_simps nat_int)
  ultimately show ?thesis by simp
qed

text \<open>
  For a path \<open>dir/file\<close> whose directory part is not empty, the bytes of the file name, and
  nothing else, are written at the start of the name buffer when they fit \<open>size\<close>; otherwise the
  call returns -1 and writes nothing.
\<close>

theorem get_filename_from_path_base:
  assumes "dir \<noteq> []" and "0 \<notin> set (dir @ 0x2F # file)" and "0x2F \<notin> set file"
    and "sz \<le> int (length name)"
  shows "get_filename_from_path (Some (dir @ 0x2F # file @ 0 # rest)) (Some name) sz =
    (if int (length file) \<le> sz then Inr (0, Some (file @ drop (length file) name))
     else Inr (-1, Some name))"
proof -
  let ?p = "dir @ 0x2F # file @ 0 # rest"
  have "last_index_of ?p 0x2F = Inr (int (length dir))"
    by (rule last_index_of_split [OF assms(1-3)])
  moreover have "strlen ?p = Inr (int (length dir + Suc (length file)))"
    using strlen_append [of "dir @ 0x2F # file" rest] assms(2) by simp
  moreover have "rdn ?p (int (length dir) + 1) (int (length file)) = Inr file"
    by (simp add: rdn_def nat_add_distrib)
  ultimately show ?thesis
    using assms(4) by (simp add: get_filename_from_path_def wrn_def)
qed

theorem get_filename_from_path_base_example:
  "get_filename_from_path (Some ([0x2E] @ 0x2F # [0x61, 0x62] @ 0 # [])) (Some [0, 0, 0, 0]) 4 =
     Inr (0, Some [0x61, 0x62, 0, 0])"
  using get_filename_from_path_base [of "[0x2E]" "[0x61, 0x62]" 4 "[0, 0, 0, 0]" "[]"] by simp

text \<open>
  A path without any slash whose length equals \<open>size\<close> passes the length test, but copying it
  with its terminator into a buffer of \<open>size\<close> bytes leaves the buffer by one byte.
\<close>

theorem get_filename_from_path_overflow:
  assumes "0 \<notin> set s" and "0x2F \<notin> set s" and "length name = length s"
  shows "get_filename_from_path (Some (s @ 0 # rest)) (Some name) (int (length name)) =
    Inl Out_Of_Bounds"
proof -
  have "last_index_of (s @ 0 # rest) 0x2F = Inr (-1)"
  proof -
    have "(s @ [0]) ! k \<noteq> 0x2F" if "k \<le> length s" for k
      using that assms(2) by (cases "k < length s") (auto simp: nth_append dest: nth_mem)
    then have "filter (\<lambda>k. (s @ [0]) ! k = 0x2F) [1..<Suc (length s)] = []"
      by (simp add: filter_empty_conv del: upt_Suc)
    then show ?thesis
      using last_index_of_filter [OF assms(1), of rest "0x2F"] by (simp add: Let_def)
  qed
  then show ?thesis
    using assms by (simp add: get_filename_from_path_def rdn_def wrn_def)
qed

theorem get_filename_from_path_overflow_example:
  "get_filename_from_path (Some ([0x61, 0x62] @ 0 # [])) (Some [0, 0]) 2 = Inl Out_Of_Bounds"
  using get_filename_from_path_overflow [of "[0x61, 0x62]" "[0, 0]" "[]"] by simp

section \<open>Properties of the trimming loops\<close>

lemma str_trim_loop_ok:
  "0 \<notin> set s \<Longrightarrow> t \<le> p \<Longrightarrow> drop p b = s @ 0 # r \<Longrightarrow>
   \<exists>b'. str_trim_loop b p t = Inr b' \<and> length b' = length b \<and>
     take (Suc (t + length (filter (\<lambda>c. c \<noteq> 0x20) s))) b' =
       take t b @ filter (\<lambda>c. c \<noteq> 0x20) s @ [0]"
proof (induction s arbitrary: b p t)
  case Nil
  then have d: "drop p b = 0 # r" by simp
  note rd = rd_drop [OF d]
  from Nil rd(2) show ?case
    by (subst str_trim_loop.simps) (simp add: rd(1) wr_nat take_update_last)
next
  case (Cons c s)
  then have d: "drop p b = c # s @ 0 # r" by simp
  note rd = rd_drop [OF d]
  have c: "c \<noteq> 0" "0 \<notin> set s" using Cons.prems by auto
  show ?case
  proof (cases "c = 0x20")
    case True
    then show ?thesis using Cons.IH [of t "Suc p" b] Cons.prems c rd
      by (subst str_trim_loop.simps) simp
  next
    case False
    let ?b = "b[t := c]"
    have "drop (Suc p) ?b = s @ 0 # r" using rd(3) Cons.prems by simp
    then obtain b' where "str_trim_loop ?b (Suc p) (Suc t) = Inr b'" "length b' = length b"
      "take (Suc (Suc t + length (filter (\<lambda>c. c \<noteq> 0x20) s))) b' =
        take (Suc t) ?b @ filter (\<lambda>c. c \<noteq> 0x20) s @ [0]"
      using Cons.IH [of "Suc t" "Suc p" ?b] Cons.prems c by auto
    moreover have "t < length b" using rd(2) Cons.prems by simp
    ultimately show ?thesis using False c
      by (subst str_trim_loop.simps) (simp add: rd(1) wr_nat take_update_last)
  qed
qed

text \<open>
  \<open>str_trim\<close> removes exactly the spaces of a NUL-terminated string, in place and inside the
  block.
\<close>

theorem str_trim_removes_spaces:
  assumes "0 \<notin> set s"
  shows "\<exists>b. str_trim (s @ 0 # rest) = Inr b \<and> length b = length (s @ 0 # rest) \<and>
    cstr b = filter (\<lambda>c. c \<noteq> 0x20) s"
proof -
  obtain b where b: "str_trim (s @ 0 # rest) = Inr b" "length b = length (s @ 0 # rest)"
    "take (Suc (length (filter (\<lambda>c. c \<noteq> 0x20) s))) b = filter (\<lambda>c. c \<noteq> 0x20) s @ [0]"
    using str_trim_loop_ok [of s 0 0 "s @ 0 # rest" rest] assms by (auto simp: str_trim_def)
  moreover from assms have "0 \<notin> set (filter (\<lambda>c. c \<noteq> 0x20) s)" by auto
  ultimately show ?thesis using cstr_take by blast
qed

theorem str_trim_removes_spaces_example:
  "\<exists>b. str_trim ([0x20, 0x31, 0x20, 0x32] @ 0 # []) = Inr b \<and> cstr b = [0x31, 0x32]"
  using str_trim_removes_spaces [of "[0x20, 0x31, 0x20, 0x32]" "[]"] by auto

text \<open>The string without the blanks at its ends.\<close>

definition stripped :: "u8 list \<Rightarrow> u8 list" where
  "stripped s = rev (dropWhile is_blank (rev (dropWhile is_blank s)))"

lemma not_blank_0 [simp]: "\<not> is_blank 0"
  by (simp add: is_blank_def)

lemma skip_blanks_ok:
  "drop p b = s @ 0 # r \<Longrightarrow> skip_blanks b p = Inr (p + length (takeWhile is_blank s))"
proof (induction s arbitrary: p)
  case Nil
  then show ?case using rd_drop(1) [of p b 0 r] by (subst skip_blanks.simps) simp
next
  case (Cons c s)
  then have d: "drop p b = c # s @ 0 # r" by simp
  show ?case using Cons.IH [of "Suc p"] rd_drop [OF d] by (subst skip_blanks.simps) simp
qed

lemma shift_left_ok:
  "0 \<notin> set s \<Longrightarrow> q \<le> p \<Longrightarrow> drop p b = s @ 0 # r \<Longrightarrow>
   \<exists>b'. shift_left b p q = Inr (b', q + length s) \<and> length b' = length b \<and>
     take (q + length s) b' = take q b @ s"
proof (induction s arbitrary: b p q)
  case Nil
  then show ?case using rd_drop(1) [of p b 0 r] by (subst shift_left.simps) simp
next
  case (Cons c s)
  then have d: "drop p b = c # s @ 0 # r" by simp
  note rd = rd_drop [OF d]
  let ?b = "b[q := c]"
  have "drop (Suc p) ?b = s @ 0 # r" using rd(3) Cons.prems by simp
  then obtain b' where "shift_left ?b (Suc p) (Suc q) = Inr (b', Suc q + length s)"
    "length b' = length b" "take (Suc q + length s) b' = take (Suc q) ?b @ s"
    using Cons.IH [of "Suc q" "Suc p" ?b] Cons.prems by auto
  moreover have "q < length b" using rd(2) Cons.prems by simp
  ultimately show ?case using Cons.prems
    by (subst shift_left.simps) (simp add: rd(1) wr_nat take_update_last)
qed

lemma back_blanks_ok:
  "take (length s) b = s \<Longrightarrow> \<exists>x \<in> set s. \<not> is_blank x \<Longrightarrow>
   back_blanks b (int (length s) - 1) = Inr (int (length (dropWhile is_blank (rev s))) - 1)"
proof (induction s rule: rev_induct)
  case (snoc x s)
  have len: "length s < length b"
    using snoc.prems(1) arg_cong [of _ _ length] by (fastforce simp: min_def split: if_splits)
  have "b ! length s = take (Suc (length s)) b ! length s" by simp
  also have "take (Suc (length s)) b = s @ [x]" using snoc.prems(1) by simp
  finally have x: "rd b (int (length s)) = Inr x" using len by (simp add: rd_nat)
  have "take (length s) b = take (length s) (take (Suc (length s)) b)" by simp
  also have "\<dots> = s" using snoc.prems(1) by simp
  finally have s: "take (length s) b = s" .
  show ?case using snoc.IH [OF s] snoc.prems(2) x
    by (subst back_blanks.simps) auto
qed simp

lemma prefix_of_rev_dropWhile:
  "take (length (dropWhile P (rev s))) s = rev (dropWhile P (rev s))"
proof -
  have "s = rev (dropWhile P (rev s)) @ rev (takeWhile P (rev s))"
    by (metis rev_append rev_rev_ident takeWhile_dropWhile_id)
  then show ?thesis by (metis append_eq_conv_conj length_rev)
qed

text \<open>
  \<open>trim_lr\<close> removes the blanks (space, tab, newline) from both ends of a NUL-terminated
  string, in place and inside the block; an all-blank string becomes empty, and a NULL pointer is
  left alone.
\<close>

theorem trim_lr_strips:
  assumes "0 \<notin> set s"
  shows "trim_lr None = Inr None \<and>
    (\<exists>b. trim_lr (Some (s @ 0 # rest)) = Inr (Some b) \<and> length b = length (s @ 0 # rest) \<and>
      cstr b = stripped s)"
proof -
  let ?b = "s @ 0 # rest" and ?s = "dropWhile is_blank s"
  let ?p = "length (takeWhile is_blank s)"
  have skip: "skip_blanks ?b 0 = Inr ?p" using skip_blanks_ok [of 0 ?b s rest] by simp
  have split: "?b = takeWhile is_blank s @ ?s @ 0 # rest"
    using takeWhile_dropWhile_id [of is_blank s] by (metis append_assoc)
  then have dp: "drop ?p ?b = ?s @ 0 # rest" by (metis append_eq_conv_conj)
  have z: "0 \<notin> set ?s" using assms set_dropWhileD by fastforce
  have "\<exists>b. trim_lr (Some ?b) = Inr (Some b) \<and> length b = length ?b \<and> cstr b = stripped s"
  proof (cases ?s)
    case Nil
    then have "rd ?b (int ?p) = Inr 0" using dp rd_drop(1) [of ?p ?b 0 rest] by simp
    moreover have "stripped s = []" unfolding stripped_def Nil by simp
    ultimately show ?thesis
      by (simp add: trim_lr_def skip wr_def) (cases s, auto simp: cstr_def)
  next
    case (Cons c s')
    then have nb: "\<not> is_blank c" using hd_dropWhile [of is_blank s] by auto
    have c: "rd ?b (int ?p) = Inr c" "c \<noteq> 0"
      using dp Cons rd_drop(1) [of ?p ?b c "s' @ 0 # rest"] z by auto
    obtain b1 where b1: "shift_left ?b ?p 0 = Inr (b1, length ?s)" "length b1 = length ?b"
      "take (length ?s) b1 = ?s"
      using shift_left_ok [OF z _ dp, of 0] by auto
    let ?e = "length (dropWhile is_blank (rev ?s))"
    have bb: "back_blanks b1 (int (length ?s) - 1) = Inr (int ?e - 1)"
      using back_blanks_ok [OF b1(3)] nb Cons by auto
    have e: "?e \<le> length ?s" using length_dropWhile_le [of is_blank "rev ?s"] by simp
    also have "\<dots> < length ?b" using length_dropWhile_le [of is_blank s] by simp
    finally have eb: "?e < length b1" by (simp add: b1(2))
    let ?b2 = "b1[?e := 0]"
    have "take ?e b1 = take ?e ?s" using b1(3) e by (metis min.absorb1 take_take)
    then have "take ?e b1 = stripped s"
      by (simp add: prefix_of_rev_dropWhile stripped_def)
    then have "take (Suc (length (stripped s))) ?b2 = stripped s @ [0]"
      using eb by (simp add: take_update_last stripped_def)
    moreover have "0 \<notin> set (stripped s)"
      using z by (auto simp: stripped_def dest: set_dropWhileD)
    ultimately have "cstr ?b2 = stripped s" by (rule cstr_take)
    moreover have "trim_lr (Some ?b) = Inr (Some ?b2)"
      using eb by (simp add: trim_lr_def skip c b1(1) bb wr_nat)
    ultimately show ?thesis by (simp add: b1(2))
  qed
  then show ?thesis by (simp add: trim_lr_def)
qed

theorem trim_lr_strips_example:
  "\<exists>b. trim_lr (Some ([0x09, 0x61, 0x20, 0x62, 0x0A] @ 0 # [])) = Inr (Some b) \<and>
     cstr b = [0x61, 0x20, 0x62]"
  using trim_lr_strips [of "[0x09, 0x61, 0x20, 0x62, 0x0A]" "[]"]
  by (auto simp: stripped_def is_blank_def)

section \<open>Properties of the hexadecimal decoder\<close>

text \<open>Two-digit decimal-coded bytes, as the scripts write them.\<close>

fun bcd_decode :: "u8 list \<Rightarrow> u8 list" where
  "bcd_decode (hi # lo # xs) = hex_pair hi lo # bcd_decode xs"
| "bcd_decode _ = []"

lemma length_bcd_decode: "length (bcd_decode xs) = length xs div 2"
  by (induction xs rule: bcd_decode.induct) auto

lemma bcd_decode_snoc2:
  "even (length xs) \<Longrightarrow> bcd_decode (xs @ [hi, lo]) = bcd_decode xs @ [hex_pair hi lo]"
  by (induction xs rule: bcd_decode.induct) auto

lemma hex_loop_ok:
  "even n \<Longrightarrow> n \<le> length ib \<Longrightarrow> n div 2 \<le> length ob \<Longrightarrow> even i \<Longrightarrow> i \<le> n \<Longrightarrow>
   take (i div 2) ob = bcd_decode (take i ib) \<Longrightarrow>
   \<exists>ob'. hex_loop ib ob (int n) i = Inr ob' \<and> length ob' = length ob \<and>
     take (n div 2) ob' = bcd_decode (take n ib) \<and> drop (n div 2) ob' = drop (n div 2) ob"
proof (induction ib ob "int n" i rule: hex_loop.induct)
  case (1 ib ob i)
  show ?case
  proof (cases "i < n")
    case False
    then show ?thesis using "1.prems" by (subst hex_loop.simps) simp
  next
    case True
    then have i: "Suc i < n" "i div 2 < n div 2" "Suc i < length ib" "i div 2 < length ob"
      using "1.prems" by (auto elim!: evenE)
    let ?hi = "ib ! i" and ?lo = "ib ! Suc i"
    have r: "rd ib (int i) = Inr ?hi" "rd ib (int i + 1) = Inr ?lo"
      using i by (simp_all add: rd_def nat_add_distrib)
    let ?ob = "ob[i div 2 := hex_pair ?hi ?lo]"
    have w: "wr ob (int (i div 2)) (hex_pair ?hi ?lo) = Inr ?ob" using i by (simp only: wr_nat)
    have "take (i + 2) ib = take i ib @ [?hi, ?lo]"
      using i by (simp add: take_Suc_conv_app_nth)
    then have "take ((i + 2) div 2) ?ob = bcd_decode (take (i + 2) ib)"
      using "1.prems" i by (simp add: take_update_last bcd_decode_snoc2)
    then obtain ob' where "hex_loop ib ?ob (int n) (i + 2) = Inr ob'" "length ob' = length ob"
      "take (n div 2) ob' = bcd_decode (take n ib)" "drop (n div 2) ob' = drop (n div 2) ob"
      using "1.hyps" [OF _ r w] True "1.prems" i by (auto simp: not_less)
    then show ?thesis using True r w by (subst hex_loop.simps) simp
  qed
qed

text \<open>
  For an even number of hexadecimal digits and an output buffer that is large enough,
  \<open>hexstr_to_hex\<close> succeeds, stays inside both buffers, and leaves a well-formed buffer that
  holds one byte per digit pair.
\<close>

theorem hexstr_to_hex_even:
  assumes "fb_ok hex" and "fb_ok out" and "even (length (fb_bytes hex))"
    and "int (length (fb_bytes hex) div 2) \<le> fb_size out"
  shows "\<exists>out'. hexstr_to_hex (Some hex) (Some out) = Inr (0, Some out') \<and> fb_ok out' \<and>
    fb_size out' = fb_size out \<and> fb_bytes out' = bcd_decode (fb_bytes hex)"
proof -
  obtain xs where xs: "fb_bytes hex = xs" by blast
  let ?n = "length xs"
  obtain r where ib: "fb_buf hex = Some (xs @ r)" "fb_leng hex = int ?n"
    using fb_ok_read [OF assms(1) xs] by blast
  obtain ob where ob: "fb_buf out = Some ob" "fb_size out = int (length ob)"
    using assms(2) by (auto elim!: fb_okE)
  have half: "half (int ?n) = int (?n div 2)" by (simp add: half_def zdiv_int)
  show ?thesis
  proof (cases "?n = 0")
    case True
    have "hexstr_to_hex (Some hex) (Some out) = Inr (0, Some (out\<lparr>fb_leng := 0\<rparr>))"
      using True ib(2) ob by (simp add: hexstr_to_hex_def fmBytes_set_length_def half_def)
    moreover have "fb_bytes (out\<lparr>fb_leng := 0\<rparr>) = []" by (simp add: fb_bytes_def)
    moreover have "fb_ok (out\<lparr>fb_leng := 0\<rparr>)" using ob by (simp add: fb_ok_def)
    ultimately show ?thesis using True xs by simp
  next
    case False
    obtain ob' where ob': "hex_loop (xs @ r) ob (int ?n) 0 = Inr ob'" "length ob' = length ob"
      "take (?n div 2) ob' = bcd_decode xs"
      using hex_loop_ok [of ?n "xs @ r" ob 0] assms(3,4) xs ob by auto
    let ?o = "out\<lparr>fb_buf := Some ob', fb_leng := int (?n div 2)\<rparr>"
    have "hexstr_to_hex (Some hex) (Some out) = Inr (0, Some ?o)"
      using False ib ob assms(4) ob' xs
      by (simp add: hexstr_to_hex_def fmBytes_set_length_def fmBytes_set_buf_def half)
    moreover have "fb_ok ?o \<and> fb_size ?o = fb_size out"
      using ob ob' assms(4) xs by (simp add: fb_ok_def)
    moreover have "fb_bytes ?o = bcd_decode xs" using ob' by (simp add: fb_bytes_def)
    ultimately show ?thesis using xs by blast
  qed
qed

theorem hexstr_to_hex_even_example:
  "\<exists>out'. hexstr_to_hex (Some (fb_of [0x30, 0x31, 0x38, 0x32])) (fmBytes_alloc True True 2) =
     Inr (0, Some out') \<and> fb_bytes out' = [0x01, 0x82]"
proof -
  let ?d = "\<lparr>fb_size = 2, fb_leng = 0, fb_buf = Some [0, 0]\<rparr> :: fmBytes"
  have d: "fmBytes_alloc True True 2 = Some ?d"
    by (simp add: fmBytes_alloc_def numeral_2_eq_2)
  have "fb_ok ?d" by (simp add: fb_ok_def)
  from hexstr_to_hex_even [OF fb_of_ok this, of "[0x30, 0x31, 0x38, 0x32]"]
  show ?thesis by (auto simp: d hex_pair_def)
qed

lemma hex_loop_odd:
  "odd n \<Longrightarrow> length ib = n \<Longrightarrow> n div 2 \<le> length ob \<Longrightarrow> even i \<Longrightarrow> i < n \<Longrightarrow>
   hex_loop ib ob (int n) i = Inl Out_Of_Bounds"
proof (induction ib ob "int n" i rule: hex_loop.induct)
  case (1 ib ob i)
  have r: "rd ib (int i) = Inr (ib ! i)" using "1.prems" by (simp add: rd_nat)
  show ?case
  proof (cases "Suc i = n")
    case True
    then have "rd ib (int i + 1) = Inl Out_Of_Bounds" using "1.prems" by (auto simp: rd_def)
    then show ?thesis using "1.prems" r by (subst hex_loop.simps) simp
  next
    case False
    then have i: "Suc i < n" "i + 2 < n" using "1.prems"
      by (auto elim!: evenE oddE)
    let ?hi = "ib ! i" and ?lo = "ib ! Suc i"
    have r2: "rd ib (int i + 1) = Inr ?lo" using i "1.prems" by (simp add: rd_def nat_add_distrib)
    have "i div 2 < length ob" using i "1.prems" by (auto elim!: evenE)
    then have w: "wr ob (int (i div 2)) (hex_pair ?hi ?lo) = Inr (ob[i div 2 := hex_pair ?hi ?lo])"
      by (simp only: wr_nat)
    show ?thesis using "1.hyps" [OF _ r r2 w] "1.prems" i r r2 w by (subst hex_loop.simps) simp
  qed
qed

text \<open>
  An odd number of digits passes the size test of \<open>hexstr_to_hex\<close>, but decoding the last
  digit of a buffer that is exactly full reads past its end.
\<close>

theorem hexstr_to_hex_odd:
  assumes "fb_ok out" and "odd (length xs)" and "int (length xs div 2) \<le> fb_size out"
  shows "hexstr_to_hex (Some (fb_of xs)) (Some out) = Inl Out_Of_Bounds"
proof -
  obtain ob where ob: "fb_buf out = Some ob" "fb_size out = int (length ob)"
    using assms(1) by (auto elim!: fb_okE)
  have "hex_loop xs ob (int (length xs)) 0 = Inl Out_Of_Bounds"
    using hex_loop_odd [of "length xs" xs ob 0] assms(2,3) ob odd_pos [of "length xs"] by simp
  moreover have "half (int (length xs)) = int (length xs div 2)" by (simp add: half_def zdiv_int)
  moreover have "xs \<noteq> []" using assms(2) by auto
  ultimately show ?thesis using assms(3) ob by (simp add: hexstr_to_hex_def)
qed

theorem hexstr_to_hex_odd_example:
  "hexstr_to_hex (Some (fb_of [0x30, 0x38, 0x30])) (Some (fb_of [0])) = Inl Out_Of_Bounds"
  using hexstr_to_hex_odd [OF fb_of_ok, of "[0x30, 0x38, 0x30]" "[0]"] by simp

section \<open>Properties of the length prefixes\<close>

text \<open>
  For a source of at most 255 bytes, \<open>fmbytes_concat_with_len\<close> writes the length byte and
  the contents at the destination and returns the number of bytes written; a NULL source writes
  the single byte zero.
\<close>

theorem fmbytes_concat_with_len_short:
  assumes "fb_ok s" and "length (fb_bytes s) \<le> 255"
    and "length pre + Suc (length (fb_bytes s)) \<le> length b" and "take (length pre) b = pre"
  shows "\<exists>b'. fmbytes_concat_with_len b (int (length pre)) (Some s) =
      Inr (int (length (fb_bytes s)) + 1, b') \<and> length b' = length b \<and>
    take (length pre + Suc (length (fb_bytes s))) b' =
      pre @ of_nat (length (fb_bytes s)) # fb_bytes s"
proof -
  let ?xs = "fb_bytes s" and ?i = "length pre"
  let ?l = "of_nat (length ?xs) :: u8"
  obtain r where s: "fb_buf s = Some (?xs @ r)" "fb_leng s = int (length ?xs)"
    using fb_ok_read [OF assms(1) refl] by blast
  let ?b1 = "b[?i := ?l]"
  let ?b2 = "take (Suc ?i) ?b1 @ ?xs @ drop (Suc ?i + length ?xs) ?b1"
  have i: "?i < length b" using assms(3) by simp
  have t: "take (Suc ?i) ?b1 = pre @ [?l]" using i assms(4) by (simp add: take_update_last)
  have "wr b (int ?i) ?l = Inr ?b1" using i by (rule wr_nat)
  moreover have "rdn (?xs @ r) 0 (int (length ?xs)) = Inr ?xs" by (simp add: rdn_def)
  moreover have "wrn ?b1 (int ?i + 1) ?xs = Inr ?b2"
    using assms(3) by (simp add: wrn_def nat_add_distrib)
  moreover have "rd ?b2 (int ?i) = Inr ?l" unfolding t by (simp add: rd_def nth_append)
  moreover have "uint ?l = int (length ?xs)"
    using assms(2) by (simp add: unsigned_of_nat take_bit_nat_eq_self)
  ultimately have "fmbytes_concat_with_len b (int ?i) (Some s) = Inr (int (length ?xs) + 1, ?b2)"
    by (simp add: fmbytes_concat_with_len_def s)
  moreover have "length ?b2 = length b" using assms(3) i by simp
  moreover have "take (?i + Suc (length ?xs)) ?b2 = pre @ ?l # ?xs" unfolding t by simp
  ultimately show ?thesis by blast
qed

theorem fmbytes_concat_with_len_short_example:
  "\<exists>b'. fmbytes_concat_with_len [1, 0, 0, 0] 1 (Some (fb_of [0xA0, 2])) = Inr (3, b') \<and>
     take 4 b' = [1, 2, 0xA0, 2]"
  using fmbytes_concat_with_len_short [of "fb_of [0xA0, 2]" "[1]" "[1, 0, 0, 0]"] by auto

lemma ber_count_bounds:
  "unat x < 256 ^ ber_count x \<and> (256 ^ (ber_count x - 1) \<le> unat x \<or> ber_count x = 1) \<and>
   1 \<le> ber_count x"
proof (induction x rule: ber_count.induct)
  case (1 x)
  let ?y = "drop_bit 8 x"
  have y: "unat ?y = unat x div 256" by (simp add: drop_bit_eq_div unat_div_distrib)
  show ?case
  proof (cases "?y = 0")
    case True
    with y have "unat x div 256 = 0" by simp
    then have "unat x < 256" by (simp add: div_eq_0_iff)
    with True show ?thesis by (simp add: ber_count.simps [of x])
  next
    case False
    then have eq: "ber_count x = Suc (ber_count ?y)" by (subst ber_count.simps) (simp add: Let_def)
    from False have nz: "unat ?y \<noteq> 0" by (simp add: unat_eq_zero)
    note IH = "1.IH" [OF refl False]
    have "unat x < 256 * 256 ^ ber_count ?y" using IH y by linarith
    moreover have "256 ^ ber_count ?y \<le> unat x"
    proof (cases "ber_count ?y = 1")
      case True with nz y show ?thesis by simp
    next
      case False
      then obtain k where k: "ber_count ?y = Suc k" using IH by (cases "ber_count ?y") auto
      with IH False y have "256 ^ k \<le> unat x div 256" by simp
      then show ?thesis using k by simp
    qed
    ultimately show ?thesis by (simp add: eq)
  qed
qed

lemma ber_count_le_4: "ber_count x \<le> 4"
proof (rule ccontr)
  assume "\<not> ber_count x \<le> 4"
  then have c: "4 \<le> ber_count x - 1" "ber_count x \<noteq> 1" by auto
  then have "(256::nat) ^ 4 \<le> 256 ^ (ber_count x - 1)" by (intro power_increasing) auto
  also have "\<dots> \<le> unat x" using ber_count_bounds [of x] c by blast
  finally show False using unat_u32_less [of x] by simp
qed

lemma ucast_and_FF: "unat (ucast (x AND 0xFF :: u32) :: u8) = unat x mod 256"
proof -
  have "x AND 0xFF = take_bit 8 x" by (simp add: take_bit_eq_mask mask_eq_exp_minus_1)
  then have "(ucast (x AND 0xFF) :: u8) = ucast x"
    by (auto intro!: bit_word_eqI simp: bit_simps)
  then show ?thesis by (simp add: unsigned_ucast_eq take_bit_eq_mod)
qed

lemma ber_fill_ok:
  "i < length b \<Longrightarrow> unat x < 256 ^ i \<Longrightarrow>
   \<exists>b'. ber_fill b x i = Inr b' \<and> length b' = length b \<and> be_val (take i (tl b')) = unat x \<and>
     hd b' = hd b \<and> drop (Suc i) b' = drop (Suc i) b"
proof (induction b x i rule: ber_fill.induct)
  case (2 b x i)
  let ?c = "ucast (x AND 0xFF) :: u8"
  let ?b = "b[Suc i := ?c]"
  have w: "wr b (int (Suc i)) ?c = Inr ?b" using "2.prems" by (rule_tac wr_nat) simp
  have y: "unat (drop_bit 8 x) = unat x div 256" by (simp add: drop_bit_eq_div unat_div_distrib)
  then have "unat (drop_bit 8 x) < 256 ^ i" using "2.prems" by (simp add: div_less_iff_less_mult mult.commute)
  then obtain b' where b': "ber_fill ?b (drop_bit 8 x) i = Inr b'" "length b' = length b"
    "be_val (take i (tl b')) = unat (drop_bit 8 x)" "hd b' = hd ?b"
    "drop (Suc i) b' = drop (Suc i) ?b"
    using "2.IH" [OF w] "2.prems" by auto
  have hd: "hd ?b = hd b" using "2.prems" by (cases b) auto
  have "drop (Suc i) ?b = ?c # drop (Suc (Suc i)) b"
    using "2.prems" by (simp add: Cons_nth_drop_Suc [symmetric])
  then have "drop i (tl b') = ?c # drop (Suc (Suc i)) b" using b'(5) by (simp add: drop_Suc)
  then have tk: "take (Suc i) (tl b') = take i (tl b') @ [?c]"
    and dr: "drop (Suc i) (tl b') = drop (Suc (Suc i)) b"
    using rd_drop(2-4) [of i "tl b'" ?c] by (auto simp: take_Suc_conv_app_nth)
  have "be_val (take (Suc i) (tl b')) = unat x"
    unfolding tk be_val_append b'(3) y by (simp add: ucast_and_FF)
  then show ?case using w b' hd dr by (simp add: drop_Suc del: of_nat_Suc)
qed simp

text \<open>Reading a BER length: its value and the number of bytes it takes.\<close>

definition ber_decode :: "u8 list \<Rightarrow> nat \<times> nat" where
  "ber_decode b =
     (if unat (hd b) < 128 then (unat (hd b), 1)
      else let n = unat (hd b) - 128 in (be_val (take n (tl b)), Suc n))"

text \<open>
  \<open>get_BERLen\<close> writes, in at most five bytes and inside a buffer of that size, an encoding
  that a BER reader decodes to the length and to the number of bytes returned; the rest of the
  buffer is untouched.
\<close>

theorem get_BERLen_roundtrip:
  assumes "5 \<le> length b"
  shows "\<exists>n b'. get_BERLen len b = Inr (int n, b') \<and> ber_decode b' = (unat len, n) \<and> n \<le> 5 \<and>
    length b' = length b \<and> drop n b' = drop n b"
proof (cases "len < 128")
  case True
  let ?b = "b[0 := ucast len]"
  have "unat len < 128" using True by (simp add: word_less_nat_alt)
  then have "unat (ucast len :: u8) = unat len"
    by (simp add: unsigned_ucast_eq take_bit_nat_eq_self)
  moreover have "get_BERLen len b = Inr (int 1, ?b)"
    using True assms by (cases b) (auto simp: get_BERLen_def wr_0)
  moreover have "hd ?b = ucast len" using assms by (cases b) auto
  ultimately show ?thesis using \<open>unat len < 128\<close>
    by (intro exI [of _ 1] exI [of _ ?b]) (simp add: ber_decode_def)
next
  case False
  let ?n = "ber_count len"
  let ?b = "b[0 := of_nat ?n + 128]"
  have n: "?n \<le> 4" "unat len < 256 ^ ?n" using ber_count_le_4 ber_count_bounds by auto
  obtain b' where b': "ber_fill ?b len ?n = Inr b'" "length b' = length b"
    "be_val (take ?n (tl b')) = unat len" "hd b' = hd ?b" "drop (Suc ?n) b' = drop (Suc ?n) ?b"
    using ber_fill_ok [of ?n ?b len] n assms by auto
  have "hd ?b = of_nat ?n + 128" using assms by (cases b) auto
  then have hd: "unat (hd b') = 128 + ?n"
    using n(1) b'(4) by (simp add: unat_word_ariths unsigned_of_nat take_bit_nat_eq_self)
  have "get_BERLen len b = Inr (int (Suc ?n), b')"
    using False assms b'(1) by (cases b) (auto simp: get_BERLen_def Let_def wr_0)
  moreover have "ber_decode b' = (unat len, Suc ?n)" using b'(3) hd by (simp add: ber_decode_def)
  ultimately show ?thesis using n(1) b'(2,5)
    by (intro exI [of _ "Suc ?n"] exI [of _ b']) simp
qed

theorem get_BERLen_roundtrip_example:
  "\<exists>n b'. get_BERLen 300 [0, 0, 0, 0, 0, 0, 0, 0, 0, 0] = Inr (int n, b') \<and> ber_decode b' = (300, n)"
  using get_BERLen_roundtrip [of "[0, 0, 0, 0, 0, 0, 0, 0, 0, 0]" 300] by auto

section \<open>Properties of the integer-wise loops\<close>

lemma memcpy_int_loop_stop [simp]: "memcpy_int_loop src des (int n) n = Inr src"
  by (subst memcpy_int_loop.simps) simp

lemma memset_int_loop_stop [simp]: "memset_int_loop mem v (int n) n = Inr mem"
  by (subst memset_int_loop.simps) simp

lemma memcpy_int_loop_ok:
  "i < n \<Longrightarrow> n + 3 \<le> length src \<Longrightarrow> n + 3 \<le> length des \<Longrightarrow> take i src = take i des \<Longrightarrow>
   memcpy_int_loop src des (int n) i = Inr (take (n + 3) des @ drop (n + 3) src)"
proof (induction src des "int n" i rule: memcpy_int_loop.induct)
  case (1 src des i)
  let ?x = "take 4 (drop i des)"
  let ?src = "take i src @ ?x @ drop (i + 4) src"
  have r: "rdn des (int i) 4 = Inr ?x" using "1.prems" by (simp add: rdn_def)
  have w: "wrn src (int i) ?x = Inr ?src" using "1.prems" by (simp add: wrn_def)
  have tk: "take i src @ ?x = take (i + 4) des" using "1.prems"(4) by (simp add: take_add)
  then have eq: "?src = take (i + 4) des @ drop (i + 4) src" by (metis append_assoc)
  show ?case
  proof (cases "Suc i = n")
    case True
    have "memcpy_int_loop src des (int n) i = memcpy_int_loop ?src des (int n) (Suc i)"
      using "1.prems"(1) r w by (subst memcpy_int_loop.simps) simp
    also have "\<dots> = Inr ?src" unfolding True by simp
    also have "?src = take (n + 3) des @ drop (n + 3) src" unfolding eq True [symmetric]
      by (simp add: add.commute)
    finally show ?thesis .
  next
    case False
    have "take (Suc i) ?src = take (Suc i) des" unfolding eq using "1.prems" by (simp add: min_def)
    moreover have "drop (n + 3) ?src = drop (n + 3) src"
      unfolding eq using "1.prems" False by (simp add: min_def add.commute)
    moreover have "length ?src = length src" unfolding eq using "1.prems" by simp
    ultimately have "memcpy_int_loop ?src des (int n) (Suc i) =
        Inr (take (n + 3) des @ drop (n + 3) src)"
      using "1.hyps" [OF _ r w] "1.prems" False by simp
    then show ?thesis using "1.prems"(1) r w
      by (subst memcpy_int_loop.simps) (simp add: add.commute)
  qed
qed

text \<open>
  Because its address advances by one byte while it moves four, \<open>memcpy_int\<close> with a count
  \<open>n \<ge> 1\<close> copies exactly the first \<open>n + 3\<close> bytes, not \<open>n\<close> integers: every later byte of the
  destination keeps its old value.
\<close>

theorem memcpy_int_copies:
  assumes "1 \<le> n" and "n + 3 \<le> length dst" and "n + 3 \<le> length from"
  shows "memcpy_int dst from (int n) = Inr (take (n + 3) from @ drop (n + 3) dst)"
  using memcpy_int_loop_ok [of 0 n dst "from"] assms by (simp add: memcpy_int_def)

theorem memcpy_int_copies_example:
  "memcpy_int [0, 0, 0, 0, 0, 0, 0, 0] [1, 2, 3, 4, 5, 6, 7, 8] 2 = Inr [1, 2, 3, 4, 5, 0, 0, 0]"
  using memcpy_int_copies [of 2 "[0, 0, 0, 0, 0, 0, 0, 0]" "[1, 2, 3, 4, 5, 6, 7, 8]"] by simp

lemma memset_int_loop_ok:
  "i < n \<Longrightarrow> n + 3 \<le> length mem \<Longrightarrow> take i mem = replicate i (ucast v) \<Longrightarrow>
   memset_int_loop mem v (int n) i =
     Inr (replicate n (ucast v) @ tl (le_bytes v) @ drop (n + 3) mem)"
proof (induction mem v "int n" i rule: memset_int_loop.induct)
  case (1 mem v i)
  let ?mem = "take i mem @ le_bytes v @ drop (i + 4) mem"
  have w: "wrn mem (int i) (le_bytes v) = Inr ?mem"
    using "1.prems" by (simp add: wrn_def le_bytes_def eval_nat_numeral)
  have eq: "?mem = replicate (Suc i) (ucast v) @ tl (le_bytes v) @ drop (i + 4) mem"
    using "1.prems"(3) by (simp add: le_bytes_def replicate_app_Cons_same)
  show ?case
  proof (cases "Suc i = n")
    case True
    have "memset_int_loop mem v (int n) i = memset_int_loop ?mem v (int n) (Suc i)"
      using "1.prems"(1) w by (subst memset_int_loop.simps) simp
    also have "\<dots> = Inr ?mem" unfolding True by simp
    also have "?mem = replicate n (ucast v) @ tl (le_bytes v) @ drop (n + 3) mem"
      unfolding eq True [symmetric]
      by (simp add: add.commute)
    finally show ?thesis .
  next
    case False
    have "take (Suc i) ?mem = replicate (Suc i) (ucast v)" unfolding eq by simp
    moreover have "drop (n + 3) ?mem = drop (n + 3) mem"
      using "1.prems" False drop_past [of "take i mem @ le_bytes v" "i + 4" "n + 3" mem]
      by (simp add: le_bytes_def)
    moreover have "length ?mem = length mem" using "1.prems" by (simp add: le_bytes_def)
    ultimately have "memset_int_loop ?mem v (int n) (Suc i) =
        Inr (replicate n (ucast v) @ tl (le_bytes v) @ drop (n + 3) mem)"
      using "1.hyps" [OF _ w] "1.prems" False by simp
    then show ?thesis using "1.prems"(1) w by (subst memset_int_loop.simps) simp
  qed
qed

text \<open>
  \<open>memset_int\<close> with a count \<open>n \<ge> 1\<close> fills \<open>n\<close> bytes with the low byte of the value and
  ends with the value's other three bytes, instead of filling \<open>n\<close> integers.
\<close>

theorem memset_int_fills:
  assumes "1 \<le> n" and "n + 3 \<le> length mem"
  shows "memset_int mem v (int n) =
    Inr (replicate n (ucast v) @ tl (le_bytes v) @ drop (n + 3) mem)"
  using memset_int_loop_ok [of 0 n mem v] assms by (simp add: memset_int_def)

theorem memset_int_fills_example:
  "memset_int [0, 0, 0, 0, 0, 0, 0, 0] 0x08040201 2 = Inr [1, 1, 2, 4, 8, 0, 0, 0]"
proof -
  have "memset_int [0, 0, 0, 0, 0, 0, 0, 0] 0x08040201 (int 2) =
      Inr (replicate 2 (ucast (0x08040201 :: u32)) @ tl (le_bytes 0x08040201) @
           drop (2 + 3) [0, 0, 0, 0, 0, 0, 0, 0])"
    by (rule memset_int_fills) simp_all
  also have "\<dots> = Inr [1, 1, 2, 4, 8, 0, 0, 0]" by code_simp
  finally show ?thesis by simp
qed

section \<open>Properties of the bit searches\<close>

text \<open>The least set bit of a word.\<close>

definition low_at :: "u32 \<Rightarrow> nat \<Rightarrow> bool" where
  "low_at y n \<longleftrightarrow> bit y n \<and> (\<forall>j < n. \<not> bit y j)"

lemma ex_low_at: "y \<noteq> 0 \<Longrightarrow> \<exists>n < 32. low_at y n"
proof -
  assume "y \<noteq> 0"
  have ex: "\<exists>m. bit y m"
  proof (rule ccontr)
    assume "\<nexists>m. bit y m"
    then have "y = 0" by (intro bit_eqI) simp
    with \<open>y \<noteq> 0\<close> show False ..
  qed
  let ?n = "LEAST n. bit y n"
  have b: "bit y ?n" using ex by (rule LeastI_ex)
  moreover have "\<forall>j < ?n. \<not> bit y j" using not_less_Least by blast
  moreover have "?n < 32" using bit_imp_le_length [OF b] by simp
  ultimately show ?thesis unfolding low_at_def by blast
qed

lemma ffs_step_low:
  assumes "low_at y n" and "n < 2 * k" and "2 * k \<le> 32" and "m = mask k"
  shows "\<exists>n' y'. ffs_step m k (y, r) = (y', r + int n - int n') \<and> low_at y' n' \<and> n' < k"
proof (cases "n < k")
  case True
  then have "bit (y AND m) n" using assms by (simp add: bit_simps low_at_def)
  then have "y AND m \<noteq> 0" by auto
  then show ?thesis using assms True by (auto simp: ffs_step_def)
next
  case False
  have z: "y AND m = 0"
    using assms(1) False by (intro bit_eqI) (auto simp: assms(4) bit_simps low_at_def)
  have "low_at (signed_drop_bit k y) (n - k)"
    using assms False by (auto simp: low_at_def bit_signed_drop_bit_iff)
  then show ?thesis using z False assms(2)
    by (intro exI [of _ "n - k"] exI [of _ "signed_drop_bit k y"]) (simp add: ffs_step_def)
qed

text \<open>
  \<open>generic_ffs\<close> returns zero for zero and otherwise one plus the index of the least set bit,
  sign-extending shifts notwithstanding.
\<close>

theorem generic_ffs_least_bit:
  "generic_ffs 0 = 0 \<and>
   (x \<noteq> 0 \<longrightarrow> (\<exists>n. generic_ffs x = int n + 1 \<and> bit x n \<and> (\<forall>j < n. \<not> bit x j)))"
proof (intro conjI impI)
  show "generic_ffs 0 = 0" by (simp add: generic_ffs_def)
  assume nz: "x \<noteq> 0"
  then obtain n where n: "n < 32" "low_at x n" using ex_low_at by blast
  obtain n1 x1 where 1: "ffs_step 0xffff 16 (x, 1) = (x1, 1 + int n - int n1)" "low_at x1 n1" "n1 < 16"
    using ffs_step_low [OF n(2), of 16 "0xffff" 1] n(1) by (auto simp: mask_eq_exp_minus_1)
  obtain n2 x2 where 2: "ffs_step 0xff 8 (x1, 1 + int n - int n1) = (x2, 1 + int n - int n2)"
    "low_at x2 n2" "n2 < 8"
    using ffs_step_low [OF 1(2), of 8 "0xff" "1 + int n - int n1"] 1(3)
    by (auto simp: mask_eq_exp_minus_1)
  obtain n3 x3 where 3: "ffs_step 0xf 4 (x2, 1 + int n - int n2) = (x3, 1 + int n - int n3)"
    "low_at x3 n3" "n3 < 4"
    using ffs_step_low [OF 2(2), of 4 "0xf" "1 + int n - int n2"] 2(3)
    by (auto simp: mask_eq_exp_minus_1)
  obtain n4 x4 where 4: "ffs_step 3 2 (x3, 1 + int n - int n3) = (x4, 1 + int n - int n4)"
    "low_at x4 n4" "n4 < 2"
    using ffs_step_low [OF 3(2), of 2 3 "1 + int n - int n3"] 3(3)
    by (auto simp: mask_eq_exp_minus_1)
  obtain n5 x5 where 5: "ffs_step 1 1 (x4, 1 + int n - int n4) = (x5, 1 + int n - int n5)"
    "low_at x5 n5" "n5 < 1"
    using ffs_step_low [OF 4(2), of 1 1 "1 + int n - int n4"] 4(3)
    by (auto simp: mask_eq_exp_minus_1)
  have "n5 = 0" using 5(3) by simp
  then have "generic_ffs x = int n + 1"
    unfolding generic_ffs_def 1(1) 2(1) 3(1) 4(1) 5(1) using nz by simp
  then show "\<exists>n. generic_ffs x = int n + 1 \<and> bit x n \<and> (\<forall>j < n. \<not> bit x j)"
    using n(2) by (auto simp: low_at_def)
qed

theorem generic_ffs_least_bit_example: "\<exists>n. generic_ffs 0x80000000 = int n + 1 \<and> bit (0x80000000 :: u32) n"
  using generic_ffs_least_bit [of "0x80000000"] by auto

section \<open>Big-endian integers\<close>

definition be_bytes :: "u32 \<Rightarrow> u8 list" where
  "be_bytes v = [ucast (drop_bit 24 v AND 0xFF), ucast (drop_bit 16 v AND 0xFF),
     ucast (drop_bit 8 v AND 0xFF), ucast (v AND 0xFF)]"

lemma length_be_bytes [simp]: "length (be_bytes v) = 4"
  by (simp add: be_bytes_def)

lemma base256_digits:
  "m div 16777216 * 16777216 + (m div 65536 mod 256 * 65536 + (m div 256 mod 256 * 256 + m mod 256)) = m"
  for m :: nat
proof -
  have "m div 65536 = m div 256 div 256" "m div 16777216 = m div 256 div 256 div 256"
    by (simp_all add: div_mult2_eq [symmetric])
  moreover have "c * 256 + b' = b \<Longrightarrow> b * 256 + a' = a \<Longrightarrow> a * 256 + m' = m \<Longrightarrow>
      c * 16777216 + (b' * 65536 + (a' * 256 + m')) = m" for a a' b b' c m' :: nat
    by linarith
  ultimately show ?thesis by (metis div_mult_mod_eq)
qed

lemma be_val_be_bytes: "be_val (be_bytes v) = unat v"
proof -
  have d: "unat (drop_bit 24 v) = unat v div 2 ^ 24" "unat (drop_bit 16 v) = unat v div 2 ^ 16"
    "unat (drop_bit 8 v) = unat v div 2 ^ 8"
    by (simp_all add: drop_bit_eq_div unat_div_distrib)
  have "unat v < 2 ^ 32" by (rule unat_u32_less)
  then show ?thesis
    unfolding be_bytes_def be_val.simps ucast_and_FF d by (simp add: base256_digits)
qed

lemma int2byteBE_ok:
  assumes "4 \<le> length b"
  shows "int2byteBE v b = Inr (4, be_bytes v @ drop 4 b)"
proof -
  obtain p q r s t where "b = p # q # r # s # t"
    using assms by (auto simp: Suc_le_length_iff eval_nat_numeral)
  then show ?thesis
    by (simp add: int2byteBE_def be_bytes_def wr_def eval_nat_numeral)
qed

end
