(* ===== verification/Fm_Skbuff.thy ===== *)
theory Fm_Skbuff
  imports Fm_Util
begin

text \<open>
  \<open>common/fm_skbuff.c\<close>, the packet buffer \<open>struct sk_buff\<close>: one block of memory with room
  before and after the data. The pointers \<open>head\<close>, \<open>data\<close>, \<open>tail\<close> and \<open>end\<close> are offsets
  into the block; \<open>len\<close> and \<open>data_len\<close> are the unsigned 32-bit counters of the source. The
  links \<open>next\<close> and \<open>prev\<close> belong to the queue model (\<open>Fm_List\<close>). A loop \<open>while(1);\<close>
  after a failed check is the fault \<open>Hang\<close>.

  The locale \<open>packet_buffer\<close> is what the packet builders and parsers rely on; \<open>sk_buff\<close> is
  its interpretation on the model of the code.
\<close>

section \<open>State\<close>

record sk_buff =
  sk_index :: int
  sk_isNew :: bool
  sk_session :: u32
  sk_msg_type :: u32
  sk_reason :: u32
  sk_agent :: "fmBytes option"
  sk_resend_idx :: u8
  sk_len :: u32
  sk_data_len :: u32
  sk_block :: "u8 list"
  sk_tail :: int
  sk_end :: int
  sk_head :: int
  sk_data :: int

section \<open>Operations\<close>

definition skb_tail_pointer :: "sk_buff \<Rightarrow> int" where
  "skb_tail_pointer skb = sk_tail skb"

definition skb_is_nonlinear :: "sk_buff \<Rightarrow> bool" where
  "skb_is_nonlinear skb \<longleftrightarrow> sk_data_len skb \<noteq> 0"

definition skb_set_tail_pointer :: "sk_buff \<Rightarrow> int \<Rightarrow> sk_buff" where
  "skb_set_tail_pointer skb offset = skb\<lparr>sk_tail := sk_data skb + offset\<rparr>"

text \<open>
  \<open>raw\<close> is whatever the fresh structure contains: the \<open>memset\<close> over \<open>sizeof(tmp)\<close> clears one
  pointer only, so the fields that are not assigned below keep their indeterminate values.
\<close>

definition alloc_skb ::
  "sk_buff \<Rightarrow> int \<Rightarrow> bool \<Rightarrow> bool \<Rightarrow> u32 \<Rightarrow> sk_buff option \<times> int"
where
  "alloc_skb raw glb_skb_index ok1 ok2 n =
     (if \<not> ok1 \<or> \<not> ok2 then (None, glb_skb_index)
      else (Some (raw\<lparr>sk_index := glb_skb_index, sk_resend_idx := 0, sk_len := 0, sk_data_len := n,
             sk_block := replicate (unat n) 0, sk_head := 0, sk_data := 0, sk_tail := 0,
             sk_end := uint n\<rparr>), glb_skb_index + 1))"

definition skb_put :: "sk_buff \<Rightarrow> u32 \<Rightarrow> (int \<times> sk_buff) res" where
  "skb_put skb n =
     (let tmp = skb_tail_pointer skb in
      if \<not> skb_is_nonlinear skb then Inl Hang
      else let skb' = skb\<lparr>sk_tail := sk_tail skb + uint n, sk_len := sk_len skb + n\<rparr> in
           if sk_tail skb' > sk_end skb' then Inl Hang else Inr (tmp, skb'))"

definition skb_push :: "sk_buff \<Rightarrow> u32 \<Rightarrow> (int \<times> sk_buff) res" where
  "skb_push skb n =
     (let skb' = skb\<lparr>sk_data := sk_data skb - uint n, sk_len := sk_len skb + n\<rparr> in
      if sk_data skb' < sk_head skb' then Inl Hang else Inr (sk_data skb', skb'))"

definition skb_pull_raw :: "sk_buff \<Rightarrow> u32 \<Rightarrow> int \<times> sk_buff" where
  "skb_pull_raw skb n =
     (let skb' = skb\<lparr>sk_len := sk_len skb - n, sk_data := sk_data skb + uint n\<rparr>
      in (sk_data skb', skb'))"

definition skb_pull :: "sk_buff \<Rightarrow> u32 \<Rightarrow> int option \<times> sk_buff" where
  "skb_pull skb n =
     (if n > sk_len skb then (None, skb)
      else case skb_pull_raw skb n of (p, skb') \<Rightarrow> (Some p, skb'))"

definition skb_trim_raw :: "sk_buff \<Rightarrow> u32 \<Rightarrow> sk_buff" where
  "skb_trim_raw skb n =
     (if \<not> skb_is_nonlinear skb then skb
      else skb_set_tail_pointer (skb\<lparr>sk_len := n\<rparr>) (uint n))"

definition skb_trim :: "sk_buff \<Rightarrow> u32 \<Rightarrow> sk_buff" where
  "skb_trim skb n = (if sk_len skb > n then skb_trim_raw skb n else skb)"

definition skb_reserve :: "sk_buff \<Rightarrow> int \<Rightarrow> sk_buff" where
  "skb_reserve skb n = skb\<lparr>sk_data := sk_data skb + n, sk_tail := sk_tail skb + n\<rparr>"

definition skb_resend_idx_inc :: "sk_buff \<Rightarrow> sk_buff" where
  "skb_resend_idx_inc skb =
     (if sk_resend_idx skb = 0xFF then skb\<lparr>sk_resend_idx := 0\<rparr>
      else skb\<lparr>sk_resend_idx := sk_resend_idx skb + 1\<rparr>)"

definition skb_resend_idx_rst :: "sk_buff \<Rightarrow> sk_buff" where
  "skb_resend_idx_rst skb = skb\<lparr>sk_resend_idx := 0\<rparr>"

text \<open>Storing through a pointer into the buffer, and the two idioms built on it:
  \<open>memcpy(skb_put(skb,n),xs,n)\<close> and \<open>memcpy(skb_push(skb,n),xs,n)\<close>.\<close>

definition skb_store :: "sk_buff \<Rightarrow> int \<Rightarrow> u8 list \<Rightarrow> sk_buff res" where
  "skb_store skb p xs = bindR (wrn (sk_block skb) p xs) (\<lambda>b. Inr (skb\<lparr>sk_block := b\<rparr>))"

definition skb_put_bytes :: "u8 list \<Rightarrow> sk_buff \<Rightarrow> sk_buff res" where
  "skb_put_bytes xs skb =
     bindR (skb_put skb (of_nat (length xs))) (\<lambda>(p, skb'). skb_store skb' p xs)"

definition skb_push_bytes :: "u8 list \<Rightarrow> sk_buff \<Rightarrow> sk_buff res" where
  "skb_push_bytes xs skb =
     bindR (skb_push skb (of_nat (length xs))) (\<lambda>(p, skb'). skb_store skb' p xs)"

section \<open>Interface of a packet buffer\<close>

text \<open>
  A buffer has a body with some room in front of it and behind it. Appending and prepending
  consume the room; without room they do not return. Dropping gives the room back in front.
\<close>

locale packet_buffer =
  fixes ok :: "'p \<Rightarrow> bool"
    and body :: "'p \<Rightarrow> u8 list"
    and front :: "'p \<Rightarrow> nat"
    and rear :: "'p \<Rightarrow> nat"
    and append_bytes :: "u8 list \<Rightarrow> 'p \<Rightarrow> 'p res"
    and prepend_bytes :: "u8 list \<Rightarrow> 'p \<Rightarrow> 'p res"
    and drop_bytes :: "nat \<Rightarrow> 'p \<Rightarrow> 'p option"
  assumes append_ok: "ok p \<Longrightarrow> length xs \<le> rear p \<Longrightarrow>
      \<exists>p'. append_bytes xs p = Inr p' \<and> ok p' \<and> body p' = body p @ xs \<and> front p' = front p \<and>
        rear p' = rear p - length xs"
    and append_full: "ok p \<Longrightarrow> rear p < length xs \<Longrightarrow> length xs < 2 ^ 32 \<Longrightarrow>
      append_bytes xs p = Inl Hang"
    and prepend_ok: "ok p \<Longrightarrow> length xs \<le> front p \<Longrightarrow>
      \<exists>p'. prepend_bytes xs p = Inr p' \<and> ok p' \<and> body p' = xs @ body p \<and>
        front p' = front p - length xs \<and> rear p' = rear p"
    and prepend_full: "ok p \<Longrightarrow> front p < length xs \<Longrightarrow> length xs < 2 ^ 32 \<Longrightarrow>
      prepend_bytes xs p = Inl Hang"
    and drop_ok: "ok p \<Longrightarrow> n \<le> length (body p) \<Longrightarrow>
      \<exists>p'. drop_bytes n p = Some p' \<and> ok p' \<and> body p' = drop n (body p) \<and>
        front p' = front p + n \<and> rear p' = rear p"
    and drop_short: "ok p \<Longrightarrow> length (body p) < n \<Longrightarrow> n < 2 ^ 32 \<Longrightarrow> drop_bytes n p = None"
begin

lemma append_all:
  "ok p \<Longrightarrow> sum_list (map length xss) \<le> rear p \<Longrightarrow>
   \<exists>p'. foldR append_bytes xss p = Inr p' \<and> ok p' \<and> body p' = body p @ concat xss \<and>
     front p' = front p \<and> rear p' = rear p - sum_list (map length xss)"
proof (induction xss arbitrary: p)
  case (Cons xs xss)
  then obtain p1 where p1: "append_bytes xs p = Inr p1" "ok p1" "body p1 = body p @ xs"
    "front p1 = front p" "rear p1 = rear p - length xs"
    using append_ok [of p xs] by auto
  have room: "sum_list (map length xss) \<le> rear p1" using Cons.prems p1 by simp
  obtain p2 where "foldR append_bytes xss p1 = Inr p2" "ok p2" "body p2 = body p1 @ concat xss"
    "front p2 = front p1" "rear p2 = rear p1 - sum_list (map length xss)"
    using Cons.IH [OF p1(2) room] by blast
  with p1 show ?case by simp
qed simp

lemma prepend_all:
  "ok p \<Longrightarrow> sum_list (map length xss) \<le> front p \<Longrightarrow>
   \<exists>p'. foldR prepend_bytes xss p = Inr p' \<and> ok p' \<and> body p' = concat (rev xss) @ body p \<and>
     front p' = front p - sum_list (map length xss) \<and> rear p' = rear p"
proof (induction xss arbitrary: p)
  case (Cons xs xss)
  then obtain p1 where p1: "prepend_bytes xs p = Inr p1" "ok p1" "body p1 = xs @ body p"
    "front p1 = front p - length xs" "rear p1 = rear p"
    using prepend_ok [of p xs] by auto
  have room: "sum_list (map length xss) \<le> front p1" using Cons.prems p1 by simp
  obtain p2 where "foldR prepend_bytes xss p1 = Inr p2" "ok p2"
    "body p2 = concat (rev xss) @ body p1"
    "front p2 = front p1 - sum_list (map length xss)" "rear p2 = rear p1"
    using Cons.IH [OF p1(2) room] by blast
  with p1 show ?case by simp
qed simp

lemma append_overflow:
  assumes "ok p" and "sum_list (map length xss) = rear p" and "xs \<noteq> []" and "length xs < 2 ^ 32"
  shows "foldR append_bytes (xss @ xs # yss) p = Inl Hang"
proof -
  obtain p' where "foldR append_bytes xss p = Inr p'" "ok p'" "rear p' = 0"
    using append_all [of p xss] assms by auto
  then show ?thesis using append_full [of p' xs] assms by (simp add: foldR_append)
qed

lemma prepend_drop:
  assumes "ok p" and "length xs \<le> front p"
  shows "\<exists>p' p''. prepend_bytes xs p = Inr p' \<and> drop_bytes (length xs) p' = Some p'' \<and> ok p'' \<and>
    body p'' = body p \<and> front p'' = front p \<and> rear p'' = rear p"
proof -
  obtain p' where p': "prepend_bytes xs p = Inr p'" "ok p'" "body p' = xs @ body p"
    "front p' = front p - length xs" "rear p' = rear p"
    using prepend_ok [OF assms] by blast
  then show ?thesis using drop_ok [of p' "length xs"] assms by auto
qed

end

section \<open>The packet buffer of the code\<close>

definition skb_ok :: "sk_buff \<Rightarrow> bool" where
  "skb_ok skb \<longleftrightarrow> sk_head skb = 0 \<and> 0 \<le> sk_data skb \<and> sk_data skb \<le> sk_tail skb \<and>
     sk_tail skb \<le> sk_end skb \<and> sk_end skb = int (length (sk_block skb)) \<and>
     uint (sk_data_len skb) = sk_end skb \<and> uint (sk_len skb) = sk_tail skb - sk_data skb \<and>
     0 < sk_end skb"

definition skb_body :: "sk_buff \<Rightarrow> u8 list" where
  "skb_body skb =
     take (nat (sk_tail skb - sk_data skb)) (drop (nat (sk_data skb)) (sk_block skb))"

definition skb_front :: "sk_buff \<Rightarrow> nat" where
  "skb_front skb = nat (sk_data skb)"

definition skb_rear :: "sk_buff \<Rightarrow> nat" where
  "skb_rear skb = nat (sk_end skb - sk_tail skb)"

definition skb_drop :: "nat \<Rightarrow> sk_buff \<Rightarrow> sk_buff option" where
  "skb_drop n skb = (case skb_pull skb (of_nat n) of (None, _) \<Rightarrow> None | (Some _, skb') \<Rightarrow> Some skb')"

lemma uint_of_nat_u32: "n < 2 ^ 32 \<Longrightarrow> uint (of_nat n :: u32) = int n"
  by (simp add: unsigned_of_nat take_bit_nat_eq_self)

lemma uint_u32_less: "uint (x :: u32) < 2 ^ 32"
  by (rule order_less_le_trans [OF unsigned_less]) simp

lemma uint_add_u32: "uint x + uint y < 2 ^ 32 \<Longrightarrow> uint (x + y :: u32) = uint x + uint y"
  by (simp add: uint_word_ariths)

lemma uint_sub_u32: "uint y \<le> uint x \<Longrightarrow> uint (x - y :: u32) = uint x - uint y"
proof -
  assume le: "uint y \<le> uint x"
  have "0 \<le> uint y" by simp
  then have "0 \<le> uint x - uint y" "uint x - uint y < 2 ^ 32"
    using le uint_u32_less [of x] by linarith+
  then show ?thesis by (simp add: uint_word_ariths mod_pos_pos_trivial)
qed

lemma skb_okD:
  assumes "skb_ok skb"
  shows "sk_end skb < 2 ^ 32" and "length (skb_body skb) = unat (sk_len skb)"
    and "skb_front skb + length (skb_body skb) + skb_rear skb = length (sk_block skb)"
    and "length (skb_body skb) < 2 ^ 32"
proof -
  show e: "sk_end skb < 2 ^ 32"
    using assms uint_u32_less [of "sk_data_len skb"] by (simp add: skb_ok_def)
  have l: "int (length (skb_body skb)) = uint (sk_len skb)"
    using assms by (auto simp: skb_ok_def skb_body_def)
  then show "length (skb_body skb) = unat (sk_len skb)"
    by (metis nat_int unat_eq_nat_uint)
  show "skb_front skb + length (skb_body skb) + skb_rear skb = length (sk_block skb)"
    using assms l by (auto simp: skb_ok_def skb_front_def skb_rear_def)
  show "length (skb_body skb) < 2 ^ 32"
  proof -
    have "int (length (skb_body skb)) < int (2 ^ 32)"
      unfolding l using uint_u32_less [of "sk_len skb"] by simp
    then show ?thesis by (simp only: of_nat_less_iff)
  qed
qed

lemma skb_put_bytes_ok:
  assumes ok: "skb_ok skb" and room: "length xs \<le> skb_rear skb"
  shows "\<exists>p'. skb_put_bytes xs skb = Inr p' \<and> skb_ok p' \<and> skb_body p' = skb_body skb @ xs \<and>
    skb_front p' = skb_front skb \<and> skb_rear p' = skb_rear skb - length xs"
proof -
  let ?n = "of_nat (length xs) :: u32" and ?t = "sk_tail skb" and ?b = "sk_block skb"
  have fit: "?t + int (length xs) \<le> sk_end skb" "0 \<le> ?t"
    using ok room by (auto simp: skb_ok_def skb_rear_def)
  then have "length xs < 2 ^ 32" using skb_okD(1) [OF ok] by simp
  then have n: "uint ?n = int (length xs)" by (rule uint_of_nat_u32)
  have l: "uint (sk_len skb + ?n) = sk_tail skb - sk_data skb + int (length xs)"
    using ok fit n skb_okD(1) [OF ok] by (subst uint_add_u32) (auto simp: skb_ok_def)
  let ?b' = "take (nat ?t) ?b @ xs @ drop (nat ?t + length xs) ?b"
  let ?p = "skb\<lparr>sk_tail := ?t + int (length xs), sk_len := sk_len skb + ?n, sk_block := ?b'\<rparr>"
  have "skb_put_bytes xs skb = Inr ?p"
    using ok fit n
    by (simp add: skb_put_bytes_def skb_put_def Let_def skb_is_nonlinear_def skb_tail_pointer_def
        skb_store_def wrn_def skb_ok_def) (auto simp: skb_ok_def)
  moreover have "skb_ok ?p" using ok fit l by (auto simp: skb_ok_def)
  moreover have "skb_body ?p = skb_body skb @ xs"
    using ok fit by (auto simp: skb_ok_def skb_body_def take_drop nat_add_distrib nat_diff_distrib)
  moreover have "skb_front ?p = skb_front skb" by (simp add: skb_front_def)
  moreover have "skb_rear ?p = skb_rear skb - length xs"
    using fit by (simp add: skb_rear_def nat_diff_distrib)
  ultimately show ?thesis by blast
qed

lemma skb_push_bytes_ok:
  assumes ok: "skb_ok skb" and room: "length xs \<le> skb_front skb"
  shows "\<exists>p'. skb_push_bytes xs skb = Inr p' \<and> skb_ok p' \<and> skb_body p' = xs @ skb_body skb \<and>
    skb_front p' = skb_front skb - length xs \<and> skb_rear p' = skb_rear skb"
proof -
  let ?n = "of_nat (length xs) :: u32" and ?d = "sk_data skb" and ?b = "sk_block skb"
  have fit: "int (length xs) \<le> ?d" "?d \<le> sk_end skb"
    using ok room by (auto simp: skb_ok_def skb_front_def)
  then have "length xs < 2 ^ 32" using skb_okD(1) [OF ok] by simp
  then have n: "uint ?n = int (length xs)" by (rule uint_of_nat_u32)
  have l: "uint (sk_len skb + ?n) = sk_tail skb - sk_data skb + int (length xs)"
    using ok fit n skb_okD(1) [OF ok] by (subst uint_add_u32) (auto simp: skb_ok_def)
  let ?e = "?d - int (length xs)"
  let ?b' = "take (nat ?e) ?b @ xs @ drop (nat ?e + length xs) ?b"
  let ?p = "skb\<lparr>sk_data := ?e, sk_len := sk_len skb + ?n, sk_block := ?b'\<rparr>"
  have "skb_push_bytes xs skb = Inr ?p"
    using ok fit n by (auto simp: skb_push_bytes_def skb_push_def skb_store_def wrn_def skb_ok_def)
  moreover have "skb_ok ?p" using ok fit l by (auto simp: skb_ok_def)
  moreover have "skb_body ?p = xs @ skb_body skb"
  proof -
    have "nat (sk_tail skb - ?e) = length xs + nat (sk_tail skb - ?d)"
      "nat ?e + length xs = nat ?d" "nat ?e \<le> length ?b"
      using ok fit by (auto simp: skb_ok_def)
    then show ?thesis by (simp add: skb_body_def)
  qed
  moreover have "skb_front ?p = skb_front skb - length xs"
    using fit by (simp add: skb_front_def nat_diff_distrib)
  moreover have "skb_rear ?p = skb_rear skb" by (simp add: skb_rear_def)
  ultimately show ?thesis by blast
qed

lemma skb_put_full:
  assumes "skb_ok skb" and "skb_rear skb < n" and "n < 2 ^ 32"
  shows "skb_put skb (of_nat n) = Inl Hang"
  using assms uint_of_nat_u32 [OF assms(3)]
  by (auto simp: skb_put_def skb_ok_def skb_rear_def Let_def)

lemma skb_push_full:
  assumes "skb_ok skb" and "skb_front skb < n" and "n < 2 ^ 32"
  shows "skb_push skb (of_nat n) = Inl Hang"
  using assms uint_of_nat_u32 [OF assms(3)]
  by (auto simp: skb_push_def skb_ok_def skb_front_def Let_def)

lemma skb_put_bytes_full:
  "skb_ok skb \<Longrightarrow> skb_rear skb < length xs \<Longrightarrow> length xs < 2 ^ 32 \<Longrightarrow>
   skb_put_bytes xs skb = Inl Hang"
  by (simp add: skb_put_bytes_def skb_put_full)

lemma skb_push_bytes_full:
  "skb_ok skb \<Longrightarrow> skb_front skb < length xs \<Longrightarrow> length xs < 2 ^ 32 \<Longrightarrow>
   skb_push_bytes xs skb = Inl Hang"
  by (simp add: skb_push_bytes_def skb_push_full)

lemma skb_pull_ok:
  assumes ok: "skb_ok skb" and n: "n \<le> length (skb_body skb)"
  shows "\<exists>p'. skb_pull skb (of_nat n) = (Some (sk_data skb + int n), p') \<and> skb_ok p' \<and>
    skb_body p' = drop n (skb_body skb) \<and> skb_front p' = skb_front skb + n \<and>
    skb_rear p' = skb_rear skb \<and> sk_block p' = sk_block skb \<and> sk_data p' = sk_data skb + int n"
proof -
  let ?n = "of_nat n :: u32"
  have "n < 2 ^ 32" using n skb_okD(4) [OF ok] by simp
  then have u: "uint ?n = int n" by (rule uint_of_nat_u32)
  have len: "uint (sk_len skb) = int (length (skb_body skb))" using skb_okD(2) [OF ok] by simp
  have le: "\<not> ?n > sk_len skb" using n u len by (simp add: word_less_def)
  have l: "uint (sk_len skb - ?n) = sk_tail skb - sk_data skb - int n"
    using ok n u len by (subst uint_sub_u32) (auto simp: skb_ok_def)
  let ?p = "skb\<lparr>sk_len := sk_len skb - ?n, sk_data := sk_data skb + int n\<rparr>"
  have "int n \<le> sk_tail skb - sk_data skb" using n len ok by (simp add: skb_ok_def)
  then have "skb_ok ?p" "skb_front ?p = skb_front skb + n" "skb_rear ?p = skb_rear skb"
    "skb_body ?p = drop n (skb_body skb)"
    using ok l by (auto simp: skb_ok_def skb_front_def skb_rear_def skb_body_def drop_take
        nat_add_distrib nat_diff_distrib add.commute)
  moreover have "skb_pull skb ?n = (Some (sk_data skb + int n), ?p)"
    using le u by (simp add: skb_pull_def skb_pull_raw_def)
  ultimately show ?thesis by (intro exI [of _ ?p]) simp
qed

lemma skb_pull_short:
  assumes "skb_ok skb" and "length (skb_body skb) < n" and "n < 2 ^ 32"
  shows "skb_pull skb (of_nat n) = (None, skb)"
proof -
  have "int (length (skb_body skb)) < int n" using assms(2) by simp
  then have "uint (sk_len skb) < uint (of_nat n :: u32)"
    using uint_of_nat_u32 [OF assms(3)] skb_okD(2) [OF assms(1)] by simp
  then show ?thesis by (simp add: skb_pull_def word_less_def)
qed

interpretation skb: packet_buffer skb_ok skb_body skb_front skb_rear skb_put_bytes skb_push_bytes
    skb_drop
proof unfold_locales
  show "skb_drop n p = None" if "skb_ok p" "length (skb_body p) < n" "n < 2 ^ 32" for n p
    using skb_pull_short [OF that] by (simp add: skb_drop_def)
  show "\<exists>p'. skb_drop n p = Some p' \<and> skb_ok p' \<and> skb_body p' = drop n (skb_body p) \<and>
      skb_front p' = skb_front p + n \<and> skb_rear p' = skb_rear p"
    if "skb_ok p" "n \<le> length (skb_body p)" for n p
    using skb_pull_ok [OF that] by (auto simp: skb_drop_def)
qed (simp_all add: skb_put_bytes_ok skb_push_bytes_ok skb_put_bytes_full skb_push_bytes_full)

section \<open>Properties\<close>

lemma alloc_skb_ok:
  assumes "0 < n" and "alloc_skb raw idx ok1 ok2 n = (Some skb, idx')"
  shows "skb_ok skb" and "skb_body skb = []" and "skb_front skb = 0" and "skb_rear skb = unat n"
    and "idx' = idx + 1"
proof -
  have "uint n > 0" using assms(1) by (simp add: word_less_def)
  then show "skb_ok skb" "skb_body skb = []" "skb_front skb = 0" "skb_rear skb = unat n"
    "idx' = idx + 1"
    using assms(2)
    by (auto simp: alloc_skb_def skb_ok_def skb_body_def skb_front_def skb_rear_def
        split: if_splits)
qed

lemma skb_reserve_ok:
  assumes "skb_ok skb" and "skb_body skb = []" and "n \<le> skb_rear skb"
  shows "skb_ok (skb_reserve skb (int n))" and "skb_body (skb_reserve skb (int n)) = []"
    and "skb_front (skb_reserve skb (int n)) = skb_front skb + n"
    and "skb_rear (skb_reserve skb (int n)) = skb_rear skb - n"
proof -
  have "sk_len skb = 0" using skb_okD(2) [OF assms(1)] assms(2) by (simp add: unat_eq_zero)
  then have t: "sk_tail skb = sk_data skb" using assms(1) by (simp add: skb_ok_def)
  then show "skb_ok (skb_reserve skb (int n))" "skb_body (skb_reserve skb (int n)) = []"
    "skb_front (skb_reserve skb (int n)) = skb_front skb + n"
    "skb_rear (skb_reserve skb (int n)) = skb_rear skb - n"
    using assms by (auto simp: skb_reserve_def skb_ok_def skb_body_def skb_front_def skb_rear_def
        nat_add_distrib)
qed

text \<open>
  A packet of \<open>n\<close> bytes is allocated, \<open>h\<close> bytes of headroom are reserved, data and then
  header parts are added. While the parts fit, the buffer stays well formed and its body is the
  headers in reverse order of pushing, followed by the data in order.
\<close>

theorem skb_build_packet:
  assumes "0 < n" and "alloc_skb raw idx True True n = (Some skb, idx')" and "h \<le> unat n"
    and "sum_list (map length datas) \<le> unat n - h" and "sum_list (map length hdrs) \<le> h"
  shows "\<exists>p. bindR (foldR skb_put_bytes datas (skb_reserve skb (int h))) (foldR skb_push_bytes hdrs) =
      Inr p \<and> skb_ok p \<and> skb_body p = concat (rev hdrs) @ concat datas \<and>
    skb_front p = h - sum_list (map length hdrs)"
proof -
  note a = alloc_skb_ok [OF assms(1,2)]
  note r = skb_reserve_ok [OF a(1,2), of h, unfolded a(3,4), OF assms(3)]
  obtain p1 where p1: "foldR skb_put_bytes datas (skb_reserve skb (int h)) = Inr p1" "skb_ok p1"
    "skb_body p1 = concat datas" "skb_front p1 = h"
    using skb.append_all [OF r(1), of datas] r assms(4) by auto
  then show ?thesis using skb.prepend_all [of p1 hdrs] assms(5) by auto
qed

definition raw_skb :: sk_buff where
  "raw_skb = \<lparr>sk_index = 0, sk_isNew = False, sk_session = 0, sk_msg_type = 0, sk_reason = 0,
     sk_agent = None, sk_resend_idx = 0, sk_len = 0, sk_data_len = 0, sk_block = [], sk_tail = 0,
     sk_end = 0, sk_head = 0, sk_data = 0\<rparr>"

theorem skb_build_packet_example:
  "\<exists>p. bindR (foldR skb_put_bytes [[7, 8]] (skb_reserve (the (fst (alloc_skb raw_skb 0 True True 5))) 3))
      (foldR skb_push_bytes [[1], [2, 3]]) = Inr p \<and> skb_body p = [2, 3, 1, 7, 8]"
proof -
  obtain skb where skb: "alloc_skb raw_skb 0 True True 5 = (Some skb, 1)"
    by (simp add: alloc_skb_def)
  from skb_build_packet [OF _ skb, of 3 "[[7, 8]]" "[[1], [2, 3]]"]
  show ?thesis by (auto simp: skb simp del: foldR.simps)
qed

text \<open>
  Pushing a header that fits the headroom and pulling as many bytes again restores the body,
  the headroom and the tailroom of the packet; pulling more bytes than the packet holds returns
  NULL and leaves it unchanged.
\<close>

theorem skb_push_pull:
  assumes "skb_ok skb"
  shows "(length xs \<le> skb_front skb \<longrightarrow>
      (\<exists>p q. skb_push_bytes xs skb = Inr p \<and> snd (skb_pull p (of_nat (length xs))) = q \<and> skb_ok q \<and>
         skb_body q = skb_body skb \<and> skb_front q = skb_front skb \<and> skb_rear q = skb_rear skb)) \<and>
    (length (skb_body skb) < m \<and> m < 2 ^ 32 \<longrightarrow> skb_pull skb (of_nat m) = (None, skb))"
proof (intro conjI impI)
  assume "length xs \<le> skb_front skb"
  then obtain p q where "skb_push_bytes xs skb = Inr p" "skb_drop (length xs) p = Some q" "skb_ok q"
    "skb_body q = skb_body skb" "skb_front q = skb_front skb" "skb_rear q = skb_rear skb"
    using skb.prepend_drop [OF assms] by blast
  then show "\<exists>p q. skb_push_bytes xs skb = Inr p \<and> snd (skb_pull p (of_nat (length xs))) = q \<and>
      skb_ok q \<and> skb_body q = skb_body skb \<and> skb_front q = skb_front skb \<and>
      skb_rear q = skb_rear skb"
    by (auto simp: skb_drop_def split: prod.splits option.splits)
qed (use skb_pull_short [OF assms] in blast)

theorem skb_push_pull_example:
  "snd (skb_pull (skb_reserve (the (fst (alloc_skb raw_skb 0 True True 5))) 3) (of_nat 1)) =
     skb_reserve (the (fst (alloc_skb raw_skb 0 True True 5))) 3"
proof -
  obtain skb where skb: "alloc_skb raw_skb 0 True True 5 = (Some skb, 1)"
    by (simp add: alloc_skb_def)
  note a = alloc_skb_ok [OF _ skb]
  have r: "skb_ok (skb_reserve skb (int 3))" "skb_body (skb_reserve skb (int 3)) = []"
    using skb_reserve_ok [of skb 3] a by simp_all
  from skb_push_pull [OF r(1), of "[]" 1] r(2) show ?thesis by (simp add: skb)
qed

text \<open>
  Trimming a well-formed packet keeps it well formed and keeps exactly the first \<open>n\<close> bytes
  of its body (all of them when it is not longer).
\<close>

theorem skb_trim_takes:
  assumes "skb_ok skb"
  shows "skb_ok (skb_trim skb n) \<and> skb_body (skb_trim skb n) = take (unat n) (skb_body skb) \<and>
    skb_front (skb_trim skb n) = skb_front skb"
proof (cases "sk_len skb > n")
  case True
  then have "uint n < sk_tail skb - sk_data skb"
    using assms by (simp add: skb_ok_def word_less_def)
  moreover from this have "unat n \<le> nat (sk_tail skb - sk_data skb)"
    by (metis nat_mono less_imp_le unat_eq_nat_uint)
  moreover have "sk_data_len skb \<noteq> 0" using assms by (auto simp: skb_ok_def)
  ultimately show ?thesis using True assms
    by (auto simp: skb_trim_def skb_trim_raw_def skb_is_nonlinear_def skb_set_tail_pointer_def
        skb_ok_def skb_body_def skb_front_def min_def)
next
  case False
  then have "length (skb_body skb) \<le> unat n"
    using skb_okD(2) [OF assms] by (simp add: word_le_nat_alt not_less)
  then show ?thesis using False assms by (simp add: skb_trim_def)
qed

theorem skb_trim_takes_example:
  "skb_ok (skb_trim (skb_reserve (the (fst (alloc_skb raw_skb 0 True True 5))) 3) 2)"
proof -
  obtain skb where skb: "alloc_skb raw_skb 0 True True 5 = (Some skb, 1)"
    by (simp add: alloc_skb_def)
  note a = alloc_skb_ok [OF _ skb]
  have "skb_ok (skb_reserve skb (int 3))" using skb_reserve_ok [of skb 3] a by simp
  from skb_trim_takes [OF this, of 2] show ?thesis by (simp add: skb)
qed

end
