(* ===== verification/Tsm_Ccb.thy ===== *)
theory Tsm_Ccb
  imports Fm_Skbuff Fm_Hashtable
begin

text \<open>
  \<open>tsm_ccb.c\<close>: the command control block, one per session. It holds the program counter, the two
  flags the byte codes raise, the packet queues, the byte code table, the script and the variables
  (\<open>bre\<close>) of the session. A queue is the list of its packets (\<open>Fm_Skbq\<close> justifies that). The byte
  code table is a block of bytes, four per function pointer, because the loops that fill it
  address bytes. A pointer to a block is an option.
\<close>

section \<open>State\<close>

record code_entry =
  ce_addr :: int
  ce_code :: int
  ce_parameters :: "fmBytes_array option"

record script_entry =
  se_name :: "u8 list option"
  se_size :: int
  se_code_num :: int
  se_ces :: "code_entry option list"

record bc_set =
  bcs_name :: "u8 list"
  bcs_base :: int
  bcs_cnt :: int
  bcs_bc :: "u8 list"

record byte_code =
  bc_cnt :: int
  bc_bc :: "u8 list"

record tsm_ccb =
  cc_PC :: int
  cc_write_back :: int
  cc_bootstrap :: int
  cc_session :: u32
  cc_cmdQ :: "sk_buff list"
  cc_apduQ :: "sk_buff list"
  cc_bc :: "byte_code option"
  cc_se :: "script_entry option"
  cc_bre :: "(u8 list, fmBytes) hashtable option"

record router_tlv =
  tlv_tag :: u8
  tlv_len :: u16
  tlv_val :: "u8 list"

definition TAG_SESSION :: u8 where "TAG_SESSION = 0x10"
definition TAG_DLL :: u8 where "TAG_DLL = 0x11"
definition TAG_SCRIPT :: u8 where "TAG_SCRIPT = 0x12"
definition TAG_AG_NAME :: u8 where "TAG_AG_NAME = 0x13"

definition HASH_TABLE_DEFAULT_SIZE :: nat where "HASH_TABLE_DEFAULT_SIZE = 64"
definition BYTE_CODE_DEFAULT_SIZE :: int where "BYTE_CODE_DEFAULT_SIZE = 512"

section \<open>Accessors\<close>

definition ccb_get_PC :: "tsm_ccb option \<Rightarrow> int res" where
  "ccb_get_PC ccb = bindR (deref ccb) (\<lambda>p. Inr (cc_PC p))"

definition ccb_set_PC :: "tsm_ccb option \<Rightarrow> int \<Rightarrow> tsm_ccb res" where
  "ccb_set_PC ccb addr = bindR (deref ccb) (\<lambda>p. Inr (p\<lparr>cc_PC := addr\<rparr>))"

definition ccb_get_script :: "tsm_ccb option \<Rightarrow> script_entry option res" where
  "ccb_get_script ccb = bindR (deref ccb) (\<lambda>p. Inr (cc_se p))"

definition ccb_set_script :: "tsm_ccb option \<Rightarrow> script_entry option \<Rightarrow> tsm_ccb res" where
  "ccb_set_script ccb se = bindR (deref ccb) (\<lambda>p. Inr (p\<lparr>cc_se := se\<rparr>))"

definition ccb_get_write_back :: "tsm_ccb option \<Rightarrow> int res" where
  "ccb_get_write_back ccb = bindR (deref ccb) (\<lambda>p. Inr (cc_write_back p))"

definition ccb_set_write_back :: "tsm_ccb option \<Rightarrow> int \<Rightarrow> tsm_ccb res" where
  "ccb_set_write_back ccb result = bindR (deref ccb) (\<lambda>p. Inr (p\<lparr>cc_write_back := result\<rparr>))"

definition ccb_get_bootstrap :: "tsm_ccb option \<Rightarrow> int res" where
  "ccb_get_bootstrap ccb = bindR (deref ccb) (\<lambda>p. Inr (cc_bootstrap p))"

definition ccb_set_bootstrap :: "tsm_ccb option \<Rightarrow> int \<Rightarrow> tsm_ccb res" where
  "ccb_set_bootstrap ccb result = bindR (deref ccb) (\<lambda>p. Inr (p\<lparr>cc_bootstrap := result\<rparr>))"

definition ccb_get_bytecode :: "tsm_ccb option \<Rightarrow> byte_code option res" where
  "ccb_get_bytecode ccb = bindR (deref ccb) (\<lambda>p. Inr (cc_bc p))"

definition ccb_get_session :: "tsm_ccb option \<Rightarrow> u32 res" where
  "ccb_get_session ccb = bindR (deref ccb) (\<lambda>p. Inr (cc_session p))"

definition ccb_get_bre :: "tsm_ccb option \<Rightarrow> (u8 list, fmBytes) hashtable option res" where
  "ccb_get_bre ccb = bindR (deref ccb) (\<lambda>p. Inr (cc_bre p))"

definition ccb_get_apduQ :: "tsm_ccb option \<Rightarrow> sk_buff list res" where
  "ccb_get_apduQ ccb = bindR (deref ccb) (\<lambda>p. Inr (cc_apduQ p))"

definition ccb_get_cmdQ :: "tsm_ccb option \<Rightarrow> sk_buff list res" where
  "ccb_get_cmdQ ccb = bindR (deref ccb) (\<lambda>p. Inr (cc_cmdQ p))"

definition data_get_by_name :: "tsm_ccb option \<Rightarrow> u8 list \<Rightarrow> fmBytes option res" where
  "data_get_by_name CCB name =
     bindR (ccb_get_bre CCB) (\<lambda>bre. bindR (deref bre) (\<lambda>t. zc_hashtable_get t name))"

section \<open>The byte code table\<close>

text \<open>
  The function pointer in slot \<open>j\<close>, as \<open>bc[j]\<close> loads it. Addresses have four bytes, as in a 32-bit
  build; with eight bytes to a pointer the slots are other groups of the same bytes.
\<close>

fun le_word :: "u8 list \<Rightarrow> u32" where
  "le_word [] = 0"
| "le_word (b # bs) = ucast b + 256 * le_word bs"

definition bc_slot :: "u8 list \<Rightarrow> int \<Rightarrow> u32 res" where
  "bc_slot tab j = bindR (rdn tab (4 * j) 4) (\<lambda>b. Inr (le_word b))"

text \<open>\<open>tsm_reserve\<close> is the address of the reserve byte code, a function that returns 0.\<close>

definition ccb_alloc_bc :: "bool \<Rightarrow> bool \<Rightarrow> u32 \<Rightarrow> byte_code option res" where
  "ccb_alloc_bc ok1 ok2 tsm_reserve =
     (if \<not> ok1 then Inr None
      else if \<not> ok2 then Inl Null_Deref
      else bindR (memset_int (replicate (nat (4 * BYTE_CODE_DEFAULT_SIZE)) 0) tsm_reserve
                    BYTE_CODE_DEFAULT_SIZE) (\<lambda>tab.
             Inr (Some \<lparr>bc_cnt = BYTE_CODE_DEFAULT_SIZE, bc_bc = tab\<rparr>)))"

text \<open>The growth loop; from a count of 0 or 1 it does not move, and from below 0 it falls.\<close>

function bc_grow :: "int \<Rightarrow> int \<Rightarrow> int res" where
  "bc_grow need cnt =
     (if need > cnt
      then if cnt < 2 then Inl Hang else bc_grow need (cnt + cnt div 2)
      else Inr cnt)"
  by pat_completeness auto
termination
  by (relation "measure (\<lambda>(need, cnt). nat (need - cnt))") auto

declare bc_grow.simps [simp del]

text \<open>
  The source's \<open>p + bc->cnt * sizeof(tsm_bytecode)\<close> is scaled by the pointer arithmetic once
  more: the second copy goes to the byte offset \<open>16 * bc->cnt\<close>.
\<close>

definition ccb_add_bc :: "bool \<Rightarrow> u32 \<Rightarrow> bc_set option \<Rightarrow> byte_code \<Rightarrow> byte_code res" where
  "ccb_add_bc ok tsm_reserve bcs bc =
     bindR (deref bcs) (\<lambda>s.
     bindR (bc_grow (bcs_base s + bcs_cnt s) (bc_cnt bc)) (\<lambda>cnt.
       if \<not> ok then Inl Null_Deref
       else bindR (memset_int (replicate (nat (4 * cnt)) 0) tsm_reserve cnt) (\<lambda>p.
            bindR (memcpy_int p (bc_bc bc) (bc_cnt bc)) (\<lambda>p.
              if bcs_cnt s \<le> 0 then Inr \<lparr>bc_cnt = cnt, bc_bc = p\<rparr>
              else let off = 16 * bc_cnt bc in
                if off < 0 \<or> off > int (length p) then Inl Out_Of_Bounds
                else bindR (memcpy_int (drop (nat off) p) (bcs_bc s) (bcs_cnt s)) (\<lambda>q.
                       Inr \<lparr>bc_cnt = cnt, bc_bc = take (nat off) p @ q\<rparr>)))))"

section \<open>Creation\<close>

definition is_space :: "u8 \<Rightarrow> bool" where
  "is_space c \<longleftrightarrow> c = 32 \<or> (9 \<le> c \<and> c \<le> 13)"

definition is_digit :: "u8 \<Rightarrow> bool" where
  "is_digit c \<longleftrightarrow> 48 \<le> c \<and> c \<le> 57"

text \<open>
  The C library's \<open>atoi\<close>: it reads on until a character that is no digit. A number that is no
  \<open>int\<close> has no defined result.
\<close>

fun atoi_digits :: "u8 list \<Rightarrow> int \<Rightarrow> int res" where
  "atoi_digits [] acc = Inl Out_Of_Bounds"
| "atoi_digits (c # cs) acc =
     (if is_digit c then atoi_digits cs (acc * 10 + (uint c - 48)) else Inr acc)"

fun atoi_text :: "u8 list \<Rightarrow> int res" where
  "atoi_text [] = Inl Out_Of_Bounds"
| "atoi_text (c # cs) =
     (if is_space c then atoi_text cs
      else if c = 45 then bindR (atoi_digits cs 0) (\<lambda>v. Inr (- v))
      else if c = 43 then atoi_digits cs 0
      else atoi_digits (c # cs) 0)"

definition atoi :: "u8 list \<Rightarrow> int res" where
  "atoi s = bindR (atoi_text s) (\<lambda>v. if - (2 ^ 31) \<le> v \<and> v < 2 ^ 31 then Inr v else Inl Undefined)"

text \<open>
  \<open>load\<close> stands for \<open>scloader_load\<close>, which reads a file. The local \<open>dl\<close> of the source is never
  assigned, so the first \<open>TAG_DLL\<close> entry uses an indeterminate pointer.
\<close>

definition ccb_create_ccb ::
  "bool \<Rightarrow> bool \<Rightarrow> bool \<Rightarrow> bool \<Rightarrow> bool \<Rightarrow> u32 \<Rightarrow> (u8 list \<Rightarrow> script_entry option res) \<Rightarrow> router_tlv list
     \<Rightarrow> tsm_ccb option res"
where
  "ccb_create_ccb ok1 ok2 ok3 ok4 ok5 tsm_reserve load tlv =
     (if \<not> ok1 then Inr None
      else let bre = zc_hashtable_new ok2 ok3 HASH_TABLE_DEFAULT_SIZE zc_hashtable_str_hash
                       zc_hashtable_str_equal False True in
        bindR (case find (\<lambda>n. tlv_tag n = TAG_SESSION) tlv of
                 None \<Rightarrow> Inr 0 | Some n \<Rightarrow> bindR (atoi (tlv_val n)) (\<lambda>v. Inr (of_int v))) (\<lambda>session.
        bindR (case find (\<lambda>n. tlv_tag n = TAG_SCRIPT) tlv of
                 None \<Rightarrow> Inr None | Some n \<Rightarrow> load (tlv_val n)) (\<lambda>se.
        bindR (ccb_alloc_bc ok4 ok5 tsm_reserve) (\<lambda>bc.
          if \<exists>n\<in>set tlv. tlv_tag n = TAG_DLL then Inl Undefined
          else Inr (Some \<lparr>cc_PC = 0, cc_write_back = 0, cc_bootstrap = 0, cc_session = session,
                 cc_cmdQ = [], cc_apduQ = [], cc_bc = bc, cc_se = se, cc_bre = bre\<rparr>)))))"

section \<open>Lemmas\<close>

lemma ccb_set_get:
  "bindR (ccb_set_PC (Some p) a) (\<lambda>q. ccb_get_PC (Some q)) = Inr a"
  "bindR (ccb_set_script (Some p) s) (\<lambda>q. ccb_get_script (Some q)) = Inr s"
  "bindR (ccb_set_write_back (Some p) v) (\<lambda>q. ccb_get_write_back (Some q)) = Inr v"
  "bindR (ccb_set_bootstrap (Some p) v) (\<lambda>q. ccb_get_bootstrap (Some q)) = Inr v"
  by (simp_all add: ccb_set_PC_def ccb_get_PC_def ccb_set_script_def ccb_get_script_def
      ccb_set_write_back_def ccb_get_write_back_def ccb_set_bootstrap_def ccb_get_bootstrap_def)

lemma bc_grow_bounds:
  "2 \<le> cnt \<Longrightarrow> \<exists>c. bc_grow need cnt = Inr c \<and> need \<le> c \<and> cnt \<le> c \<and> (c = cnt \<or> 2 * c \<le> 3 * need)"
proof (induction need cnt rule: bc_grow.induct)
  case (1 need cnt)
  show ?case
  proof (cases "need > cnt")
    case True
    then obtain c where c: "bc_grow need (cnt + cnt div 2) = Inr c" "need \<le> c" "cnt + cnt div 2 \<le> c"
        "c = cnt + cnt div 2 \<or> 2 * c \<le> 3 * need"
      using 1 by fastforce
    have "2 * (cnt div 2) \<le> cnt" by simp
    then have "2 * (cnt + cnt div 2) \<le> 3 * need" using True by (simp add: algebra_simps)
    then show ?thesis using c True "1.prems" by (subst bc_grow.simps) auto
  next
    case False
    then show ?thesis by (subst bc_grow.simps) auto
  qed
qed

lemma le_word_replicate4: "le_word (replicate 4 b) = ucast b * 0x01010101"
  by (simp add: eval_nat_numeral algebra_simps)

lemma memset_int_table:
  assumes "1 \<le> n"
  shows "memset_int (replicate (4 * n) 0) v (int n)
    = Inr (replicate n (ucast v) @ tl (le_bytes v) @ replicate (3 * n - 3) 0)"
  using memset_int_loop_ok [of 0 n "replicate (4 * n) 0" v] assms
  by (simp add: memset_int_def)

lemma ucast_u8: "ucast (ucast x :: u8) = take_bit 8 (x :: u32)"
  by (rule bit_word_eqI) (auto simp: bit_simps)

lemma le_word_step: "take_bit 8 x + 256 * drop_bit 8 x = (x :: u32)"
  using bits_ident [of 8 x] by (simp add: push_bit_eq_mult algebra_simps)

lemma le_word_drop8:
  "le_word [ucast (drop_bit 8 v), ucast (drop_bit 16 v), ucast (drop_bit 24 v), 0] = drop_bit 8 (v :: u32)"
proof -
  have "take_bit 8 (drop_bit 24 v) = drop_bit 24 v"
    by (rule bit_word_eqI) (auto simp: bit_simps dest: bit_imp_le_length)
  then show ?thesis
    using le_word_step [of "drop_bit 8 v"] le_word_step [of "drop_bit 16 v"]
    by (simp add: ucast_u8)
qed

section \<open>Properties\<close>

text \<open>
  The fresh byte code table is not filled with \<open>tsm_reserve\<close>: its first 128 slots hold
  the low byte of that address four times, the next one the three other bytes, and the remaining
  383 are NULL.
\<close>

theorem ccb_alloc_bc_slots:
  assumes "0 \<le> j" and "j < 512"
  shows "bindR (ccb_alloc_bc True True v) (\<lambda>bc. bindR (deref bc) (\<lambda>t. bc_slot (bc_bc t) j))
     = Inr (if j < 128 then ucast (ucast v :: u8) * 0x01010101 else if j = 128 then drop_bit 8 v else 0)"
proof -
  define tab where "tab = replicate 512 (ucast v :: u8) @ tl (le_bytes v) @ replicate 1533 0"
  have a: "ccb_alloc_bc True True v = Inr (Some \<lparr>bc_cnt = 512, bc_bc = tab\<rparr>)"
    using memset_int_table [of 512 v] by (simp add: ccb_alloc_bc_def BYTE_CODE_DEFAULT_SIZE_def tab_def)
  obtain n where n: "j = int n" "n < 512" using assms by (metis nonneg_int_cases of_nat_less_numeral_iff)
  have l: "length tab = 2048" by (simp add: tab_def le_bytes_def)
  have s: "bc_slot tab j = Inr (le_word (take 4 (drop (4 * n) tab)))"
    using n l by (simp add: bc_slot_def rdn_def nat_mult_distrib)
  consider "n < 128" | "n = 128" | "128 < n" by linarith
  then have "le_word (take 4 (drop (4 * n) tab))
      = (if j < 128 then ucast (ucast v :: u8) * 0x01010101 else if j = 128 then drop_bit 8 v else 0)"
  proof cases
    case 1
    then have "take 4 (drop (4 * n) tab) = replicate 4 (ucast v)" by (simp add: tab_def min_def)
    then show ?thesis using 1 n by (simp only: le_word_replicate4) simp
  next
    case 2
    then have "take 4 (drop (4 * n) tab)
        = [ucast (drop_bit 8 v), ucast (drop_bit 16 v), ucast (drop_bit 24 v), 0]"
      by (simp add: tab_def le_bytes_def take_Cons' numeral_eq_Suc)
    then show ?thesis using 2 n by (simp only: le_word_drop8) simp
  next
    case 3
    then have "4 * n = 515 + (4 * n - 515)" by linarith
    then have "drop (4 * n) tab = drop (4 * n - 515) (drop 515 tab)" by (simp add: add.commute)
    moreover have "drop 515 tab = replicate 1533 0" by (simp add: tab_def le_bytes_def)
    ultimately have "take 4 (drop (4 * n) tab) = replicate 4 0" using 3 n by (simp add: min_def)
    then show ?thesis using 3 n by (simp only: le_word_replicate4) simp
  qed
  then show ?thesis by (simp add: a s)
qed

theorem ccb_alloc_bc_slots_example:
  "bindR (ccb_alloc_bc True True 0x08041234) (\<lambda>bc. bindR (deref bc) (\<lambda>t. bc_slot (bc_bc t) 3))
     = Inr 0x34343434"
  using ccb_alloc_bc_slots [of 3 "0x08041234"] by simp

text \<open>
  Adding a byte code set that fits the table (or doubles it at most) always writes outside the
  new table, because the second copy starts at four times the intended offset.
\<close>

theorem ccb_add_bc_overflow:
  assumes "0 < bcs_cnt s" and "2 \<le> bc_cnt t" and "bcs_base s + bcs_cnt s \<le> 2 * bc_cnt t"
    and "int (length (bc_bc t)) = 4 * bc_cnt t"
  shows "ccb_add_bc True v (Some s) t = Inl Out_Of_Bounds"
proof -
  obtain c where c: "bc_grow (bcs_base s + bcs_cnt s) (bc_cnt t) = Inr c" "bc_cnt t \<le> c"
      "c \<le> 3 * bc_cnt t"
    using bc_grow_bounds [where cnt = "bc_cnt t" and need = "bcs_base s + bcs_cnt s"] assms(2,3)
    by fastforce
  obtain n m where nm: "c = int n" "bc_cnt t = int m"
    using c assms(2) by (metis dual_order.trans zero_le_numeral nonneg_int_cases)
  have len: "length (bc_bc t) = 4 * m" using assms(4) nm by simp
  define p where "p = replicate n (ucast v :: u8) @ tl (le_bytes v) @ replicate (3 * n - 3) 0"
  have n: "2 \<le> m" "m \<le> n" "n \<le> 3 * m" using c assms(2) nm by auto
  have p: "memset_int (replicate (4 * n) 0) v (int n) = Inr p" "length p = 4 * n"
    using memset_int_table [of n v] n by (simp_all add: p_def le_bytes_def)
  have "memcpy_int p (bc_bc t) (int m) = Inr (take (m + 3) (bc_bc t) @ drop (m + 3) p)"
    using memcpy_int_loop_ok [of 0 m p "bc_bc t"] n p(2) len by (simp add: memcpy_int_def)
  moreover have "length (take (m + 3) (bc_bc t) @ drop (m + 3) p) = 4 * n"
    using n p(2) len by simp
  ultimately show ?thesis
    using c(1) p(1) nm n assms(1) by (simp add: ccb_add_bc_def Let_def nat_mult_distrib)
qed

theorem ccb_add_bc_overflow_example:
  "ccb_add_bc True 0x08041234 (Some \<lparr>bcs_name = [103, 112, 0], bcs_base = 1, bcs_cnt = 1,
      bcs_bc = [1, 2, 3, 4]\<rparr>) \<lparr>bc_cnt = 2, bc_bc = [0, 0, 0, 0, 0, 0, 0, 0]\<rparr> = Inl Out_Of_Bounds"
  by (rule ccb_add_bc_overflow) simp_all

definition dec_val :: "u8 list \<Rightarrow> int" where
  "dec_val ds = foldl (\<lambda>a c. a * 10 + (uint c - 48)) 0 ds"

lemma atoi_digits_ok:
  "\<forall>c\<in>set ds. is_digit c \<Longrightarrow> \<not> is_digit e \<Longrightarrow>
   atoi_digits (ds @ e # r) acc = Inr (foldl (\<lambda>a c. a * 10 + (uint c - 48)) acc ds)"
  by (induction ds arbitrary: acc) auto

lemma dec_val_nonneg: "\<forall>c\<in>set ds. is_digit c \<Longrightarrow> 0 \<le> dec_val ds"
proof -
  have "\<forall>c\<in>set ds. is_digit c \<Longrightarrow> 0 \<le> acc \<Longrightarrow> 0 \<le> foldl (\<lambda>a c. a * 10 + (uint c - 48)) acc ds" for acc
    by (induction ds arbitrary: acc) (auto simp: is_digit_def word_le_def)
  then show "\<forall>c\<in>set ds. is_digit c \<Longrightarrow> 0 \<le> dec_val ds" by (simp add: dec_val_def)
qed

lemma atoi_ok:
  assumes "\<forall>c\<in>set ds. is_digit c" and "ds \<noteq> []" and "\<not> is_digit e" and "dec_val ds < 2 ^ 31"
  shows "atoi (ds @ e # r) = Inr (dec_val ds)"
proof -
  obtain c cs where ds: "ds = c # cs" using assms(2) by (cases ds) auto
  have "is_digit c" using assms(1) ds by simp
  then have "\<not> is_space c" "c \<noteq> 45" "c \<noteq> 43"
    by (auto simp: is_digit_def is_space_def word_le_nat_alt)
  then have "atoi_text (ds @ e # r) = atoi_digits (ds @ e # r) 0" using ds by simp
  also have "\<dots> = Inr (dec_val ds)" using atoi_digits_ok [OF assms(1,3)] by (simp add: dec_val_def)
  finally show ?thesis using dec_val_nonneg [OF assms(1)] assms(4) by (simp add: atoi_def)
qed

text \<open>
  A control block is created for the first session number among the parameters, with its
  program counter at 0, no flag raised, empty queues and no variable set - unless the parameters
  name a library, in which case the creation uses a pointer that was never assigned.
\<close>

theorem ccb_create_ccb_fresh:
  assumes "find (\<lambda>n. tlv_tag n = TAG_SESSION) tlv = Some n" and "tlv_val n = ds @ 0 # r"
    and "\<forall>c\<in>set ds. is_digit c" and "ds \<noteq> []" and "dec_val ds < 2 ^ 31" and "\<forall>b. load b = Inr se"
  shows "(case ccb_create_ccb True True True True True v load tlv of
            Inl e \<Rightarrow> e = Undefined \<and> TAG_DLL \<in> tlv_tag ` set tlv
          | Inr None \<Rightarrow> False
          | Inr (Some p) \<Rightarrow> TAG_DLL \<notin> tlv_tag ` set tlv
              \<and> ccb_get_session (Some p) = Inr (of_int (dec_val ds)) \<and> ccb_get_PC (Some p) = Inr 0
              \<and> ccb_get_write_back (Some p) = Inr 0 \<and> ccb_get_cmdQ (Some p) = Inr []
              \<and> (\<forall>k. terminated k \<longrightarrow> data_get_by_name (Some p) k = Inr None))"
proof -
  obtain bc where bc: "ccb_alloc_bc True True v = Inr bc"
    using memset_int_table [of 512 v] by (simp add: ccb_alloc_bc_def BYTE_CODE_DEFAULT_SIZE_def)
  obtain t :: "(u8 list, fmBytes) hashtable" where
    t: "zc_hashtable_new True True HASH_TABLE_DEFAULT_SIZE zc_hashtable_str_hash
          zc_hashtable_str_equal False True = Some t" "str_ht_ok t" "ht_map cstr t = Map.empty"
    using str_ht_new [of HASH_TABLE_DEFAULT_SIZE False True] by (auto simp: HASH_TABLE_DEFAULT_SIZE_def)
  have n: "\<not> is_digit 0" by (simp add: is_digit_def)
  have se: "\<exists>s. (case find (\<lambda>n. tlv_tag n = TAG_SCRIPT) tlv of None \<Rightarrow> Inr None | Some n \<Rightarrow> load (tlv_val n)) = Inr s"
    using assms(6) by (auto split: option.split)
  have "data_get_by_name (Some p) k = Inr None" if "cc_bre p = Some t" "terminated k" for p k
    using that str_get_ok [OF t(2) that(2)] t(3)
    by (simp add: data_get_by_name_def ccb_get_bre_def)
  moreover have "TAG_DLL \<in> tlv_tag ` set tlv \<longleftrightarrow> (\<exists>n\<in>set tlv. tlv_tag n = TAG_DLL)" by force
  ultimately show ?thesis
    using assms(1,2) se t(1) atoi_ok [OF assms(3,4) n assms(5), of r]
    by (auto simp: ccb_create_ccb_def bc ccb_get_session_def ccb_get_PC_def ccb_get_write_back_def
        ccb_get_cmdQ_def)
qed

theorem ccb_create_ccb_fresh_example:
  "case ccb_create_ccb True True True True True 0 (\<lambda>b. Inr None)
       [\<lparr>tlv_tag = 0x10, tlv_len = 3, tlv_val = [52, 50, 0]\<rparr>] of
     Inr (Some p) \<Rightarrow> ccb_get_session (Some p) = Inr 42 | _ \<Rightarrow> False"
  using ccb_create_ccb_fresh [of "[\<lparr>tlv_tag = 0x10, tlv_len = 3, tlv_val = [52, 50, 0]\<rparr>]"
      "\<lparr>tlv_tag = 0x10, tlv_len = 3, tlv_val = [52, 50, 0]\<rparr>" "[52, 50]" "[]" "\<lambda>b. Inr None" None 0]
  by (auto simp: TAG_SESSION_def TAG_DLL_def is_digit_def dec_val_def split: sum.splits option.splits)

end
