(* ===== verification/Tsm_Clib.thy ===== *)
theory Tsm_Clib
  imports Tsm_Ccb
begin

text \<open>
  What the loaders use of the C library: reading a file by lines, splitting a string into tokens,
  and formatted scanning with the conversions of their format strings. A file is the list of its
  bytes; a string is the list of its characters without the terminator.
\<close>

section \<open>Lines\<close>

text \<open>At most \<open>n\<close> bytes, up to and including the first newline, and the rest.\<close>

fun line_split :: "nat \<Rightarrow> u8 list \<Rightarrow> u8 list \<times> u8 list" where
  "line_split 0 f = ([], f)"
| "line_split (Suc n) [] = ([], [])"
| "line_split (Suc n) (c # f) =
     (if c = 0x0A then ([c], f) else (let (l, r) = line_split n f in (c # l, r)))"

text \<open>\<open>fgets(line,n,f)\<close> on a file that is not at its end: the string in the buffer, and the rest.\<close>

definition fgets :: "nat \<Rightarrow> u8 list \<Rightarrow> u8 list \<times> u8 list" where
  "fgets n f = (let (l, r) = line_split (n - 1) f in (cstr l, r))"

lemma line_split_length: "f \<noteq> [] \<Longrightarrow> 0 < n \<Longrightarrow> length (snd (line_split n f)) < length f"
proof (induction n f rule: line_split.induct)
  case (3 n c f)
  show ?case
  proof (cases "c = 0x0A \<or> n = 0 \<or> f = []")
    case True
    then show ?thesis by (cases n; cases f) (auto split: prod.splits)
  next
    case False
    then show ?thesis using "3.IH" by (auto split: prod.splits)
  qed
qed simp_all

lemma fgets_length: "f \<noteq> [] \<Longrightarrow> 2 \<le> n \<Longrightarrow> length (snd (fgets n f)) < length f"
  using line_split_length [of f "n - 1"] by (simp add: fgets_def split_beta Let_def)

lemma fgets_less: "(l, f') = fgets 1024 f \<Longrightarrow> f \<noteq> [] \<Longrightarrow> length f' < length f"
proof -
  assume eq: "(l, f') = fgets 1024 f" and "f \<noteq> []"
  then have "length (snd (fgets 1024 f)) < length f" by (intro fgets_length) simp_all
  then show ?thesis unfolding eq [symmetric] by simp
qed

lemma line_split_line:
  "0x0A \<notin> set l \<Longrightarrow> length l < n \<Longrightarrow> line_split n (l @ 0x0A # f) = (l @ [0x0A], f)"
proof (induction l arbitrary: n)
  case Nil
  then show ?case by (cases n) auto
next
  case (Cons c l)
  then show ?case by (cases n) auto
qed

lemma fgets_line:
  assumes "0x0A \<notin> set l" and "0 \<notin> set l" and "length l + 1 < n"
  shows "fgets n (l @ 0x0A # f) = (l @ [0x0A], f)"
proof -
  have "cstr (l @ [0x0A]) = l @ [0x0A]" using assms(2) by (auto simp: cstr_def takeWhile_eq_all_conv)
  then show ?thesis using assms line_split_line [of l "n - 1" f] by (simp add: fgets_def)
qed

section \<open>Tokens\<close>

text \<open>What successive calls of \<open>strtok\<close> return: the longest runs without a delimiter.\<close>

function tokens :: "(u8 \<Rightarrow> bool) \<Rightarrow> u8 list \<Rightarrow> u8 list list" where
  "tokens d s =
     (case dropWhile d s of
        [] \<Rightarrow> []
      | c # r \<Rightarrow> (c # takeWhile (\<lambda>x. \<not> d x) r) # tokens d (dropWhile (\<lambda>x. \<not> d x) r))"
  by pat_completeness auto
termination
proof (relation "measure (length \<circ> snd)", simp, goal_cases)
  case (1 d s c r)
  have "length (dropWhile (\<lambda>x. \<not> d x) r) \<le> length r" by (rule length_dropWhile_le)
  also have "\<dots> < length (dropWhile d s)" using 1 by simp
  also have "\<dots> \<le> length s" by (rule length_dropWhile_le)
  finally show ?case by simp
qed

declare tokens.simps [simp del]

lemma tokens_Nil [simp]: "tokens d [] = []"
  by (subst tokens.simps) simp

lemma tokens_delim [simp]: "d c \<Longrightarrow> tokens d (c # s) = tokens d s"
  by (subst tokens.simps, subst (2) tokens.simps) simp

lemma tokens_word:
  assumes "w \<noteq> []" and "\<forall>c\<in>set w. \<not> d c" and "s = [] \<or> d (hd s)"
  shows "tokens d (w @ s) = w # tokens d s"
proof -
  obtain c r where w: "w = c # r" using assms(1) by (cases w) auto
  have "takeWhile (\<lambda>x. \<not> d x) (r @ s) = r" "dropWhile (\<lambda>x. \<not> d x) (r @ s) = s"
    using assms w by (cases s; simp add: takeWhile_append dropWhile_append)+
  then show ?thesis using assms(2) w by (subst tokens.simps) simp
qed

section \<open>Formatted scanning\<close>

text \<open>
  A white space directive, a literal character, \<open>%s\<close>, a scan set, a scan set that is not
  assigned, and \<open>%d\<close>. The result is the list of the assigned values; its length is the return
  value of \<open>sscanf\<close> (the code never tells 0 from EOF). \<open>%n\<close> assigns nothing the code reads.
\<close>

datatype conv = Ws | Lit u8 | Str | Set_of "u8 \<Rightarrow> bool" | Skip_of "u8 \<Rightarrow> bool" | Num

datatype sval = SStr "u8 list" | SInt int

definition scan_num :: "u8 list \<Rightarrow> (int \<times> u8 list) option" where
  "scan_num s =
     (let t = dropWhile is_space s;
          neg = (t \<noteq> [] \<and> hd t = 45);
          u = (if t \<noteq> [] \<and> (hd t = 45 \<or> hd t = 43) then tl t else t);
          ds = takeWhile is_digit u
      in if ds = [] then None else Some (if neg then - dec_val ds else dec_val ds, drop (length ds) u))"

fun sscanf :: "conv list \<Rightarrow> u8 list \<Rightarrow> sval list" where
  "sscanf [] s = []"
| "sscanf (Ws # cs) s = sscanf cs (dropWhile is_space s)"
| "sscanf (Lit c # cs) s = (case s of [] \<Rightarrow> [] | x # r \<Rightarrow> if x = c then sscanf cs r else [])"
| "sscanf (Str # cs) s =
     (let t = dropWhile is_space s; w = takeWhile (\<lambda>x. \<not> is_space x) t
      in if w = [] then [] else SStr w # sscanf cs (drop (length w) t))"
| "sscanf (Set_of P # cs) s =
     (let w = takeWhile P s in if w = [] then [] else SStr w # sscanf cs (drop (length w) s))"
| "sscanf (Skip_of P # cs) s =
     (let w = takeWhile P s in if w = [] then [] else sscanf cs (drop (length w) s))"
| "sscanf (Num # cs) s = (case scan_num s of None \<Rightarrow> [] | Some (v, r) \<Rightarrow> SInt v # sscanf cs r)"

text \<open>The string of the \<open>n\<close>-th assignment, or the old contents of its buffer.\<close>

definition str_at :: "u8 list \<Rightarrow> sval list \<Rightarrow> nat \<Rightarrow> u8 list" where
  "str_at old vs n = (if n < length vs then (case vs ! n of SStr w \<Rightarrow> w | SInt i \<Rightarrow> old) else old)"

text \<open>A string stored with its terminator into a buffer of \<open>n\<close> bytes.\<close>

definition fits :: "nat \<Rightarrow> u8 list \<Rightarrow> 'a res \<Rightarrow> 'a res" where
  "fits n w r = (if length w < n then r else Inl Out_Of_Bounds)"

lemma fits_simps [simp]: "length w < n \<Longrightarrow> fits n w r = r"
  by (simp add: fits_def)

fun contains :: "u8 list \<Rightarrow> u8 list \<Rightarrow> bool" where
  "contains p [] = (p = [])"
| "contains p (c # s) = (take (length p) (c # s) = p \<or> contains p s)"

text \<open>\<open>%s\<close> stops at white space, so a literal that is no white space cannot follow it.\<close>

lemma sscanf_Str_Lit:
  assumes "\<not> is_space c"
  shows "length (sscanf (Str # Lit c # cs) s) \<le> 1"
proof -
  let ?t = "dropWhile is_space s" and ?P = "\<lambda>x. \<not> is_space x"
  have d: "drop (length (takeWhile ?P ?t)) ?t = dropWhile ?P ?t"
    by (metis dropWhile_eq_drop)
  have "sscanf (Lit c # cs) (dropWhile ?P ?t) = []"
  proof (cases "dropWhile ?P ?t")
    case (Cons x r)
    then have "is_space x" using hd_dropWhile [of ?P ?t] by simp
    then have "x \<noteq> c" using assms by auto
    then show ?thesis unfolding Cons by simp
  next
    case Nil
    then show ?thesis by (simp only: sscanf.simps list.case)
  qed
  then show ?thesis by (simp add: Let_def d)
qed

lemma sscanf_Str_word:
  assumes "w \<noteq> []" and "\<forall>c\<in>set w. \<not> is_space c" and "s = [] \<or> is_space (hd s)"
  shows "sscanf (Str # cs) (w @ s) = SStr w # sscanf cs s"
proof -
  have "dropWhile is_space (w @ s) = w @ s" using assms(1,2) by (cases w) auto
  moreover have "takeWhile (\<lambda>x. \<not> is_space x) (w @ s) = w"
    using assms(2,3) by (cases s) (auto simp: takeWhile_append takeWhile_eq_all_conv)
  ultimately show ?thesis using assms(1) by (simp add: Let_def)
qed

end
