(* ===== verification/Tsm_Scloader.thy ===== *)
theory Tsm_Scloader
  imports Tsm_Clib
begin

text \<open>
  \<open>tsm_scloader.c\<close>: reading a script. A line is a byte code number, a comma, and parameters
  separated by colons; lines that start with a hash or a carriage return are skipped. The script
  under construction keeps its entries as pointers in a block that grows; \<open>adr k\<close> is the address
  of the \<open>k\<close>-th entry, and \<open>sc_view\<close> what the finished table points to. Allocations succeed. What
  the loader logs on its way is a list of log calls, threaded through it.
\<close>

section \<open>State\<close>

record sc_script =
  sc_name :: "u8 list"
  sc_size :: int
  sc_code_num :: int
  sc_ces :: "u32 list"
  sc_heap :: "(u32 \<times> code_entry) list"

text \<open>The log calls of \<open>scloader_load\<close> (the first four and \<open>Parm_Hex\<close>) and of \<open>main\<close>.\<close>

datatype log_item =
    Sc_In | Line_Hex "u8 list" | Sc_Code int | Parm_Hex "u8 list"
  | Sc_Name "u8 list option" | Sc_Size int | Sc_Num int | Sc_Entry int int | Parm_Cnt int | Parm_No int

type_synonym log = "log_item list"

definition DEFAULT_PARAM_NUM :: int where "DEFAULT_PARAM_NUM = 5"
definition DEFAULT_SC_ENTRY_NUM :: nat where "DEFAULT_SC_ENTRY_NUM = 128"

definition sc_view :: "sc_script \<Rightarrow> script_entry" where
  "sc_view s = \<lparr>se_name = Some (sc_name s), se_size = sc_size s, se_code_num = sc_code_num s,
     se_ces = map (\<lambda>p. if p = 0 then None else map_of (sc_heap s) p) (sc_ces s)\<rparr>"

section \<open>Operations\<close>

definition is_parameterless :: "u8 list \<Rightarrow> bool" where
  "is_parameterless l \<longleftrightarrow> 0x2C \<notin> set l"

definition se_alloc :: "u8 list \<Rightarrow> sc_script" where
  "se_alloc nm = \<lparr>sc_name = nm @ [0], sc_size = int DEFAULT_SC_ENTRY_NUM, sc_code_num = 0,
     sc_ces = replicate DEFAULT_SC_ENTRY_NUM 0, sc_heap = []\<rparr>"

fun le_words :: "u8 list \<Rightarrow> u32 list" where
  "le_words (a # b # c # d # r) = le_word [a, b, c, d] # le_words r"
| "le_words _ = []"

text \<open>The new block is twice the size, but the size is not updated; \<open>memcpy_int\<close> moves bytes.\<close>

definition se_resize :: "sc_script \<Rightarrow> sc_script res" where
  "se_resize se =
     bindR (memcpy_int (replicate (nat (8 * sc_size se)) 0) (concat (map le_bytes (sc_ces se)))
              (sc_code_num se)) (\<lambda>b. Inr (se\<lparr>sc_ces := le_words b\<rparr>))"

definition is_delim :: "u8 \<Rightarrow> bool" where
  "is_delim c \<longleftrightarrow> c = 0x2C \<or> c = 0x3A"

text \<open>\<open>FM_LOGH(p->buf,p->leng)\<close>.\<close>

definition log_hex :: "fmBytes option \<Rightarrow> u8 list res" where
  "log_hex p = bindR (deref p) (\<lambda>q.
     if fb_leng q \<le> 0 then Inr [] else bindR (deref (fb_buf q)) (\<lambda>b. rdn b 0 (fb_leng q)))"

text \<open>The parameters from the second token on; \<open>i\<close> counts them.\<close>

fun add_parms :: "u8 list list \<Rightarrow> nat \<Rightarrow> fmBytes_array \<Rightarrow> log \<Rightarrow> (fmBytes_array \<times> log) res" where
  "add_parms [] i a lg = Inr (a, lg)"
| "add_parms (p # ps) i a lg =
     bindR (fmBytes_copy_from (fmBytes_alloc True True (int (length p))) 0 (Some (p @ [0])) 0 (int (length p)))
       (\<lambda>(rc, parm).
     bindR (log_hex parm) (\<lambda>xs.
     bindR (if fa_size a - fa_cnt a < 1
            then fmBytes_array_resize True True a (2 * DEFAULT_PARAM_NUM) else Inr a) (\<lambda>a.
     bindR (wr (fa_array a) (int i) parm) (\<lambda>arr.
       add_parms ps (i + 1) (a\<lparr>fa_array := arr, fa_cnt := int i + 1\<rparr>) (lg @ [Parm_Hex xs])))))"

text \<open>A line after its end is cut off: a trailing newline or carriage return, and a carriage
  return before it. Both tests index the line from its original length.\<close>

definition cut_line :: "u8 list \<Rightarrow> u8 list res" where
  "cut_line l =
     (let n = int (length l) in
      bindR (rd l (n - 1)) (\<lambda>c.
      bindR (rd l (n - 2)) (\<lambda>c2.
        let l1 = (if c = 0x0A \<or> c = 0x0D then take (nat (n - 1)) l else l)
        in Inr (if c2 = 0x0D then take (nat (n - 2)) l1 else l1))))"

text \<open>
  \<open>FM_LOGH(line,128)\<close> after the cut: the start of the buffer, which was zero before the line was read
  into it. \<open>raw\<close> is what was read; the string \<open>l\<close> ends at its first zero byte.
\<close>

definition line_dump :: "u8 list \<Rightarrow> u8 list \<Rightarrow> u8 list" where
  "line_dump raw l =
     (let n = length l;
          b = raw @ replicate (1024 - length raw) 0;
          b = (if l ! (n - 1) = 0x0A \<or> l ! (n - 1) = 0x0D then b[n - 1 := 0] else b);
          b = (if l ! (n - 2) = 0x0D then b[n - 2 := 0] else b)
      in take 128 b)"

definition parse_entry :: "int \<Rightarrow> u8 list \<Rightarrow> u8 list \<Rightarrow> log \<Rightarrow> (code_entry \<times> log) res" where
  "parse_entry addr raw l lg =
     bindR (cut_line l) (\<lambda>s. let lg = lg @ [Line_Hex (line_dump raw l)] in
       if is_parameterless l
       then Inr (\<lparr>ce_addr = addr, ce_code = (case sscanf [Num] s of [SInt v] \<Rightarrow> v | _ \<Rightarrow> 0),
                 ce_parameters = None\<rparr>, lg)
       else (case tokens is_delim s of
               [] \<Rightarrow> Inl Null_Deref
             | t # ts \<Rightarrow>
                 bindR (atoi (t @ [0])) (\<lambda>code.
                 bindR (deref (fmBytes_array_alloc True True DEFAULT_PARAM_NUM)) (\<lambda>a.
                 bindR (add_parms ts 0 a (lg @ [Sc_Code code])) (\<lambda>(a, lg).
                   Inr (\<lparr>ce_addr = addr, ce_code = code, ce_parameters = Some a\<rparr>, lg))))))"

definition store_entry :: "u32 \<Rightarrow> code_entry \<Rightarrow> sc_script \<Rightarrow> sc_script res" where
  "store_entry p ce se =
     bindR (if sc_size se - sc_code_num se < 1 then se_resize se else Inr se) (\<lambda>se.
     bindR (wr (sc_ces se) (sc_code_num se) p) (\<lambda>ces.
       Inr (se\<lparr>sc_ces := ces, sc_code_num := sc_code_num se + 1, sc_heap := (p, ce) # sc_heap se\<rparr>)))"

function sc_lines :: "(nat \<Rightarrow> u32) \<Rightarrow> u8 list \<Rightarrow> nat \<Rightarrow> sc_script \<Rightarrow> log \<Rightarrow> (sc_script \<times> log) res" where
  "sc_lines adr f addr se lg =
     (if f = [] then Inr (se, lg)
      else let (l, f') = fgets 1024 f in
        if l \<noteq> [] \<and> (hd l = 0x23 \<or> hd l = 0x0D) then sc_lines adr f' addr se lg
        else bindR (parse_entry (int addr) (fst (line_split 1023 f)) l lg) (\<lambda>(ce, lg).
             bindR (store_entry (adr addr) ce se) (\<lambda>se. sc_lines adr f' (addr + 1) se lg)))"
  by (pat_completeness, simp)

termination
  by (relation "measure (\<lambda>(adr, f, addr, se, lg). length f)") (auto dest: fgets_less)

declare sc_lines.simps [simp del]

definition scloader_load ::
  "(nat \<Rightarrow> u32) \<Rightarrow> (u8 list \<Rightarrow> u8 list option) \<Rightarrow> u8 list \<Rightarrow> log \<Rightarrow> (sc_script option \<times> log) res"
where
  "scloader_load adr fopen path lg =
     (case fopen (cstr path) of
        None \<Rightarrow> Inr (None, lg)
      | Some f \<Rightarrow>
          bindR (get_filename_from_path (Some path) (Some (replicate 512 0)) 512) (\<lambda>(rc, nm).
          bindR (deref nm) (\<lambda>nm. bindR (strlen nm) (\<lambda>n.
          bindR (sc_lines adr f 0 (se_alloc (cstr nm)) (lg @ [Sc_In])) (\<lambda>(se, lg). Inr (Some se, lg))))))"

section \<open>Lemmas\<close>

definition parm_array :: "u8 list list \<Rightarrow> fmBytes_array" where
  "parm_array ps =
     (let n = (if length ps \<le> 5 then 5 else 10) in
      \<lparr>fa_size = int n, fa_cnt = int (length ps), fa_array = map (Some \<circ> fb_of) ps @ replicate (n - length ps) None\<rparr>)"

lemma copy_fresh:
  "fmBytes_copy_from (fmBytes_alloc True True (int (length p))) 0 (Some (p @ [0])) 0 (int (length p))
     = Inr (0, Some (fb_of p))"
  by (simp add: fmBytes_alloc_def fmBytes_copy_from_def rdn_def wrn_def fb_of_def)

lemma log_hex_fb [simp]: "log_hex (Some (fb_of p)) = Inr p"
  by (simp add: log_hex_def fb_of_def rdn_def)

lemma parm_room:
  assumes "length ps < 10"
  shows "(if fa_size (parm_array ps) - fa_cnt (parm_array ps) < 1
      then fmBytes_array_resize True True (parm_array ps) (2 * DEFAULT_PARAM_NUM) else Inr (parm_array ps))
    = Inr (let n = (if length ps < 5 then 5 else 10) in
      \<lparr>fa_size = int n, fa_cnt = int (length ps), fa_array = map (Some \<circ> fb_of) ps @ replicate (n - length ps) None\<rparr>)"
proof (cases "length ps = 5")
  case True
  then show ?thesis
    by (simp add: parm_array_def fmBytes_array_resize_def fmBytes_array_alloc_def DEFAULT_PARAM_NUM_def
        rdn_def wrn_def)
next
  case False
  then show ?thesis using assms by (auto simp: parm_array_def Let_def)
qed

lemma add_parms_step:
  assumes "length ps < 10"
  shows "add_parms (p # ts) (length ps) (parm_array ps) lg
    = add_parms ts (length (ps @ [p])) (parm_array (ps @ [p])) (lg @ [Parm_Hex p])"
proof -
  let ?n = "if length ps < 5 then 5 else 10 :: nat"
  obtain m where m: "?n - length ps = Suc m" using assms by (cases "?n - length ps") (auto split: if_splits)
  have "(map (Some \<circ> fb_of) ps @ None # replicate m None)[length ps := Some (fb_of p)]
      = map (Some \<circ> fb_of) (ps @ [p]) @ replicate m None"
    by (simp add: list_update_append)
  moreover have "parm_array (ps @ [p]) = \<lparr>fa_size = int ?n, fa_cnt = int (length ps) + 1,
      fa_array = map (Some \<circ> fb_of) (ps @ [p]) @ replicate m None\<rparr>"
  proof -
    have "?n - Suc (length ps) = m" using m by simp
    then show ?thesis by (auto simp: parm_array_def Let_def)
  qed
  ultimately show ?thesis
    unfolding add_parms.simps copy_fresh parm_room [OF assms] log_hex_fb bindR_simps prod.case
    by (simp add: Let_def m wr_nat)
qed

lemma add_parms_ok:
  "length (ps @ ts) \<le> 10 \<Longrightarrow>
   add_parms (ts @ us) (length ps) (parm_array ps) lg
     = add_parms us (length (ps @ ts)) (parm_array (ps @ ts)) (lg @ map Parm_Hex ts)"
proof (induction ts arbitrary: ps lg)
  case (Cons t ts)
  then have "length ps < 10" by simp
  then have "add_parms ((t # ts) @ us) (length ps) (parm_array ps) lg
      = add_parms (ts @ us) (length (ps @ [t])) (parm_array (ps @ [t])) (lg @ [Parm_Hex t])"
    by (simp only: append_Cons add_parms_step)
  also have "\<dots> = add_parms us (length ((ps @ [t]) @ ts)) (parm_array ((ps @ [t]) @ ts)) ((lg @ [Parm_Hex t]) @ map Parm_Hex ts)"
    using Cons.prems by (intro Cons.IH) simp
  finally show ?case by simp
qed simp

lemma add_parms_overflow:
  assumes "10 < length ts"
  shows "add_parms ts 0 (parm_array []) lg = Inl Out_Of_Bounds"
proof -
  obtain p us where us: "drop 10 ts = p # us" using assms by (cases "drop 10 ts") auto
  have "add_parms (take 10 ts @ drop 10 ts) (length ([] :: u8 list list)) (parm_array []) lg
      = add_parms (drop 10 ts) (length ([] @ take 10 ts)) (parm_array ([] @ take 10 ts)) (lg @ map Parm_Hex (take 10 ts))"
    by (rule add_parms_ok) simp
  also have "\<dots> = Inl Out_Of_Bounds"
    using assms unfolding us add_parms.simps copy_fresh log_hex_fb
    by (simp add: parm_array_def fmBytes_array_resize_def DEFAULT_PARAM_NUM_def wr_def)
  finally show ?thesis by simp
qed

text \<open>An instruction as the script writes it: the digits of its number, and its parameters.\<close>

type_synonym instr = "u8 list \<times> u8 list list"

fun join :: "u8 list list \<Rightarrow> u8 list" where
  "join [] = []"
| "join [p] = p"
| "join (p # ps) = p @ 0x3A # join ps"

definition instr_text :: "instr \<Rightarrow> u8 list" where
  "instr_text = (\<lambda>(ds, ps). ds @ (if ps = [] then [] else 0x2C # join ps))"

definition plain :: "u8 \<Rightarrow> bool" where
  "plain c \<longleftrightarrow> c \<notin> {0, 0x0A, 0x0D, 0x2C, 0x3A}"

definition instr_ok :: "instr \<Rightarrow> bool" where
  "instr_ok = (\<lambda>(ds, ps). ds \<noteq> [] \<and> (\<forall>c\<in>set ds. is_digit c) \<and> dec_val ds < 2 ^ 31 \<and> (\<forall>p\<in>set ps. p \<noteq> [] \<and> (\<forall>c\<in>set p. plain c))
     \<and> length (instr_text (ds, ps)) \<le> 1021)"

definition entry_of :: "int \<Rightarrow> instr \<Rightarrow> code_entry" where
  "entry_of k = (\<lambda>(ds, ps). \<lparr>ce_addr = k, ce_code = dec_val ds,
     ce_parameters = (if ps = [] then None else Some (parm_array ps))\<rparr>)"

text \<open>What the loader logs of an instruction: its line, padded to 128 bytes, its number, its parameters.\<close>

definition load_log :: "instr \<Rightarrow> log" where
  "load_log = (\<lambda>(ds, ps). Line_Hex (take 128 (instr_text (ds, ps) @ replicate 128 0))
     # (if ps = [] then [] else Sc_Code (dec_val ds) # map Parm_Hex ps))"

lemma digit_plain: "is_digit c \<Longrightarrow> plain c"
  by (auto simp: is_digit_def plain_def word_le_nat_alt)

lemma join_chars: "c \<in> set (join ps) \<Longrightarrow> c = 0x3A \<or> (\<exists>p\<in>set ps. c \<in> set p)"
  by (induction ps rule: join.induct) auto

lemma join_Nil: "\<forall>p\<in>set ps. p \<noteq> [] \<Longrightarrow> join ps = [] \<longleftrightarrow> ps = []"
  by (induction ps rule: join.induct) auto

lemma instr_text_chars:
  assumes "instr_ok x"
  shows "0 \<notin> set (instr_text x)" and "0x0A \<notin> set (instr_text x)" and "0x0D \<notin> set (instr_text x)"
    and "instr_text x \<noteq> []" and "0x2C \<in> set (instr_text x) \<longleftrightarrow> snd x \<noteq> []"
proof -
  obtain ds ps where x: "x = (ds, ps)" by fastforce
  have d: "\<forall>c\<in>set ds. plain c" using assms digit_plain by (auto simp: instr_ok_def x)
  have j: "\<forall>c\<in>set (join ps). plain c \<or> c = 0x3A"
    using assms join_chars by (fastforce simp: instr_ok_def x)
  have all: "plain c \<or> c = 0x3A \<or> c = 0x2C" if "c \<in> set (instr_text x)" for c
    using that d j by (auto simp: instr_text_def x split: if_splits)
  have np: "\<not> plain 0" "\<not> plain 0x0A" "\<not> plain 0x0D" "\<not> plain 0x2C" by (simp_all add: plain_def)
  show "0 \<notin> set (instr_text x)" using all [of 0] np(1) by auto
  show "0x0A \<notin> set (instr_text x)" using all [of "0x0A"] np(2) by auto
  show "0x0D \<notin> set (instr_text x)" using all [of "0x0D"] np(3) by auto
  have "0x2C \<notin> set ds" using d np(4) by blast
  then show "0x2C \<in> set (instr_text x) \<longleftrightarrow> snd x \<noteq> []" by (simp add: instr_text_def x)
  show "instr_text x \<noteq> []" using assms by (auto simp: instr_ok_def instr_text_def x)
qed

lemma tokens_join:
  "\<forall>p\<in>set ps. p \<noteq> [] \<and> (\<forall>c\<in>set p. plain c) \<Longrightarrow> tokens is_delim (join ps) = ps"
proof (induction ps rule: join.induct)
  case (2 p)
  then have "tokens is_delim (p @ []) = p # tokens is_delim []"
    by (intro tokens_word) (auto simp: is_delim_def plain_def)
  then show ?case by simp
next
  case (3 p q ps)
  then have "tokens is_delim (p @ 0x3A # join (q # ps)) = p # tokens is_delim (0x3A # join (q # ps))"
    by (intro tokens_word) (auto simp: is_delim_def plain_def)
  moreover have "is_delim 0x3A" by (simp add: is_delim_def)
  ultimately show ?case using 3 by simp
qed simp

lemma tokens_instr:
  assumes "instr_ok (ds, ps)"
  shows "tokens is_delim (instr_text (ds, ps)) = ds # ps"
proof -
  have d: "ds \<noteq> []" "\<forall>c\<in>set ds. plain c" and p: "\<forall>p\<in>set ps. p \<noteq> [] \<and> (\<forall>c\<in>set p. plain c)"
    using assms digit_plain by (auto simp: instr_ok_def)
  have "tokens is_delim (ds @ (if ps = [] then [] else 0x2C # join ps))
      = ds # tokens is_delim (if ps = [] then [] else 0x2C # join ps)"
    using d by (intro tokens_word) (auto simp: is_delim_def plain_def)
  then show ?thesis using tokens_join [OF p] by (auto simp: instr_text_def is_delim_def)
qed

lemma cut_line_ok:
  assumes "s \<noteq> []" and "0x0D \<notin> set s"
  shows "cut_line (s @ [0x0A]) = Inr s"
proof -
  obtain m where m: "length s = Suc m" using assms(1) by (cases s) auto
  then have "s ! m \<in> set s" by simp
  then have "s ! m \<noteq> 0x0D" using assms(2) by metis
  moreover have "int (length (s @ [0x0A :: u8])) - 1 = int (length s)" "int (length (s @ [0x0A :: u8])) - 2 = int m"
    using m by simp_all
  moreover have "rd (s @ [0x0A]) (int (length s)) = Inr 0x0A" by (subst rd_nat) simp_all
  moreover have "rd (s @ [0x0A]) (int m) = Inr (s ! m)" using m by (simp add: rd_nat nth_append)
  ultimately show ?thesis unfolding cut_line_def Let_def by simp
qed

lemma atoi_digits_only:
  assumes "\<forall>c\<in>set ds. is_digit c" and "ds \<noteq> []" and small: "dec_val ds < 2 ^ 31"
  shows "atoi (ds @ [0]) = Inr (dec_val ds)" and "sscanf [Num] ds = [SInt (dec_val ds)]"
proof -
  have "\<not> is_digit 0" by (simp add: is_digit_def)
  then show "atoi (ds @ [0]) = Inr (dec_val ds)" using assms by (intro atoi_ok)
  obtain c cs where ds: "ds = c # cs" using assms(2) by (cases ds) auto
  have "is_digit c" using assms(1) ds by simp
  then have "\<not> is_space c" "c \<noteq> 45" "c \<noteq> 43"
    by (auto simp: is_digit_def is_space_def word_le_nat_alt)
  moreover have "takeWhile is_digit ds = ds" using assms(1) by (simp add: takeWhile_eq_all_conv)
  ultimately show "sscanf [Num] ds = [SInt (dec_val ds)]"
    using ds by (simp add: scan_num_def Let_def)
qed

text \<open>The buffer after the cut holds the line without its end, and zeros.\<close>

lemma line_dump_ok:
  assumes "s \<noteq> []" and "0x0D \<notin> set s" and "0x0A \<notin> set s" and "length s \<le> 1021"
    and "e \<in> {[], [0x0A], [0x0D, 0x0A]}" and "2 \<le> length (s @ e)"
  shows "line_dump (s @ e) (s @ e) = take 128 (s @ replicate 128 0)"
proof -
  have z: "take 128 (s @ replicate n 0) = take 128 (s @ replicate 128 (0 :: u8))" if "n = 1024 - length s" for n
    using that assms(4) by (cases "length s \<le> 128") (simp_all add: min_def)
  have r: "1024 - length s = Suc (1023 - length s)" "1023 - length s = Suc (1022 - length s)"
    using assms(4) by simp_all
  have at: "s ! (length s - 1) \<notin> {0x0A, 0x0D}" "2 \<le> length s \<Longrightarrow> s ! (length s - 2) \<noteq> 0x0D"
  proof -
    have "s ! (length s - 1) \<in> set s" "s ! (length s - 2) \<in> set s" using assms(1) by simp_all
    then show "s ! (length s - 1) \<notin> {0x0A, 0x0D}" "2 \<le> length s \<Longrightarrow> s ! (length s - 2) \<noteq> 0x0D"
      using assms(2,3) by (metis empty_iff insert_iff)+
  qed
  consider "e = []" | "e = [0x0A]" | "e = [0x0D, 0x0A]" using assms(5) by blast
  then show ?thesis
  proof cases
    case 1
    then show ?thesis using at assms(6) z by (simp add: line_dump_def Let_def)
  next
    case 2
    have l: "(s @ [0x0A]) ! (length s - 1) \<noteq> 0x0D" using at(1) assms(1) by (simp add: nth_append)
    have "(s @ [0x0A]) @ replicate (1024 - length (s @ [0x0A :: u8])) 0 = s @ 0x0A # replicate (1023 - length s) 0" by simp
    then have "line_dump (s @ [0x0A]) (s @ [0x0A]) = take 128 (s @ 0 # replicate (1023 - length s) 0)"
      using l by (simp add: line_dump_def Let_def list_update_append numeral_2_eq_2)
    then show ?thesis using z [of "1024 - length s"] r(1) 2 by simp
  next
    case 3
    have "(s @ [0x0D, 0x0A]) @ replicate (1024 - length (s @ [0x0D, 0x0A :: u8])) 0
        = s @ 0x0D # 0x0A # replicate (1022 - length s) 0" by simp
    then have "line_dump (s @ [0x0D, 0x0A]) (s @ [0x0D, 0x0A]) = take 128 (s @ 0 # 0 # replicate (1022 - length s) 0)"
      by (simp add: line_dump_def Let_def list_update_append nth_append)
    then show ?thesis using z [of "1024 - length s"] r 3 by simp
  qed
qed

lemma parse_entry_cut:
  assumes "instr_ok x" and "length (snd x) \<le> 10"
    and "cut_line l = Inr (instr_text x)" and "0x2C \<in> set l \<longleftrightarrow> 0x2C \<in> set (instr_text x)"
    and "line_dump l l = take 128 (instr_text x @ replicate 128 0)"
  shows "parse_entry k l l lg = Inr (entry_of k x, lg @ load_log x)"
proof -
  obtain ds ps where x: "x = (ds, ps)" by fastforce
  note c = instr_text_chars [OF assms(1)]
  have d: "\<forall>c\<in>set ds. is_digit c" "ds \<noteq> []" "dec_val ds < 2 ^ 31" using assms(1) by (auto simp: instr_ok_def x)
  show ?thesis
  proof (cases "ps = []")
    case True
    then have "instr_text x = ds" by (simp add: x instr_text_def)
    then show ?thesis
      using c(5) atoi_digits_only(2) [OF d] True assms(3-5)
      by (simp add: parse_entry_def is_parameterless_def entry_of_def load_log_def x)
  next
    case False
    then have "\<not> is_parameterless l" using c(5) assms(4) by (simp add: is_parameterless_def x)
    moreover have "fmBytes_array_alloc True True DEFAULT_PARAM_NUM = Some (parm_array [])"
      by (simp add: fmBytes_array_alloc_def DEFAULT_PARAM_NUM_def parm_array_def)
    moreover have "add_parms ps 0 (parm_array []) l = Inr (parm_array ps, l @ map Parm_Hex ps)" for l
      using add_parms_ok [of "[]" ps "[]" l] assms(2) x by simp
    ultimately show ?thesis
      using False tokens_instr assms(1,3,5) atoi_digits_only(1) [OF d]
      by (simp add: parse_entry_def entry_of_def load_log_def x)
  qed
qed

lemma instr_text_short: "instr_ok x \<Longrightarrow> length (instr_text x) \<le> 1021"
  by (cases x) (simp add: instr_ok_def)

lemma parse_entry_ok:
  assumes "instr_ok x" and "length (snd x) \<le> 10"
  shows "parse_entry k (instr_text x @ [0x0A]) (instr_text x @ [0x0A]) lg = Inr (entry_of k x, lg @ load_log x)"
proof -
  note c = instr_text_chars [OF assms(1)]
  have "2 \<le> length (instr_text x @ [0x0A])" using c(4) by (cases "instr_text x") auto
  then show ?thesis
    using cut_line_ok c(2,3,4) instr_text_short [OF assms(1)]
    by (intro parse_entry_cut [OF assms] line_dump_ok) simp_all
qed

text \<open>The script with the given entries, and how a line adds one.\<close>

definition built :: "(nat \<Rightarrow> u32) \<Rightarrow> u8 list \<Rightarrow> code_entry list \<Rightarrow> sc_script" where
  "built adr nm es = \<lparr>sc_name = nm @ [0], sc_size = 128, sc_code_num = int (length es),
     sc_ces = map adr [0..<length es] @ replicate (128 - length es) 0,
     sc_heap = rev (zip (map adr [0..<length es]) es)\<rparr>"

lemma built_Nil: "se_alloc nm = built adr nm []"
  by (simp add: se_alloc_def built_def DEFAULT_SC_ENTRY_NUM_def)

lemma store_entry_ok:
  assumes "length es < 128"
  shows "store_entry (adr (length es)) ce (built adr nm es) = Inr (built adr nm (es @ [ce]))"
proof -
  obtain m where m: "128 - length es = Suc m" using assms by (cases "128 - length es") auto
  then have "128 - Suc (length es) = m" by simp
  moreover have "(map adr [0..<length es] @ adr (length es) # replicate m 0)
      = map adr [0..<Suc (length es)] @ replicate m 0" by simp
  ultimately show ?thesis
    using assms m
    by (simp add: store_entry_def built_def wr_nat list_update_append zip_append1)
qed

definition script_text :: "instr list \<Rightarrow> u8 list" where
  "script_text xs = concat (map (\<lambda>x. instr_text x @ [0x0A]) xs)"

lemma sc_lines_step:
  assumes "instr_ok x" and "length (snd x) \<le> 10" and "length es < 128"
  shows "sc_lines adr ((instr_text x @ [0x0A]) @ f) (length es) (built adr nm es) lg
    = sc_lines adr f (length (es @ [entry_of (int (length es)) x])) (built adr nm (es @ [entry_of (int (length es)) x]))
        (lg @ load_log x)"
proof -
  note c = instr_text_chars [OF assms(1)]
  obtain ds ps where x: "x = (ds, ps)" by fastforce
  have len: "length (instr_text x) + 1 < 1024" using instr_text_short [OF assms(1)] by simp
  then have g: "fgets 1024 (instr_text x @ 0x0A # f) = (instr_text x @ [0x0A], f)"
    by (rule fgets_line [OF c(2,1)])
  have raw: "line_split 1023 (instr_text x @ 0x0A # f) = (instr_text x @ [0x0A], f)"
    using len by (intro line_split_line [OF c(2)]) simp
  obtain d dr where ds: "ds = d # dr" "is_digit d"
    using assms(1) by (cases ds) (auto simp: instr_ok_def x)
  then have "hd (instr_text x) = d" "d \<noteq> 0x23" "d \<noteq> 0x0D"
    by (auto simp: instr_text_def x is_digit_def word_le_nat_alt)
  then show ?thesis
    using c(4) g raw parse_entry_ok [OF assms(1,2)] store_entry_ok [OF assms(3)]
    by (subst sc_lines.simps) simp
qed

lemma sc_lines_ok:
  "\<forall>x\<in>set xs. instr_ok x \<and> length (snd x) \<le> 10 \<Longrightarrow> length es + length xs \<le> 128 \<Longrightarrow>
   sc_lines adr (script_text xs) (length es) (built adr nm es) lg
     = Inr (built adr nm (es @ map (\<lambda>(k, x). entry_of (int k) x) (zip [length es..<length es + length xs] xs)),
         lg @ concat (map load_log xs))"
proof (induction xs arbitrary: es lg)
  case Nil
  then show ?case by (subst sc_lines.simps) (simp add: script_text_def)
next
  case (Cons x xs)
  let ?e = "entry_of (int (length es)) x"
  have "sc_lines adr (script_text (x # xs)) (length es) (built adr nm es) lg
      = sc_lines adr (script_text xs) (length (es @ [?e])) (built adr nm (es @ [?e])) (lg @ load_log x)"
    using sc_lines_step [of x es adr "script_text xs" nm] Cons.prems by (simp add: script_text_def)
  also have "\<dots> = Inr (built adr nm ((es @ [?e]) @ map (\<lambda>(k, x). entry_of (int k) x)
      (zip [length (es @ [?e])..<length (es @ [?e]) + length xs] xs)), (lg @ load_log x) @ concat (map load_log xs))"
    using Cons.prems by (intro Cons.IH) simp_all
  moreover have "[length es..<length es + length (x # xs)]
      = length es # [length (es @ [?e])..<length (es @ [?e]) + length xs]"
    using upt_conv_Cons [of "length es" "length es + length (x # xs)"] by simp
  ultimately show ?case by simp
qed

lemma view_built:
  assumes "inj_on adr {..<128}" and "0 \<notin> adr ` {..<128}" and "length es \<le> 128"
  shows "take (length es) (se_ces (sc_view (built adr nm es))) = map Some es"
proof (rule nth_equalityI)
  fix k
  assume k: "k < length (take (length es) (se_ces (sc_view (built adr nm es))))"
  then have kl: "k < length es" by simp
  then have nz: "adr k \<noteq> 0" using assms(2,3) by (metis imageI lessThan_iff order_less_le_trans)
  have sub: "{0..<length es} \<subseteq> {..<128}" using assms(3) by auto
  have d: "distinct (map fst (rev (zip (map adr [0..<length es]) es)))"
    using inj_on_subset [OF assms(1), of "{0..<length es}"] sub by (simp add: rev_map [symmetric] distinct_map)
  have "(adr k, es ! k) \<in> set (rev (zip (map adr [0..<length es]) es))"
    using kl by (auto simp: in_set_zip intro!: exI [of _ k])
  then have "map_of (rev (zip (map adr [0..<length es]) es)) (adr k) = Some (es ! k)"
    using d by (simp add: map_of_is_SomeI del: set_rev)
  then show "take (length es) (se_ces (sc_view (built adr nm es))) ! k = map Some es ! k"
    using kl nz k by (simp add: sc_view_def built_def nth_append)
qed (auto simp: sc_view_def built_def)

text \<open>From the lines of a file to the loader: the name of the script is that of the file.\<close>

lemma scloader_load_file:
  assumes "fopen (dir @ 0x2F # file) = Some f" and "sc_lines adr f 0 (se_alloc file) (lg @ [Sc_In]) = r"
    and "dir \<noteq> []" and "0 \<notin> set (dir @ 0x2F # file)" and "0x2F \<notin> set file" and "length file < 512"
  shows "scloader_load adr fopen (dir @ 0x2F # file @ [0]) lg = bindR r (\<lambda>(se, lg). Inr (Some se, lg))"
proof -
  have p: "cstr (dir @ 0x2F # file @ [0]) = dir @ 0x2F # file"
    using cstr_append [of "dir @ 0x2F # file" "[]"] assms(4) by simp
  have n: "get_filename_from_path (Some (dir @ 0x2F # file @ [0])) (Some (replicate 512 0)) 512
      = Inr (0, Some (file @ 0 # replicate (511 - length file) 0))"
  proof -
    have "512 - length file = Suc (511 - length file)" using assms(6) by simp
    then show ?thesis
      using get_filename_from_path_base [OF assms(3-5), of 512 "replicate 512 0" "[]"] assms(6) by simp
  qed
  have f: "0 \<notin> set file" using assms(4) by simp
  then show ?thesis using assms(1,2) by (simp add: scloader_load_def p n)
qed

section \<open>Properties\<close>

text \<open>
  C9. Loading the text of at most 128 instructions with at most ten parameters each gives them
  back: the table of the script points, in order, to entries with the address, the number and the
  parameters of the instructions, and the script is named after the file. The loader logs its
  start and then, in the order of the file, of each instruction its line (the first 128 bytes of
  the buffer), and of an instruction with parameters its number and every parameter.
\<close>

theorem scloader_load_roundtrip:
  assumes "fopen (dir @ 0x2F # file) = Some (script_text xs)"
    and "\<forall>x\<in>set xs. instr_ok x \<and> length (snd x) \<le> 10" and "length xs \<le> 128"
    and "dir \<noteq> []" and "0 \<notin> set (dir @ 0x2F # file)" and "0x2F \<notin> set file" and "length file < 512"
    and "inj_on adr {..<128}" and "0 \<notin> adr ` {..<128}"
  shows "\<exists>se. scloader_load adr fopen (dir @ 0x2F # file @ [0]) lg = Inr (Some se, lg @ Sc_In # concat (map load_log xs))
    \<and> take (length xs) (se_ces (sc_view se)) = map (\<lambda>(k, x). Some (entry_of (int k) x)) (zip [0..<length xs] xs)
    \<and> se_code_num (sc_view se) = int (length xs) \<and> se_name (sc_view se) = Some (file @ [0])"
proof -
  let ?es = "map (\<lambda>(k, x). entry_of (int k) x) (zip [0..<length xs] xs)"
  have "sc_lines adr (script_text xs) 0 (se_alloc file) (lg @ [Sc_In])
      = Inr (built adr file ?es, (lg @ [Sc_In]) @ concat (map load_log xs))"
    using sc_lines_ok [OF assms(2), of "[]" adr "file"] assms(3) by (simp add: built_Nil [of _ adr])
  from scloader_load_file [of fopen dir "file", OF assms(1) this assms(4-7)]
  have "scloader_load adr fopen (dir @ 0x2F # file @ [0]) lg
      = Inr (Some (built adr file ?es), lg @ Sc_In # concat (map load_log xs))" by simp
  moreover have "length ?es = length xs" by simp
  ultimately show ?thesis
    using view_built [OF assms(8,9), of ?es "file"] assms(3)
    by (intro exI [of _ "built adr file ?es"]) (simp add: sc_view_def built_def comp_def split_beta)
qed

text \<open>
  A line with more than ten parameters writes outside the parameter array: it is enlarged
  to ten entries once and never again.
\<close>

theorem parse_entry_overflow:
  assumes "instr_ok (ds, ps)" and "10 < length ps"
  shows "parse_entry k raw (instr_text (ds, ps) @ [0x0A]) lg = Inl Out_Of_Bounds"
proof -
  note c = instr_text_chars [OF assms(1)]
  have ps: "ps \<noteq> []" using assms(2) by auto
  have d: "\<forall>c\<in>set ds. is_digit c" "ds \<noteq> []" "dec_val ds < 2 ^ 31" using assms(1) by (auto simp: instr_ok_def)
  have "\<not> is_parameterless (instr_text (ds, ps) @ [0x0A])" using c(5) ps by (simp add: is_parameterless_def)
  moreover have "fmBytes_array_alloc True True DEFAULT_PARAM_NUM = Some (parm_array [])"
    by (simp add: fmBytes_array_alloc_def DEFAULT_PARAM_NUM_def parm_array_def)
  ultimately show ?thesis
    using cut_line_ok [OF c(4,3)] tokens_instr [OF assms(1)] atoi_digits_only(1) [OF d]
      add_parms_overflow [OF assms(2)]
    by (simp add: parse_entry_def)
qed

text \<open>A script of two instructions, for the witnesses.\<close>

definition demo_script :: "instr list" where
  "demo_script = [([0x31, 0x32], []), ([0x36, 0x34], [[0x61, 0x62], [0x63]])]"

lemma demo_script_ok: "\<forall>x\<in>set demo_script. instr_ok x \<and> length (snd x) \<le> 10"
  by (simp add: demo_script_def instr_ok_def is_digit_def plain_def instr_text_def dec_val_def)

lemma demo_script_text:
  "script_text demo_script = [0x31, 0x32, 0x0A, 0x36, 0x34, 0x2C, 0x61, 0x62, 0x3A, 0x63, 0x0A]"
  by (simp add: script_text_def demo_script_def instr_text_def)

lemma demo_script_log:
  "concat (map load_log demo_script) = [Line_Hex ([0x31, 0x32] @ replicate 126 0),
     Line_Hex ([0x36, 0x34, 0x2C, 0x61, 0x62, 0x3A, 0x63] @ replicate 121 0), Sc_Code 64,
     Parm_Hex [0x61, 0x62], Parm_Hex [0x63]]"
  by (simp add: demo_script_def load_log_def instr_text_def dec_val_def)

definition demo_adr :: "nat \<Rightarrow> u32" where
  "demo_adr k = of_nat (4 * k + 4)"

lemma demo_adr: "inj_on demo_adr {..<128}" "0 \<notin> demo_adr ` {..<128}"
proof -
  have u: "unat (demo_adr k) = 4 * k + 4" if "k < 128" for k
    using that by (simp add: demo_adr_def unsigned_of_nat take_bit_nat_eq_self del: of_nat_add of_nat_mult)
  then show "inj_on demo_adr {..<128}"
    by (intro inj_onI) (metis add_right_cancel lessThan_iff mult_cancel1 zero_neq_numeral)
  show "0 \<notin> demo_adr ` {..<128}"
    using u by (metis (no_types, lifting) add_is_0 image_iff lessThan_iff unsigned_0 zero_neq_numeral)
qed

theorem scloader_load_roundtrip_witness:
  "\<exists>se. scloader_load demo_adr
       (\<lambda>p. Some [0x31, 0x32, 0x0A, 0x36, 0x34, 0x2C, 0x61, 0x62, 0x3A, 0x63, 0x0A])
       ([0x2E] @ 0x2F # [0x73] @ [0]) [] = Inr (Some se,
         [Sc_In, Line_Hex ([0x31, 0x32] @ replicate 126 0),
          Line_Hex ([0x36, 0x34, 0x2C, 0x61, 0x62, 0x3A, 0x63] @ replicate 121 0), Sc_Code 64,
          Parm_Hex [0x61, 0x62], Parm_Hex [0x63]])
     \<and> take 2 (se_ces (sc_view se)) =
       [Some \<lparr>ce_addr = 0, ce_code = 12, ce_parameters = None\<rparr>,
        Some \<lparr>ce_addr = 1, ce_code = 64, ce_parameters = Some \<lparr>fa_size = 5, fa_cnt = 2,
          fa_array = [Some (fb_of [0x61, 0x62]), Some (fb_of [0x63]), None, None, None]\<rparr>\<rparr>]"
proof -
  have l: "length demo_script = 2" by (simp add: demo_script_def)
  have e: "map (\<lambda>(k, x). Some (entry_of (int k) x)) (zip [0..<2] demo_script) =
       [Some \<lparr>ce_addr = 0, ce_code = 12, ce_parameters = None\<rparr>,
        Some \<lparr>ce_addr = 1, ce_code = 64, ce_parameters = Some \<lparr>fa_size = 5, fa_cnt = 2,
          fa_array = [Some (fb_of [0x61, 0x62]), Some (fb_of [0x63]), None, None, None]\<rparr>\<rparr>]"
    by (simp add: demo_script_def entry_of_def dec_val_def parm_array_def upt_rec numeral_3_eq_3)
  show ?thesis
    using scloader_load_roundtrip [of "\<lambda>p. Some (script_text demo_script)" "[0x2E]" "[0x73]" demo_script demo_adr "[]",
        OF refl demo_script_ok _ _ _ _ _ demo_adr]
    unfolding l e demo_script_text demo_script_log by auto
qed

lemma demo_long_ok: "instr_ok ([0x37], [[0x61], [0x61], [0x61], [0x61], [0x61], [0x61], [0x61], [0x61], [0x61], [0x61], [0x61]])"
  by (simp add: instr_ok_def is_digit_def plain_def instr_text_def dec_val_def)

theorem parse_entry_overflow_example:
  "parse_entry 0 [] (instr_text ([0x37], [[0x61], [0x61], [0x61], [0x61], [0x61], [0x61], [0x61], [0x61], [0x61], [0x61], [0x61]]) @ [0x0A]) [] = Inl Out_Of_Bounds"
  by (rule parse_entry_overflow [OF demo_long_ok]) simp

lemma length_le_bytes1 [simp]: "length (le_bytes w) = 4"
  by (simp add: le_bytes_def)

lemma le_word_le_bytes: "le_word (le_bytes w) = w"
proof -
  have "take_bit 8 (drop_bit 24 w) = drop_bit 24 w"
    by (rule bit_word_eqI) (auto simp: bit_simps dest: bit_imp_le_length)
  then show ?thesis
    using le_word_step [of w] le_word_step [of "drop_bit 8 w"] le_word_step [of "drop_bit 16 w"]
    by (simp add: le_bytes_def ucast_u8)
qed

lemma le_words_bytes: "le_words (concat (map le_bytes ws) @ r) = ws @ le_words r"
proof (induction ws)
  case (Cons w ws)
  have "le_bytes w = [ucast w, ucast (drop_bit 8 w), ucast (drop_bit 16 w), ucast (drop_bit 24 w)]"
    by (simp add: le_bytes_def)
  then show ?case using Cons le_word_le_bytes [of w] by simp
qed simp

lemma le_words_zero: "le_words (replicate (4 * n) 0) = replicate n 0"
  by (induction n) (simp_all add: numeral_eq_Suc)

lemma length_le_bytes: "length (concat (map le_bytes ws)) = 4 * length ws"
  by (induction ws) (simp_all add: le_bytes_def)

text \<open>
  Growing a full script table loses entries: of the 128 pointers the first 32 survive, the
  next one loses its top byte, and the others become NULL.
\<close>

theorem se_resize_loses:
  assumes "sc_ces se = ws @ w # vs" and "length ws = 32" and "length vs = 95"
    and "sc_size se = 128" and "sc_code_num se = 128"
  shows "se_resize se = Inr (se\<lparr>sc_ces := ws @ take_bit 24 w # replicate 223 0\<rparr>)"
proof -
  let ?b = "concat (map le_bytes (sc_ces se))"
  have len: "length ?b = 512" using assms(1-3) by (simp add: length_le_bytes)
  have "memcpy_int (replicate 1024 0) ?b (int 128) = Inr (take (128 + 3) ?b @ drop (128 + 3) (replicate 1024 0))"
    by (rule memcpy_int_copies) (simp_all add: len)
  moreover have "take (128 + 3) ?b = concat (map le_bytes ws) @ take 3 (le_bytes w)"
    using assms(1,2) by (simp add: length_le_bytes)
  moreover have "drop (128 + 3) (replicate 1024 0) = (0 :: u8) # replicate (4 * 223) 0"
    by (simp add: drop_replicate flip: replicate_Suc)
  ultimately have m: "memcpy_int (replicate 1024 0) ?b 128
      = Inr (concat (map le_bytes ws) @ take 3 (le_bytes w) @ 0 # replicate (4 * 223) 0)"
    by simp
  have "le_word (take 3 (le_bytes w) @ [0]) = take_bit 24 w"
  proof -
    have "le_bytes (take_bit 24 w) = take 3 (le_bytes w) @ [0]"
      by (simp add: le_bytes_def numeral_3_eq_3) (intro conjI; rule bit_word_eqI; auto simp: bit_simps)
    then show ?thesis using le_word_le_bytes [of "take_bit 24 w"] by simp
  qed
  then have "le_words (take 3 (le_bytes w) @ 0 # replicate (4 * 223) 0) = take_bit 24 w # replicate 223 0"
    using le_words_zero [of 223] by (simp add: le_bytes_def numeral_3_eq_3)
  then show ?thesis using m le_words_bytes [of ws] assms(4,5) by (simp add: se_resize_def)
qed

theorem se_resize_loses_example:
  "\<exists>se. se_resize (built demo_adr [] (replicate 128 \<lparr>ce_addr = 0, ce_code = 0, ce_parameters = None\<rparr>)) = Inr se
     \<and> drop 33 (sc_ces se) = replicate 223 0"
proof -
  let ?se = "built demo_adr [] (replicate 128 \<lparr>ce_addr = 0, ce_code = 0, ce_parameters = None\<rparr>)"
  have "sc_ces ?se = take 32 (sc_ces ?se) @ sc_ces ?se ! 32 # drop (Suc 32) (sc_ces ?se)"
    by (rule id_take_nth_drop) (simp add: built_def)
  from se_resize_loses [OF this] show ?thesis by (simp add: built_def)
qed

end
