(* ===== verification/Tsm_Main.thy ===== *)
theory Tsm_Main
  imports Tsm_Scloader
begin

text \<open>
  \<open>tsm_main.c\<close> as it is compiled: the program loads the script \<open>./fm1280.sc\<close> and logs it; the start of
  the threads is switched off by the preprocessor. \<open>common/fm_Log.c\<close>: starting the log. The log
  calls, those of the loader and those of \<open>main\<close>, are the result. The properties are about scripts as they are written (comments, empty
  lines, both line ends, a last line without one), and about the script of the repository.
\<close>

section \<open>Logging\<close>

text \<open>
  The results of \<open>zlog_init\<close> and \<open>zlog_get_category\<close> are parameters; \<open>None\<close> is the
  indeterminate result of a function that reaches its end.
\<close>

definition fmLog_init :: "int \<Rightarrow> 'c option \<Rightarrow> int option \<times> 'c option" where
  "fmLog_init zlog_init category =
     (if zlog_init \<noteq> 0 then (Some (-1), None)
      else case category of None \<Rightarrow> (Some (-2), None) | Some c \<Rightarrow> (None, Some c))"

section \<open>The program\<close>

definition log_parm :: "fmBytes_array \<Rightarrow> int \<Rightarrow> log_item list res" where
  "log_parm a j =
     bindR (rd (fa_array a) j) (\<lambda>p. bindR (log_hex p) (\<lambda>xs. Inr [Parm_No j, Parm_Hex xs]))"

definition log_entry :: "script_entry \<Rightarrow> int \<Rightarrow> log_item list res" where
  "log_entry se i =
     bindR (rd (se_ces se) i) (\<lambda>p. bindR (deref p) (\<lambda>ce.
       case ce_parameters ce of
         None \<Rightarrow> Inr [Sc_Entry (ce_addr ce) (ce_code ce)]
       | Some a \<Rightarrow>
           bindR (foldR (\<lambda>j out. bindR (log_parm a j) (\<lambda>xs. Inr (out @ xs))) [0..fa_cnt a - 1] []) (\<lambda>xs.
             Inr ([Sc_Entry (ce_addr ce) (ce_code ce), Parm_Cnt (fa_cnt a)] @ xs))))"

definition main_path :: "u8 list" where
  "main_path = cstring_of ''./fm1280.sc'' @ [0]"

definition tsm_main :: "(nat \<Rightarrow> u32) \<Rightarrow> (u8 list \<Rightarrow> u8 list option) \<Rightarrow> (log_item list \<times> int) res" where
  "tsm_main adr fopen =
     bindR (scloader_load adr fopen main_path []) (\<lambda>(s, lg).
     bindR (deref s) (\<lambda>s.
     let se = sc_view s in
     bindR (foldR (\<lambda>i out. bindR (log_entry se i) (\<lambda>xs. Inr (out @ xs))) [0..se_code_num se - 1] []) (\<lambda>xs.
       Inr (lg @ [Sc_Name (se_name se), Sc_Size (se_size se), Sc_Num (se_code_num se)] @ xs, 0))))"

section \<open>Scripts as they are written\<close>

text \<open>A comment or an empty line, or an instruction with its line end.\<close>

datatype sline = Note "u8 list" | Line instr bool

definition line_text :: "sline \<Rightarrow> u8 list" where
  "line_text l = (case l of
     Note t \<Rightarrow> t @ [0x0A]
   | Line x crlf \<Rightarrow> instr_text x @ (if crlf then [0x0D, 0x0A] else [0x0A]))"

definition line_ok :: "sline \<Rightarrow> bool" where
  "line_ok l = (case l of
     Note t \<Rightarrow> t \<noteq> [] \<and> hd t \<in> {0x23, 0x0D} \<and> 0 \<notin> set t \<and> 0x0A \<notin> set t \<and> length t + 1 < 1024
   | Line x crlf \<Rightarrow> instr_ok x \<and> length (snd x) \<le> 10)"

definition line_instr :: "sline \<Rightarrow> instr list" where
  "line_instr l = (case l of Note t \<Rightarrow> [] | Line x crlf \<Rightarrow> [x])"

text \<open>A file may end with an instruction that has no line end.\<close>

definition file_text :: "sline list \<Rightarrow> instr option \<Rightarrow> u8 list" where
  "file_text ls e = concat (map line_text ls) @ (case e of None \<Rightarrow> [] | Some x \<Rightarrow> instr_text x)"

definition end_ok :: "instr option \<Rightarrow> bool" where
  "end_ok e = (case e of None \<Rightarrow> True
     | Some x \<Rightarrow> instr_ok x \<and> length (snd x) \<le> 10 \<and> 2 \<le> length (instr_text x))"

definition file_instrs :: "sline list \<Rightarrow> instr option \<Rightarrow> instr list" where
  "file_instrs ls e = concat (map line_instr ls) @ (case e of None \<Rightarrow> [] | Some x \<Rightarrow> [x])"

section \<open>Lemmas: lines\<close>

lemma cut_line_crlf:
  assumes "s \<noteq> []"
  shows "cut_line (s @ [0x0D, 0x0A]) = Inr s"
proof -
  have "rd (s @ [0x0D, 0x0A]) (1 + int (length s)) = Inr 0x0A" "rd (s @ [0x0D, 0x0A]) (int (length s)) = Inr 0x0D"
    by (simp_all add: rd_def nth_append nat_add_distrib)
  moreover have "nat (2 + int (length s) - 1) = Suc (length s)" by simp
  ultimately show ?thesis by (simp add: cut_line_def Let_def)
qed

lemma cut_line_end:
  assumes "2 \<le> length s" and "0x0D \<notin> set s" and "0x0A \<notin> set s"
  shows "cut_line s = Inr s"
proof -
  obtain m where m: "length s = Suc (Suc m)" using assms(1) by (metis Suc_le_D numeral_2_eq_2 Suc_le_mono)
  have "s ! Suc m \<in> set s" "s ! m \<in> set s" using m by simp_all
  then have "s ! Suc m \<noteq> 0x0A" "s ! Suc m \<noteq> 0x0D" "s ! m \<noteq> 0x0D" using assms(2,3) by metis+
  moreover have "rd s (int (length s) - 1) = Inr (s ! Suc m)" "rd s (int (length s) - 2) = Inr (s ! m)"
    using m by (simp_all add: rd_def nat_add_distrib)
  ultimately show ?thesis by (simp add: cut_line_def Let_def)
qed

lemma line_split_all: "0x0A \<notin> set l \<Longrightarrow> length l \<le> n \<Longrightarrow> line_split n l = (l, [])"
  by (induction n l rule: line_split.induct) auto

lemma fgets_end: "0x0A \<notin> set l \<Longrightarrow> 0 \<notin> set l \<Longrightarrow> length l + 1 < n \<Longrightarrow> fgets n l = (l, [])"
  by (auto simp: fgets_def line_split_all cstr_def takeWhile_eq_all_conv)

lemma instr_text_hd:
  assumes "instr_ok x"
  shows "hd (instr_text x) \<noteq> 0x23" and "hd (instr_text x) \<noteq> 0x0D" and "length (instr_text x) \<le> 1021"
proof -
  obtain ds ps where x: "x = (ds, ps)" by fastforce
  obtain d dr where ds: "ds = d # dr" "is_digit d"
    using assms by (cases ds) (auto simp: instr_ok_def x)
  then have "hd (instr_text x) = d" "d \<noteq> 0x23" "d \<noteq> 0x0D"
    by (auto simp: instr_text_def x is_digit_def word_le_nat_alt)
  then show "hd (instr_text x) \<noteq> 0x23" "hd (instr_text x) \<noteq> 0x0D" by simp_all
  show "length (instr_text x) \<le> 1021" using assms by (auto simp: instr_ok_def x)
qed

text \<open>An instruction, whatever ends its line, adds one entry.\<close>

lemma sc_lines_instr:
  assumes "instr_ok x" and "length (snd x) \<le> 10" and "length es < 128"
    and "fgets 1024 f = (instr_text x @ e, f')" and "fst (line_split 1023 f) = instr_text x @ e"
    and "e \<in> {[], [0x0A], [0x0D, 0x0A]}" and "2 \<le> length (instr_text x @ e)"
    and "cut_line (instr_text x @ e) = Inr (instr_text x)"
  shows "sc_lines adr f (length es) (built adr nm es) lg
    = sc_lines adr f' (length (es @ [entry_of (int (length es)) x])) (built adr nm (es @ [entry_of (int (length es)) x]))
        (lg @ load_log x)"
proof -
  note c = instr_text_chars [OF assms(1)]
  have "f \<noteq> []" using assms(4) c(4) fgets_end [of "[]" 1024] by auto
  moreover have "(0x2C :: u8) \<notin> set e" using assms(6) by auto
  moreover have "line_dump (instr_text x @ e) (instr_text x @ e) = take 128 (instr_text x @ replicate 128 0)"
    by (rule line_dump_ok [OF c(4,3,2) instr_text_short [OF assms(1)] assms(6,7)])
  ultimately have "parse_entry (int (length es)) (instr_text x @ e) (instr_text x @ e) lg
      = Inr (entry_of (int (length es)) x, lg @ load_log x)"
    using assms(1,2,8) by (intro parse_entry_cut) auto
  then show ?thesis
    using \<open>f \<noteq> []\<close> c(4) assms(4,5) instr_text_hd [OF assms(1)] store_entry_ok [OF assms(3)]
    by (subst sc_lines.simps) simp
qed

lemma sc_lines_line:
  assumes "line_ok l" and "length es + length (line_instr l) \<le> 128"
  shows "sc_lines adr (line_text l @ f) (length es) (built adr nm es) lg
    = (let es' = es @ map (\<lambda>x. entry_of (int (length es)) x) (line_instr l) in
       sc_lines adr f (length es') (built adr nm es') (lg @ concat (map load_log (line_instr l))))"
proof (cases l)
  case (Note t)
  then have t: "t \<noteq> []" "hd t \<in> {0x23, 0x0D}" "0 \<notin> set t" "0x0A \<notin> set t" "length t + 1 < 1024"
    using assms(1) by (simp_all add: line_ok_def)
  have "fgets 1024 (t @ 0x0A # f) = (t @ [0x0A], f)" by (rule fgets_line [OF t(4,3,5)])
  then show ?thesis
    using t(1,2) Note by (subst sc_lines.simps) (auto simp: line_text_def line_instr_def)
next
  case (Line x crlf)
  then have x: "instr_ok x" "length (snd x) \<le> 10" using assms(1) by (simp_all add: line_ok_def)
  note c = instr_text_chars [OF x(1)]
  let ?r = "instr_text x @ (if crlf then [0x0D] else [])"
  let ?e = "if crlf then [0x0D, 0x0A] else [0x0A]"
  have r: "0x0A \<notin> set ?r" "0 \<notin> set ?r" "length ?r + 1 < 1024" using c(1,2) instr_text_hd(3) [OF x(1)] by auto
  have t: "line_text l @ f = ?r @ 0x0A # f" "?r @ [0x0A] = instr_text x @ ?e" using Line by (auto simp: line_text_def)
  have g: "fgets 1024 (line_text l @ f) = (instr_text x @ ?e, f)"
    unfolding t(1) t(2) [symmetric] by (rule fgets_line [OF r])
  have raw: "fst (line_split 1023 (line_text l @ f)) = instr_text x @ ?e"
    unfolding t(1) t(2) [symmetric] using line_split_line [OF r(1), of 1023 f] r(3) by simp
  have "cut_line (instr_text x @ ?e) = Inr (instr_text x)"
    using cut_line_ok [OF c(4,3)] cut_line_crlf [OF c(4)] by simp
  moreover have "2 \<le> length (instr_text x @ ?e)" using c(4) by (cases "instr_text x") auto
  ultimately show ?thesis
    using sc_lines_instr [OF x _ g raw] assms(2) Line by (simp add: line_instr_def)
qed

text \<open>The entries of a list of instructions, numbered on from the ones that are there.\<close>

fun add_instrs :: "code_entry list \<Rightarrow> instr list \<Rightarrow> code_entry list" where
  "add_instrs es [] = es"
| "add_instrs es (x # xs) = add_instrs (es @ [entry_of (int (length es)) x]) xs"

lemma add_instrs_length [simp]: "length (add_instrs es xs) = length es + length xs"
  by (induction es xs rule: add_instrs.induct) auto

lemma add_instrs_append: "add_instrs es (xs @ ys) = add_instrs (add_instrs es xs) ys"
  by (induction es xs rule: add_instrs.induct) auto

lemma add_instrs_nth:
  "k < length es + length xs \<Longrightarrow> add_instrs es xs ! k =
     (if k < length es then es ! k else entry_of (int k) (xs ! (k - length es)))"
proof (induction es xs rule: add_instrs.induct)
  case (2 es x xs)
  then show ?case by (auto simp: nth_append nth_Cons' less_Suc_eq)
qed simp

lemma sc_lines_line_add:
  assumes "line_ok l" and "length es + length (line_instr l) \<le> 128"
  shows "sc_lines adr (line_text l @ f) (length es) (built adr nm es) lg
    = (let es' = add_instrs es (line_instr l) in
       sc_lines adr f (length es') (built adr nm es') (lg @ concat (map load_log (line_instr l))))"
  using sc_lines_line [OF assms] by (cases l) (simp_all add: line_instr_def)

lemma sc_lines_file:
  "\<forall>l\<in>set ls. line_ok l \<Longrightarrow> length es + length (concat (map line_instr ls)) \<le> 128 \<Longrightarrow>
   sc_lines adr (concat (map line_text ls) @ f) (length es) (built adr nm es) lg
     = (let es' = add_instrs es (concat (map line_instr ls)) in
        sc_lines adr f (length es') (built adr nm es') (lg @ concat (map load_log (concat (map line_instr ls)))))"
proof (induction ls arbitrary: es lg)
  case (Cons l ls)
  then show ?case
    using sc_lines_line_add [of l es adr "concat (map line_text ls) @ f" nm lg]
      Cons.IH [of "add_instrs es (line_instr l)" "lg @ concat (map load_log (line_instr l))"]
    by (simp add: Let_def add_instrs_append)
qed simp

lemma sc_lines_Nil: "sc_lines adr [] n se lg = Inr (se, lg)"
  by (subst sc_lines.simps) simp

lemma sc_lines_script:
  assumes "\<forall>l\<in>set ls. line_ok l" and "end_ok e" and "length (file_instrs ls e) \<le> 128"
  shows "sc_lines adr (file_text ls e) 0 (se_alloc nm) lg
    = Inr (built adr nm (add_instrs [] (file_instrs ls e)), lg @ concat (map load_log (file_instrs ls e)))"
proof -
  let ?es = "add_instrs [] (concat (map line_instr ls))"
  let ?lg = "lg @ concat (map load_log (concat (map line_instr ls)))"
  let ?last = "case e of None \<Rightarrow> [] | Some x \<Rightarrow> instr_text x"
  have 1: "sc_lines adr (file_text ls e) 0 (se_alloc nm) lg = sc_lines adr ?last (length ?es) (built adr nm ?es) ?lg"
    using sc_lines_file [of ls "[]" adr ?last nm lg] assms(1,3)
    by (simp add: file_text_def file_instrs_def built_Nil [of _ adr] Let_def)
  show ?thesis
  proof (cases e)
    case None
    then show ?thesis using 1 by (simp add: sc_lines_Nil file_instrs_def)
  next
    case (Some x)
    then have x: "instr_ok x" "length (snd x) \<le> 10" "2 \<le> length (instr_text x)"
      using assms(2) by (simp_all add: end_ok_def)
    note c = instr_text_chars [OF x(1)]
    have g: "fgets 1024 (instr_text x) = (instr_text x @ [], [])"
      using fgets_end [OF c(2,1)] instr_text_hd(3) [OF x(1)] by simp
    have raw: "fst (line_split 1023 (instr_text x)) = instr_text x @ []"
      using line_split_all [OF c(2), of 1023] instr_text_hd(3) [OF x(1)] by simp
    have "length ?es < 128" using assms(3) Some by (simp add: file_instrs_def)
    from sc_lines_instr [OF x(1,2) this g raw] x(3) cut_line_end [OF x(3) c(3,2)] show ?thesis
      using 1 Some by (simp add: sc_lines_Nil file_instrs_def add_instrs_append)
  qed
qed

section \<open>Lemmas: the log\<close>

lemma upto_int: "[0..int n - 1] = map int [0..<n]"
  by (induction n) (simp_all add: upto_rec2)

lemma fold_log:
  assumes "\<And>k. k < n \<Longrightarrow> g (int k) = Inr (f k)"
  shows "foldR (\<lambda>i out. bindR (g i) (\<lambda>xs. Inr (out @ xs))) [0..int n - 1] [] = Inr (concat (map f [0..<n]))"
  unfolding upto_int using assms by (induction n) (simp_all add: foldR_append)

definition parm_log :: "u8 list list \<Rightarrow> log_item list" where
  "parm_log ps = concat (map (\<lambda>j. [Parm_No (int j), Parm_Hex (ps ! j)]) [0..<length ps])"

definition instr_log :: "nat \<Rightarrow> instr \<Rightarrow> log_item list" where
  "instr_log k x = Sc_Entry (int k) (dec_val (fst x))
     # (if snd x = [] then [] else Parm_Cnt (int (length (snd x))) # parm_log (snd x))"

lemma log_parm_ok:
  assumes "length ps \<le> 10" and "k < length ps"
  shows "log_parm (parm_array ps) (int k) = Inr [Parm_No (int k), Parm_Hex (ps ! k)]"
proof -
  have "rd (fa_array (parm_array ps)) (int k) = Inr (Some (fb_of (ps ! k)))"
    using assms by (simp add: parm_array_def rd_nat nth_append)
  then show ?thesis by (simp add: log_parm_def)
qed

lemma parm_array_cnt: "fa_cnt (parm_array ps) = int (length ps)"
  by (simp add: parm_array_def Let_def)

lemma log_entry_ok:
  assumes "rd (se_ces se) (int k) = Inr (Some (entry_of (int k) x))" and "length (snd x) \<le> 10"
  shows "log_entry se (int k) = Inr (instr_log k x)"
proof -
  obtain ds ps where x: "x = (ds, ps)" by fastforce
  have "foldR (\<lambda>j out. bindR (log_parm (parm_array ps) j) (\<lambda>xs. Inr (out @ xs))) [0..int (length ps) - 1] []
      = Inr (parm_log ps)"
    unfolding parm_log_def by (rule fold_log) (use assms(2) x in \<open>simp add: log_parm_ok\<close>)
  then show ?thesis
    using assms(1) by (simp add: log_entry_def x entry_of_def instr_log_def parm_array_cnt)
qed

lemma main_path_split: "main_path = [0x2E] @ 0x2F # [0x66, 0x6D, 0x31, 0x32, 0x38, 0x30, 0x2E, 0x73, 0x63] @ [0]"
  by (simp add: main_path_def cstring_of_def of_char_def)

lemma scloader_load_main:
  assumes "fopen (cstr main_path) = Some f"
    and "sc_lines adr f 0 (se_alloc [0x66, 0x6D, 0x31, 0x32, 0x38, 0x30, 0x2E, 0x73, 0x63]) [Sc_In] = r"
  shows "scloader_load adr fopen main_path [] = bindR r (\<lambda>(se, lg). Inr (Some se, lg))"
proof -
  let ?nm = "[0x66, 0x6D, 0x31, 0x32, 0x38, 0x30, 0x2E, 0x73, 0x63]"
  have "cstr main_path = [0x2E] @ 0x2F # ?nm" by (simp add: main_path_split cstr_def)
  then have "fopen ([0x2E] @ 0x2F # ?nm) = Some f" using assms(1) by simp
  from scloader_load_file [of fopen "[0x2E]" ?nm f adr "[]" r, OF this] assms(2)
  show ?thesis by (simp add: main_path_split)
qed

lemma rd_built:
  assumes "inj_on adr {..<128}" and "0 \<notin> adr ` {..<128}" and "length es \<le> 128" and "k < length es"
  shows "rd (se_ces (sc_view (built adr nm es))) (int k) = Inr (Some (es ! k))"
proof -
  let ?t = "se_ces (sc_view (built adr nm es))"
  have v: "take (length es) ?t = map Some es" by (rule view_built [OF assms(1-3)])
  then have "?t ! k = Some (es ! k)" using assms(4) by (metis nth_map nth_take)
  moreover have "k < length ?t" using assms(3,4) by (simp add: sc_view_def built_def)
  ultimately show ?thesis by (simp add: rd_nat)
qed

section \<open>Properties\<close>

text \<open>
  C10. The program prints its script: for a file of comments, empty lines and instructions with
  either line end, the last one possibly without, of at most 128 instructions with at most ten
  parameters each, its log calls are exactly these: the loader's own, that it starts and then of
  each instruction its line and its parts; the name, size and length of the script; and, in the order
  of the file, each instruction with its number and its parameters. The program returns 0.
\<close>

theorem main_prints_script:
  assumes "fopen (cstr main_path) = Some (file_text ls e)"
    and "\<forall>l\<in>set ls. line_ok l" and "end_ok e" and "length (file_instrs ls e) \<le> 128"
    and "inj_on adr {..<128}" and "0 \<notin> adr ` {..<128}"
  shows "tsm_main adr fopen = Inr
    (Sc_In # concat (map load_log (file_instrs ls e))
      @ [Sc_Name (Some (cstring_of ''fm1280.sc'' @ [0])), Sc_Size 128, Sc_Num (int (length (file_instrs ls e)))]
      @ concat (map (\<lambda>k. instr_log k (file_instrs ls e ! k)) [0..<length (file_instrs ls e)]), 0)"
proof -
  let ?nm = "[0x66, 0x6D, 0x31, 0x32, 0x38, 0x30, 0x2E, 0x73, 0x63]"
  let ?xs = "file_instrs ls e" let ?s = "built adr ?nm (add_instrs [] ?xs)"
  have l: "scloader_load adr fopen main_path [] = Inr (Some ?s, Sc_In # concat (map load_log ?xs))"
    using scloader_load_main [of fopen _ adr, OF assms(1) refl] sc_lines_script [OF assms(2-4)] by simp
  have short: "length (snd x) \<le> 10" if "x \<in> set ?xs" for x
    using that assms(2,3) by (fastforce simp: file_instrs_def line_instr_def line_ok_def end_ok_def
        split: sline.splits option.splits)
  have "log_entry (sc_view ?s) (int k) = Inr (instr_log k (?xs ! k))" if k: "k < length ?xs" for k
    using k assms(4) short [of "?xs ! k"] rd_built [OF assms(5,6), of "add_instrs [] ?xs" k ?nm]
    by (intro log_entry_ok) (simp_all add: add_instrs_nth)
  from fold_log [of "length ?xs" "log_entry (sc_view ?s)", OF this] l
  show ?thesis
    by (simp add: tsm_main_def Let_def sc_view_def built_def cstring_of_def of_char_def)
qed


definition demo_lines :: "sline list" where
  "demo_lines = [Note [0x23, 0x61, 0x0D], Line ([0x31, 0x32], []) True]"

theorem main_prints_script_witness:
  "tsm_main demo_adr (\<lambda>p. Some (file_text demo_lines (Some ([0x36, 0x34], [[0x61, 0x62], [0x63]])))) = Inr
    ([Sc_In, Line_Hex ([0x31, 0x32] @ replicate 126 0), Line_Hex ([0x36, 0x34, 0x2C, 0x61, 0x62, 0x3A, 0x63] @ replicate 121 0),
      Sc_Code 64, Parm_Hex [0x61, 0x62], Parm_Hex [0x63],
      Sc_Name (Some (cstring_of ''fm1280.sc'' @ [0])), Sc_Size 128, Sc_Num 2, Sc_Entry 0 12, Sc_Entry 1 64,
      Parm_Cnt 2, Parm_No 0, Parm_Hex [0x61, 0x62], Parm_No 1, Parm_Hex [0x63]], 0)"
proof -
  let ?e = "Some ([0x36, 0x34], [[0x61, 0x62], [0x63]]) :: instr option"
  have i: "file_instrs demo_lines ?e = demo_script"
    by (simp add: file_instrs_def demo_lines_def line_instr_def demo_script_def)
  have l: "[0..<2] = [0, 1]" "[0..<Suc (Suc 0)] = [0, 1]" by (simp_all add: upt_rec)
  have "\<forall>l\<in>set demo_lines. line_ok l"
    using demo_script_ok by (simp add: demo_lines_def line_ok_def demo_script_def)
  moreover have "end_ok ?e"
    using demo_script_ok by (simp add: end_ok_def demo_script_def instr_text_def)
  ultimately show ?thesis
    using main_prints_script [of "\<lambda>p. Some (file_text demo_lines ?e)" demo_lines ?e demo_adr, OF refl _ _ _ demo_adr]
    unfolding i demo_script_log by (simp add: l demo_script_def instr_log_def parm_log_def dec_val_def)
qed

text \<open>The script of the repository, \<open>src/fm1280.sc\<close>: its first instruction, and all of it.\<close>

definition shipped_instr :: "u8 list" where
  "shipped_instr = cstring_of ''64,0182:pre0,0101:pre1,0181:pre2,000000000000000000000000:suf,08000000000000000:suf1,0000000000000000:init_data''"

definition shipped_rest :: "u8 list" where
  "shipped_rest = cstring_of ''0,A000000151000000'' @ [0x0D, 0x0A] @ cstring_of ''32,9000,104'' @ [0x0D, 0x0A] @ cstring_of ''1295''"

definition shipped_script :: "u8 list" where
  "shipped_script = cstring_of ''#This is the script for fm1280'' @ [0x0D, 0x0A, 0x0D, 0x0A]
     @ (shipped_instr @ [0x0D]) @ 0x0A # shipped_rest"

lemma tokens_parts:
  "\<forall>(w, c)\<in>set ps. w \<noteq> [] \<and> (\<forall>x\<in>set w. \<not> d x) \<and> d c \<Longrightarrow>
   tokens d (concat (map (\<lambda>(w, c). w @ [c]) ps) @ l) = map fst ps @ tokens d l"
proof (induction ps)
  case (Cons p ps)
  obtain w c where p: "p = (w, c)" by fastforce
  let ?r = "concat (map (\<lambda>(w, c). w @ [c]) ps) @ l"
  have "tokens d (w @ c # ?r) = w # tokens d (c # ?r)" using Cons.prems p by (intro tokens_word) auto
  then show ?case using Cons p by simp
qed simp

lemma shipped_tokens: "tokens is_delim shipped_instr = [0x36, 0x34] # ts \<Longrightarrow> 10 < length ts"
  and shipped_tokens_ex: "\<exists>ts. tokens is_delim shipped_instr = [0x36, 0x34] # ts"
proof -
  let ?c = "0x2C :: u8" and ?s = "0x3A :: u8"
  let ?ps = "[(cstring_of ''64'', ?c), (cstring_of ''0182'', ?s), (cstring_of ''pre0'', ?c), (cstring_of ''0101'', ?s),
    (cstring_of ''pre1'', ?c), (cstring_of ''0181'', ?s), (cstring_of ''pre2'', ?c),
    (cstring_of ''000000000000000000000000'', ?s), (cstring_of ''suf'', ?c), (cstring_of ''08000000000000000'', ?s),
    (cstring_of ''suf1'', ?c), (cstring_of ''0000000000000000'', ?s)]"
  have s: "shipped_instr = concat (map (\<lambda>(w, c). w @ [c]) ?ps) @ cstring_of ''init_data''"
    by (simp add: shipped_instr_def cstring_of_def of_char_def)
  have "tokens is_delim shipped_instr = map fst ?ps @ tokens is_delim (cstring_of ''init_data'')"
    unfolding s by (rule tokens_parts) (simp add: is_delim_def cstring_of_def of_char_def)
  moreover have "cstring_of ''64'' = [0x36, 0x34]" by (simp add: cstring_of_def of_char_def)
  ultimately show "\<exists>ts. tokens is_delim shipped_instr = [0x36, 0x34] # ts"
    and "tokens is_delim shipped_instr = [0x36, 0x34] # ts \<Longrightarrow> 10 < length ts" by auto
qed

lemma shipped_chars: "0x0A \<notin> set (shipped_instr @ [0x0D])" "0 \<notin> set (shipped_instr @ [0x0D])" "0x2C \<in> set shipped_instr"
    "length (shipped_instr @ [0x0D]) + 1 < 1024" "hd shipped_instr \<noteq> 0x23 \<and> hd shipped_instr \<noteq> 0x0D" "shipped_instr \<noteq> []"
  by (simp_all add: shipped_instr_def cstring_of_def of_char_def)

lemma shipped_parse: "parse_entry k raw (shipped_instr @ [0x0D, 0x0A]) lg = Inl Out_Of_Bounds"
proof -
  obtain ts where ts: "tokens is_delim shipped_instr = [0x36, 0x34] # ts" using shipped_tokens_ex by blast
  have "atoi ([0x36, 0x34] @ [0]) = Inr 64" by (simp add: atoi_def is_space_def is_digit_def)
  moreover have "\<not> is_parameterless (shipped_instr @ [0x0D, 0x0A])" using shipped_chars(3) by (simp add: is_parameterless_def)
  moreover have "fmBytes_array_alloc True True DEFAULT_PARAM_NUM = Some (parm_array [])"
    by (simp add: fmBytes_array_alloc_def DEFAULT_PARAM_NUM_def parm_array_def)
  ultimately show ?thesis
    using ts add_parms_overflow [OF shipped_tokens [OF ts]] cut_line_crlf [OF shipped_chars(6)]
    by (simp add: parse_entry_def)
qed

text \<open>
  C34. The program cannot load the script it comes with: the first instruction has twelve parameters,
  and the eleventh is stored behind the end of the parameter array.
\<close>

theorem main_shipped_overflows:
  "tsm_main adr (\<lambda>p. Some shipped_script) = Inl Out_Of_Bounds"
proof -
  let ?f = "(shipped_instr @ [0x0D]) @ 0x0A # shipped_rest"
  let ?ls = "[Note (cstring_of ''#This is the script for fm1280'' @ [0x0D]), Note [0x0D]]"
  have t: "shipped_script = concat (map line_text ?ls) @ ?f"
    by (simp add: shipped_script_def line_text_def)
  have "\<forall>l\<in>set ?ls. line_ok l" by (simp add: line_ok_def cstring_of_def of_char_def)
  then have n: "sc_lines adr shipped_script 0 (se_alloc nm) lg = sc_lines adr ?f 0 (se_alloc nm) lg" for nm lg
    using sc_lines_file [of ?ls "[]" adr ?f nm lg]
    by (simp only: t) (simp add: line_instr_def built_Nil [of _ adr] Let_def)
  have "fgets 1024 ?f = ((shipped_instr @ [0x0D]) @ [0x0A], shipped_rest)"
    by (rule fgets_line [OF shipped_chars(1,2,4)])
  then have "sc_lines adr ?f 0 (se_alloc nm) lg = Inl Out_Of_Bounds" for nm lg
    using shipped_parse shipped_chars(5,6) by (subst sc_lines.simps) simp
  then show ?thesis
    using scloader_load_main [of "\<lambda>p. Some shipped_script" _ adr, OF refl refl] n by (simp add: tsm_main_def)
qed

end
