(* ===== verification/Tsm_Bcloader.thy ===== *)
theory Tsm_Bcloader
  imports Tsm_Clib
begin

text \<open>
  \<open>tsm_bcloader.c\<close>: loading a byte code library. The names of its functions come from a header
  file beside it, whose name is derived from the library's; the functions themselves from the
  dynamic linker. The linker and the file system are parameters: \<open>fopen\<close>, \<open>dlopen\<close>, and
  \<open>dlsym\<close>, which gives \<open>None\<close> where \<open>dlerror\<close> reports an error. Allocations succeed.
\<close>

section \<open>Function arrays\<close>

record func_array =
  fn_size :: int
  fn_base :: int
  fn_cnt :: int
  fn_array :: "u8 list option list"

definition DEF_BYCODE_SIZE :: int where "DEF_BYCODE_SIZE = 256"

definition func_array_alloc :: "int \<Rightarrow> func_array" where
  "func_array_alloc n = \<lparr>fn_size = n, fn_base = 0, fn_cnt = 0, fn_array = replicate (nat n) None\<rparr>"

fun copy_names :: "u8 list option list \<Rightarrow> u8 list option list \<Rightarrow> int \<Rightarrow> nat \<Rightarrow> u8 list option list res" where
  "copy_names new old i 0 = Inr new"
| "copy_names new old i (Suc n) =
     bindR (rd old i) (\<lambda>x. bindR (wr new i x) (\<lambda>new. copy_names new old (i + 1) n))"

definition func_array_resize :: "func_array \<Rightarrow> func_array res" where
  "func_array_resize p =
     (let n = 2 * fn_size p in
      bindR (copy_names (replicate (nat n) None) (fn_array p) 0 (nat (fn_cnt p))) (\<lambda>new.
        Inr (p\<lparr>fn_array := new, fn_size := n\<rparr>)))"

definition func_array_add_entry :: "func_array \<Rightarrow> u8 list \<Rightarrow> func_array res" where
  "func_array_add_entry p e =
     bindR (if fn_cnt p \<ge> fn_size p then func_array_resize p else Inr p) (\<lambda>p.
     bindR (wr (fn_array p) (fn_cnt p) (Some e)) (\<lambda>arr.
       Inr (p\<lparr>fn_array := arr, fn_cnt := fn_cnt p + 1\<rparr>)))"

definition byte_code_set_alloc :: "u8 list \<Rightarrow> int \<Rightarrow> int \<Rightarrow> bc_set" where
  "byte_code_set_alloc name base cnt =
     \<lparr>bcs_name = cstr name @ [0], bcs_base = base, bcs_cnt = cnt, bcs_bc = replicate (nat (4 * cnt)) 0\<rparr>"

section \<open>File names\<close>

text \<open>
  When the library name has no \<open>.so\<close>, \<open>end\<close> is NULL and the difference of the pointers, read as an
  unsigned number, exceeds every size.
\<close>

definition bcloader_get_hfile_name ::
  "u8 list option \<Rightarrow> u8 list option \<Rightarrow> (int \<times> u8 list option) res"
where
  "bcloader_get_hfile_name libname name =
     (case (libname, name) of
        (Some lib, Some nm) \<Rightarrow>
          let lf = str_at [] (sscanf [Lit 0x6C, Lit 0x69, Lit 0x62, Str] (cstr lib)) 0 in
          fits 512 lf (
            let b = lf @ replicate (512 - length lf) 0 in
            bindR (fm_strstr b (int (length lf)) (cstring_of ''.so'') 3) (\<lambda>e.
              case e of
                None \<Rightarrow> Inr (-1, name)
              | Some n \<Rightarrow>
                  if n + 2 > 512 then Inr (-1, name)
                  else bindR (rdn b 0 n) (\<lambda>xs.
                       bindR (wrn (replicate 512 0) 0 xs) (\<lambda>h.
                       bindR (wr h n 0x2E) (\<lambda>h. bindR (wr h (n + 1) 0x68) (\<lambda>h.
                       bindR (strlen h) (\<lambda>k. bindR (rdn h 0 k) (\<lambda>ys.
                       bindR (wrn nm 0 ys) (\<lambda>nm. Inr (0, Some nm)))))))))
          )
      | _ \<Rightarrow> Inr (-1, name))"

definition bcloader_make_hpath ::
  "u8 list option \<Rightarrow> u8 list option \<Rightarrow> u8 list \<Rightarrow> int \<Rightarrow> (int \<times> u8 list) res"
where
  "bcloader_make_hpath path hfile hpath sz =
     (case (path, hfile) of
        (Some p, Some h) \<Rightarrow>
          bindR (last_index_of p 0x2F) (\<lambda>index. bindR (strlen h) (\<lambda>n.
            if index = -1
            then if n > sz then Inr (-1, hpath)
                 else bindR (wrn hpath 0 (cstr h @ [0])) (\<lambda>hp. Inr (0, hp))
            else if index + 1 + n > sz then Inr (-1, hpath)
            else bindR (rdn p 0 (index + 1)) (\<lambda>xs. bindR (wrn hpath 0 xs) (\<lambda>hp.
                 bindR (wrn hp (index + 1) (cstr h)) (\<lambda>hp. Inr (0, hp))))))
      | _ \<Rightarrow> Inr (-1, hpath))"

section \<open>The header file\<close>

text \<open>\<open>%*[^0-9]%s\<close> and \<open>%*[^ ] %[^(]\<close>.\<close>

definition fmt_base :: "conv list" where
  "fmt_base = [Skip_of (\<lambda>c. \<not> is_digit c), Str]"

definition fmt_func :: "conv list" where
  "fmt_func = [Skip_of (\<lambda>c. c \<noteq> 0x20), Ws, Set_of (\<lambda>c. c \<noteq> 0x28)]"

definition header_line :: "u8 list \<Rightarrow> func_array \<Rightarrow> func_array res" where
  "header_line l fa =
     (if l \<noteq> [] \<and> hd l = 0x0D then Inr fa
      else if l \<noteq> [] \<and> hd l = 0x23
      then if contains (cstring_of ''BC_BASE'') l
           then bindR (atoi (str_at [] (sscanf fmt_base l) 0 @ [0])) (\<lambda>v. Inr (fa\<lparr>fn_base := v\<rparr>))
           else Inr fa
      else bindR (rd l (int (length l) - 1)) (\<lambda>c.
           let l = (if c = 0x0A then butlast l else l)
           in func_array_add_entry fa (str_at [] (sscanf fmt_func l) 0 @ [0])))"

function header_lines :: "u8 list \<Rightarrow> func_array \<Rightarrow> func_array res" where
  "header_lines f fa =
     (if f = [] then Inr fa
      else let (l, f') = fgets 1024 f in bindR (header_line l fa) (\<lambda>fa. header_lines f' fa))"
  by (pat_completeness, simp)

termination
  by (relation "measure (\<lambda>(f, fa). length f)") (auto dest: fgets_less)

declare header_lines.simps [simp del]

definition FM_BCLOADER_INVALID_PARM :: int where "FM_BCLOADER_INVALID_PARM = 0x80000501 - 2 ^ 32"
definition FM_SYS_ERR_OPEN_FILE_FAIL :: int where "FM_SYS_ERR_OPEN_FILE_FAIL = 0x80000002 - 2 ^ 32"

definition bcloader_get_funcs_name ::
  "u8 list option \<Rightarrow> func_array option \<Rightarrow> (int \<times> func_array option) res"
where
  "bcloader_get_funcs_name file funcs =
     (case funcs of
        None \<Rightarrow> Inr (FM_BCLOADER_INVALID_PARM, funcs)
      | Some fa \<Rightarrow>
          if fn_cnt fa \<noteq> 0 then Inr (FM_BCLOADER_INVALID_PARM, funcs)
          else (case file of
                  None \<Rightarrow> Inr (FM_SYS_ERR_OPEN_FILE_FAIL, funcs)
                | Some f \<Rightarrow> bindR (header_lines f fa) (\<lambda>fa. Inr (0, Some fa))))"

section \<open>Loading\<close>

text \<open>The loop that looks up the functions; \<open>None\<close> when the linker reports an error.\<close>

fun resolve :: "(u8 list \<Rightarrow> u32 option) \<Rightarrow> u8 list option list \<Rightarrow> bc_set \<Rightarrow> int \<Rightarrow> nat \<Rightarrow> bc_set option res" where
  "resolve dlsym arr s i 0 = Inr (Some s)"
| "resolve dlsym arr s i (Suc n) =
     bindR (rd arr i) (\<lambda>name. bindR (deref name) (\<lambda>name.
       case dlsym (cstr name) of
         None \<Rightarrow> Inr None
       | Some f \<Rightarrow> bindR (wrn (bcs_bc s) (4 * i) (le_bytes f)) (\<lambda>bc.
                     resolve dlsym arr (s\<lparr>bcs_bc := bc\<rparr>) (i + 1) n)))"

definition bcloader_load ::
  "(u8 list \<Rightarrow> u8 list option) \<Rightarrow> (u8 list \<Rightarrow> (u8 list \<Rightarrow> u32 option) option) \<Rightarrow> u8 list \<Rightarrow> bc_set list
     \<Rightarrow> (bc_set option \<times> bc_set list) res"
where
  "bcloader_load fopen dlopen path bcs_list =
     bindR (get_filename_from_path (Some path) (Some (replicate 512 0)) 512) (\<lambda>(ret, libfile).
     if ret \<noteq> 0 then Inr (None, bcs_list)
     else bindR (bcloader_get_hfile_name libfile (Some (replicate 512 0))) (\<lambda>(ret, hfile).
     if ret \<noteq> 0 then Inr (None, bcs_list)
     else bindR (bcloader_make_hpath (Some path) hfile (replicate 512 0) 512) (\<lambda>(ret, hpath).
     bindR (bcloader_get_funcs_name (fopen (cstr hpath)) (Some (func_array_alloc DEF_BYCODE_SIZE))) (\<lambda>(ret, fa).
     if ret \<noteq> 0 then Inr (None, bcs_list)
     else bindR (deref fa) (\<lambda>fa. bindR (deref libfile) (\<lambda>lib.
       let s = byte_code_set_alloc lib (fn_base fa) (fn_cnt fa) in
       case dlopen (cstr path) of
         None \<Rightarrow> Inr (None, bcs_list)
       | Some dlsym \<Rightarrow>
           bindR (resolve dlsym (fn_array fa) s 0 (nat (fn_cnt fa))) (\<lambda>r.
             case r of
               None \<Rightarrow> Inr (None, bcs_list)
             | Some s \<Rightarrow> Inr (Some s, bcs_list @ [s]))))))))"

section \<open>Lemmas\<close>

text \<open>A well-formed array and the names in it.\<close>

definition fn_ok :: "func_array \<Rightarrow> bool" where
  "fn_ok p \<longleftrightarrow> fn_size p = int (length (fn_array p)) \<and> 0 \<le> fn_cnt p \<and> fn_cnt p \<le> fn_size p \<and> 0 < fn_size p"

definition fn_names :: "func_array \<Rightarrow> u8 list option list" where
  "fn_names p = take (nat (fn_cnt p)) (fn_array p)"

lemma copy_names_ok:
  "i + n \<le> length old \<Longrightarrow> i + n \<le> length new \<Longrightarrow>
   copy_names new old (int i) n = Inr (take i new @ take n (drop i old) @ drop (i + n) new)"
proof (induction n arbitrary: i new)
  case (Suc n)
  have "copy_names new old (int i) (Suc n) = copy_names (new[i := old ! i]) old (int (Suc i)) n"
    using Suc.prems by (simp add: rd_nat wr_nat add.commute)
  also have "\<dots> = Inr (take (Suc i) (new[i := old ! i]) @ take n (drop (Suc i) old)
      @ drop (Suc i + n) (new[i := old ! i]))"
    using Suc.prems by (intro Suc.IH) simp_all
  finally have "copy_names new old (int i) (Suc n) = Inr (take (Suc i) (new[i := old ! i])
      @ take n (drop (Suc i) old) @ drop (Suc i + n) (new[i := old ! i]))" .
  moreover have "take (Suc i) (new[i := old ! i]) = take i new @ [old ! i]"
    using Suc.prems by (simp add: take_update_last)
  moreover have "drop i old = old ! i # drop (Suc i) old"
    using Suc.prems by (simp add: Cons_nth_drop_Suc)
  moreover have "drop (Suc i + n) (new[i := old ! i]) = drop (i + Suc n) new"
    by (simp add: drop_update_cancel del: drop_Suc)
  ultimately show ?case by simp
qed simp

lemma func_array_resize_ok:
  assumes "fn_ok p"
  obtains p' where "func_array_resize p = Inr p'" "fn_ok p'" "fn_names p' = fn_names p"
    "fn_cnt p' = fn_cnt p" "fn_size p' = 2 * fn_size p" "fn_base p' = fn_base p"
proof -
  obtain c where c: "fn_cnt p = int c" "c \<le> length (fn_array p)"
    using assms by (metis fn_ok_def nonneg_int_cases of_nat_le_iff)
  let ?n = "2 * length (fn_array p)"
  have n: "nat (2 * fn_size p) = ?n" using assms by (simp add: fn_ok_def nat_mult_distrib)
  let ?a = "take c (fn_array p) @ drop c (replicate ?n None)"
  have "copy_names (replicate ?n None) (fn_array p) (int 0) c = Inr ?a"
    using c(2) copy_names_ok [of 0 c "fn_array p" "replicate ?n None"] by simp
  then have "func_array_resize p = Inr (p\<lparr>fn_array := ?a, fn_size := 2 * fn_size p\<rparr>)"
    using c(1) n by (simp add: func_array_resize_def)
  moreover have "fn_ok (p\<lparr>fn_array := ?a, fn_size := 2 * fn_size p\<rparr>)"
    using assms c by (auto simp: fn_ok_def)
  ultimately show ?thesis using c
    by (intro that [of "p\<lparr>fn_array := ?a, fn_size := 2 * fn_size p\<rparr>"]) (simp_all add: fn_names_def min_def)
qed

lemma func_array_add_ok:
  assumes "fn_ok p"
  obtains p' where "func_array_add_entry p e = Inr p'" "fn_ok p'" "fn_names p' = fn_names p @ [Some e]"
    "fn_cnt p' = fn_cnt p + 1" "fn_base p' = fn_base p"
proof -
  obtain q where q: "(if fn_cnt p \<ge> fn_size p then func_array_resize p else Inr p) = Inr q" "fn_ok q"
      "fn_names q = fn_names p" "fn_cnt q = fn_cnt p" "fn_cnt q < fn_size q" "fn_base q = fn_base p"
  proof (cases "fn_cnt p \<ge> fn_size p")
    case True
    obtain q where "func_array_resize p = Inr q" "fn_ok q" "fn_names q = fn_names p" "fn_cnt q = fn_cnt p"
        "fn_size q = 2 * fn_size p" "fn_base q = fn_base p"
      by (rule func_array_resize_ok [OF assms])
    moreover have "fn_cnt p < 2 * fn_size p" using assms by (auto simp: fn_ok_def)
    ultimately show ?thesis using True assms by (intro that [of q]) simp_all
  next
    case False
    then show ?thesis using assms by (intro that [of p]) auto
  qed
  obtain c where c: "fn_cnt q = int c" "c < length (fn_array q)"
    using q(2,5) by (metis fn_ok_def nonneg_int_cases of_nat_less_iff)
  let ?p = "q\<lparr>fn_array := (fn_array q)[c := Some e], fn_cnt := fn_cnt q + 1\<rparr>"
  have "func_array_add_entry p e = Inr ?p"
    unfolding func_array_add_entry_def q(1) using c by (simp add: wr_nat)
  moreover have "fn_ok ?p" using q(2,5) by (auto simp: fn_ok_def)
  moreover have "fn_names ?p = fn_names p @ [Some e]"
    using c q(3) by (simp add: fn_names_def nat_add_distrib take_Suc_conv_app_nth)
  ultimately show ?thesis using q(4,6) by (intro that [of ?p]) simp_all
qed

text \<open>The header: the base, and a prototype for every function.\<close>

type_synonym proto = "u8 list \<times> u8 list"

definition proto_text :: "proto \<Rightarrow> u8 list" where
  "proto_text = (\<lambda>(n, r). cstring_of ''int '' @ n @ 0x28 # r)"

definition proto_ok :: "proto \<Rightarrow> bool" where
  "proto_ok = (\<lambda>(n, r). n \<noteq> [] \<and> \<not> is_space (hd n) \<and> 0x28 \<notin> set n \<and> {0, 0x0A} \<inter> set (n @ r) = {}
     \<and> length n + length r \<le> 1000)"

definition base_text :: "u8 list \<Rightarrow> u8 list" where
  "base_text ds = cstring_of ''#define BC_BASE '' @ ds"

lemma header_line_proto:
  assumes "proto_ok (n, r)"
  shows "header_line (proto_text (n, r) @ [0x0A]) fa = func_array_add_entry fa (n @ [0])"
proof -
  have pr: "proto_text (n, r) = 0x69 # 0x6E # 0x74 # 0x20 # n @ 0x28 # r"
    by (simp add: proto_text_def cstring_of_def of_char_def)
  have d: "dropWhile is_space (0x20 # n @ s) = n @ s" for s
  proof -
    have "dropWhile is_space (n @ s) = n @ s" using assms by (cases n) (auto simp: proto_ok_def)
    moreover have "is_space 0x20" by (simp add: is_space_def)
    ultimately show ?thesis by simp
  qed
  have t: "takeWhile (\<lambda>c. c \<noteq> 0x28) (n @ 0x28 # r) = n"
    using assms by (subst takeWhile_append2) (auto simp: proto_ok_def)
  have "sscanf fmt_func (proto_text (n, r)) = [SStr n]"
    unfolding pr fmt_func_def using assms by (simp add: d t Let_def proto_ok_def del: dropWhile.simps)
  moreover have "rd (proto_text (n, r) @ [0x0A]) (int (length (proto_text (n, r) @ [0x0A])) - 1) = Inr 0x0A"
    by (simp add: rd_def)
  moreover have "hd (proto_text (n, r) @ [0x0A]) = 0x69" by (simp add: pr)
  ultimately show ?thesis by (simp add: header_line_def str_at_def)
qed

lemma header_line_base:
  assumes "\<forall>c\<in>set ds. is_digit c" and "ds \<noteq> []" and "dec_val ds < 2 ^ 31"
  shows "header_line (base_text ds @ [0x0A]) fa = Inr (fa\<lparr>fn_base := dec_val ds\<rparr>)"
proof -
  have sp: "is_digit c \<Longrightarrow> \<not> is_space c" for c
    by (auto simp: is_space_def is_digit_def word_le_nat_alt)
  let ?pre = "cstring_of ''#define BC_BASE ''"
  have pre: "\<forall>c\<in>set ?pre. \<not> is_digit c" "?pre \<noteq> []"
    by (simp_all add: cstring_of_def of_char_def is_digit_def)
  obtain d dr where d: "ds = d # dr" "is_digit d" using assms by (cases ds) auto
  have t: "takeWhile (\<lambda>c. \<not> is_digit c) (?pre @ ds @ [0x0A]) = ?pre"
    using pre(1) d by (subst takeWhile_append2) auto
  have "sscanf (Str # []) (ds @ [0x0A]) = SStr ds # sscanf [] [0x0A]"
    using assms sp by (intro sscanf_Str_word) (auto simp: is_space_def)
  then have "sscanf fmt_base (base_text ds @ [0x0A]) = [SStr ds]"
    unfolding fmt_base_def base_text_def append_assoc sscanf.simps(6) t Let_def
    using pre(2) by (simp del: sscanf.simps(4))
  moreover have "contains (cstring_of ''BC_BASE'') (base_text ds @ [0x0A])"
    by (simp add: base_text_def cstring_of_def of_char_def)
  moreover have "hd (base_text ds @ [0x0A]) = 0x23" "base_text ds \<noteq> []"
    by (simp_all add: base_text_def cstring_of_def of_char_def)
  moreover have "\<not> is_digit 0" by (simp add: is_digit_def)
  ultimately show ?thesis
    using atoi_ok [OF assms(1,2) _ assms(3), of 0 "[]"] by (simp add: header_line_def str_at_def)
qed

lemma header_lines_ok:
  "\<forall>p\<in>set ps. proto_ok p \<Longrightarrow> fn_ok fa \<Longrightarrow>
   \<exists>fa'. header_lines (concat (map (\<lambda>p. proto_text p @ [0x0A]) ps)) fa = Inr fa' \<and> fn_ok fa'
     \<and> fn_names fa' = fn_names fa @ map (\<lambda>(n, r). Some (n @ [0])) ps
     \<and> fn_cnt fa' = fn_cnt fa + int (length ps) \<and> fn_base fa' = fn_base fa"
proof (induction ps arbitrary: fa)
  case Nil
  then show ?case by (subst header_lines.simps) simp
next
  case (Cons p ps)
  obtain n r where p: "p = (n, r)" by fastforce
  obtain fa1 where fa1: "func_array_add_entry fa (n @ [0]) = Inr fa1" "fn_ok fa1"
      "fn_names fa1 = fn_names fa @ [Some (n @ [0])]" "fn_cnt fa1 = fn_cnt fa + 1" "fn_base fa1 = fn_base fa"
    by (rule func_array_add_ok [OF Cons.prems(2)])
  let ?rest = "concat (map (\<lambda>p. proto_text p @ [0x0A]) ps)"
  have ok: "proto_ok (n, r)" using Cons.prems(1) p by simp
  have chars: "0x0A \<notin> set (proto_text p)" "0 \<notin> set (proto_text p)" "length (proto_text p) + 1 < 1024"
    using ok by (auto simp: p proto_ok_def proto_text_def cstring_of_def of_char_def)
  have "fgets 1024 (proto_text p @ 0x0A # ?rest) = (proto_text p @ [0x0A], ?rest)"
    by (rule fgets_line [OF chars])
  then have "header_lines (concat (map (\<lambda>p. proto_text p @ [0x0A]) (p # ps))) fa = header_lines ?rest fa1"
    using header_line_proto [OF ok] fa1(1) p by (subst header_lines.simps) simp
  moreover have "\<forall>p\<in>set ps. proto_ok p" using Cons.prems(1) by simp
  from Cons.IH [OF this fa1(2)] obtain fa' where "header_lines ?rest fa1 = Inr fa'" "fn_ok fa'"
     "fn_names fa' = fn_names fa1 @ map (\<lambda>(n, r). Some (n @ [0])) ps"
     "fn_cnt fa' = fn_cnt fa1 + int (length ps)" "fn_base fa' = fn_base fa1" by blast
  ultimately show ?case using fa1 p by simp
qed

text \<open>The name of a library in a directory, and the header that belongs to it.\<close>

definition lib_file :: "u8 list \<Rightarrow> u8 list" where
  "lib_file nm = cstring_of ''lib'' @ nm @ cstring_of ''.so''"

definition head_file :: "u8 list \<Rightarrow> u8 list" where
  "head_file nm = nm @ cstring_of ''.h''"

definition lib_ok :: "u8 list \<Rightarrow> u8 list \<Rightarrow> bool" where
  "lib_ok dir nm \<longleftrightarrow> dir \<noteq> [] \<and> 0 \<notin> set (dir @ nm) \<and> {0x2F, 0x2E} \<inter> set nm = {}
     \<and> (\<forall>c\<in>set nm. \<not> is_space c) \<and> length dir + length nm \<le> 500"

lemma lib_bytes:
  "lib_file nm = 0x6C # 0x69 # 0x62 # nm @ [0x2E, 0x73, 0x6F]" "head_file nm = nm @ [0x2E, 0x68]"
  "cstring_of ''.so'' = [0x2E, 0x73, 0x6F]"
  by (simp_all add: lib_file_def head_file_def cstring_of_def of_char_def)

lemma get_hfile_ok:
  assumes "lib_ok dir nm"
  shows "bcloader_get_hfile_name (Some (lib_file nm @ 0 # r)) (Some (replicate 512 0))
    = Inr (0, Some (head_file nm @ replicate (510 - length nm) 0))"
proof -
  let ?f = "nm @ [0x2E, 0x73, 0x6F]"
  let ?b = "?f @ replicate (512 - length ?f) 0"
  have nm: "0 \<notin> set nm" "0x2E \<notin> set nm" "\<forall>c\<in>set nm. \<not> is_space c" "length nm \<le> 500"
    using assms by (auto simp: lib_ok_def)
  have "0 \<notin> set (lib_file nm)" using nm(1) by (simp add: lib_bytes)
  then have c: "cstr (lib_file nm @ 0 # r) = lib_file nm" by (rule cstr_append)
  have "sscanf (Str # []) (?f @ []) = SStr ?f # sscanf [] []"
    using nm(3) by (intro sscanf_Str_word) (auto simp: is_space_def)
  then have s: "sscanf [Lit 0x6C, Lit 0x69, Lit 0x62, Str] (lib_file nm) = [SStr ?f]"
    by (simp add: lib_bytes del: sscanf.simps(4))
  have find: "find (\<lambda>k. take 3 (drop k ?b) = [0x2E, 0x73, 0x6F]) [0..<length nm + 3] = Some (length nm)"
  proof -
    have "take 3 (drop k ?b) \<noteq> [0x2E, 0x73, 0x6F]" if "k < length nm" for k
    proof -
      have "drop k ?b = nm ! k # drop (Suc k) ?b"
        using that Cons_nth_drop_Suc [of k ?b] by (simp add: nth_append)
      moreover have "nm ! k \<noteq> 0x2E" using nm(2) that by (metis nth_mem)
      ultimately show ?thesis by (simp add: take_Cons')
    qed
    then show ?thesis unfolding find_Some_iff by (intro exI [of _ "length nm"]) (simp add: nth_append)
  qed
  have e: "length [0x2E, 0x73, 0x6F :: u8] = 3" "nat (int (length nm) + 3) = length nm + 3"
      "int (length nm + 3) = int (length nm) + 3"
    by simp_all
  have "fm_strstr ?b (int (length nm + 3)) [0x2E, 0x73, 0x6F] (int (length [0x2E, 0x73, 0x6F :: u8]))
      = Inr (map_option int (find (\<lambda>k. take (length [0x2E, 0x73, 0x6F :: u8]) (drop k ?b) = [0x2E, 0x73, 0x6F])
          [0..<nat (int (length nm + 3))]))"
    using nm(4) by (intro fm_strstr_finds_first) simp_all
  then have st: "fm_strstr ?b (int (length nm) + 3) [0x2E, 0x73, 0x6F] 3 = Inr (Some (int (length nm)))"
    unfolding e find by simp
  let ?z = "replicate (510 - length nm) 0 :: u8 list"
  have z: "replicate (512 - length nm) 0 = 0 # 0 # ?z"
  proof -
    have "512 - length nm = Suc (Suc (510 - length nm))" using nm(4) by simp
    then show ?thesis by simp
  qed
  have z2: "?z = 0 # replicate (509 - length nm) 0"
  proof -
    have "510 - length nm = Suc (509 - length nm)" using nm(4) by simp
    then show ?thesis by simp
  qed
  have w1: "wrn (replicate 512 0) 0 nm = Inr (nm @ 0 # 0 # ?z)"
    using nm(4) z by (simp add: wrn_def)
  have w2: "wr (nm @ 0 # 0 # ?z) (int (length nm)) 0x2E = Inr (nm @ 0x2E # 0 # ?z)"
    by (subst wr_nat) (simp_all add: list_update_append)
  have w3: "wr (nm @ 0x2E # 0 # ?z) (int (length nm) + 1) 0x68 = Inr (nm @ 0x2E # 0x68 # ?z)"
    using wr_nat [of "Suc (length nm)" "nm @ 0x2E # 0 # ?z" "0x68"] by (simp add: list_update_append add.commute)
  have h0: "0 \<notin> set (nm @ [0x2E, 0x68])" using nm(1) by simp
  have n: "strlen (nm @ 0x2E # 0x68 # ?z) = Inr (int (length nm + 2))"
    using strlen_append [OF h0, of "replicate (509 - length nm) 0"] z2 by simp
  have rd2: "rdn (nm @ 0x2E # 0x68 # ?z) 0 (int (length nm + 2)) = Inr (nm @ [0x2E, 0x68])"
    by (simp add: rdn_def nat_add_distrib)
  have w4: "wrn (replicate 512 0) 0 (nm @ [0x2E, 0x68]) = Inr (nm @ 0x2E # 0x68 # ?z)"
    using nm(4) by (simp add: wrn_def)
  have rd1: "rdn ?b 0 (int (length nm)) = Inr nm" by (simp add: rdn_def)
  have len: "length ?f < 512" "int (length nm) + 2 \<le> 512" using nm(4) by simp_all
  show ?thesis
    using st w1 w2 w3 n rd2 w4 rd1 len
    by (simp add: bcloader_get_hfile_name_def c s str_at_def Let_def lib_bytes(2,3) add.commute
        del: sscanf.simps)
qed

lemma make_hpath_ok:
  assumes "lib_ok dir nm"
  shows "bcloader_make_hpath (Some (dir @ 0x2F # lib_file nm @ 0 # r)) (Some (head_file nm @ replicate (510 - length nm) 0))
      (replicate 512 0) 512
    = Inr (0, (dir @ 0x2F # head_file nm) @ replicate (509 - length dir - length nm) 0)"
proof -
  have d: "dir \<noteq> []" "0 \<notin> set (dir @ 0x2F # lib_file nm)" "0x2F \<notin> set (lib_file nm)" "length dir + length nm \<le> 500"
      "0 \<notin> set (head_file nm)"
    using assms by (auto simp: lib_ok_def lib_bytes)
  have i: "last_index_of (dir @ 0x2F # lib_file nm @ 0 # r) 0x2F = Inr (int (length dir))"
    by (rule last_index_of_split [OF d(1-3)])
  have z: "replicate (510 - length nm) 0 = 0 # replicate (509 - length nm) (0 :: u8)"
  proof -
    have "510 - length nm = Suc (509 - length nm)" using d(4) by simp
    then show ?thesis by simp
  qed
  have n: "strlen (head_file nm @ replicate (510 - length nm) 0) = Inr (int (length nm + 2))"
    unfolding z using strlen_append [OF d(5)] by (simp add: lib_bytes)
  have c: "cstr (head_file nm @ replicate (510 - length nm) 0) = head_file nm"
    unfolding z by (rule cstr_append [OF d(5)])
  have r1: "rdn (dir @ 0x2F # lib_file nm @ 0 # r) 0 (int (length dir) + 1) = Inr (dir @ [0x2F])"
    by (simp add: rdn_def nat_add_distrib)
  let ?h = "dir @ 0x2F # replicate (511 - length dir) 0"
  have w1: "wrn (replicate 512 0) 0 (dir @ [0x2F]) = Inr ?h" using d(4) by (simp add: wrn_def)
  have w2: "wrn ?h (int (length dir) + 1) (head_file nm)
      = Inr ((dir @ 0x2F # head_file nm) @ replicate (509 - length dir - length nm) 0)"
    using d(4) by (simp add: wrn_def nat_add_distrib lib_bytes drop_Cons' numeral_3_eq_3)
  have le: "\<not> int (length dir) + 1 + int (length nm + 2) > 512" using d(4) by simp
  show ?thesis
    using i n r1 w1 w2 le by (simp add: bcloader_make_hpath_def c)
qed

lemma resolve_ok:
  "length xs + length ns \<le> length arr \<Longrightarrow> take (length ns) (drop (length xs) arr) = map (\<lambda>n. Some (n @ [0])) ns \<Longrightarrow>
   \<forall>n\<in>set ns. 0 \<notin> set n \<and> dlsym n = Some (f n) \<Longrightarrow>
   bcs_bc s = concat (map le_bytes xs) @ replicate (4 * length ns) 0 \<Longrightarrow>
   resolve dlsym arr s (int (length xs)) (length ns)
     = Inr (Some (s\<lparr>bcs_bc := concat (map le_bytes (xs @ map f ns))\<rparr>))"
proof (induction ns arbitrary: xs s)
  case (Cons n ns)
  have lb: "length (concat (map le_bytes ys)) = 4 * length ys" for ys
    by (induction ys) (simp_all add: le_bytes_def)
  have d: "drop (length xs) arr = arr ! length xs # drop (Suc (length xs)) arr"
    using Cons.prems(1) by (simp add: Cons_nth_drop_Suc)
  then have a: "arr ! length xs = Some (n @ [0])"
      "take (length ns) (drop (length (xs @ [f n])) arr) = map (\<lambda>n. Some (n @ [0])) ns"
    using Cons.prems(2) by simp_all
  have r: "rd arr (int (length xs)) = Inr (Some (n @ [0]))" using Cons.prems(1) a(1) by (simp add: rd_nat)
  have c: "cstr (n @ [0]) = n" using cstr_append [of n "[]"] Cons.prems(3) by simp
  have w: "wrn (bcs_bc s) (4 * int (length xs)) (le_bytes (f n))
      = Inr (concat (map le_bytes (xs @ [f n])) @ replicate (4 * length ns) 0)"
    unfolding Cons.prems(4) by (simp add: wrn_def lb nat_mult_distrib le_bytes_def)
  let ?s = "s\<lparr>bcs_bc := concat (map le_bytes (xs @ [f n])) @ replicate (4 * length ns) 0\<rparr>"
  have "resolve dlsym arr ?s (int (length (xs @ [f n]))) (length ns)
      = Inr (Some (?s\<lparr>bcs_bc := concat (map le_bytes ((xs @ [f n]) @ map f ns))\<rparr>))"
    using Cons.prems by (intro Cons.IH a(2)) simp_all
  then show ?case using Cons.prems(3) by (simp add: r c w add.commute)
qed simp

lemma get_funcs_name_ok:
  assumes "\<forall>p\<in>set ps. proto_ok p" and "\<forall>c\<in>set ds. is_digit c" and "ds \<noteq> []" and "length ds \<le> 1000"
    and "dec_val ds < 2 ^ 31"
  obtains fa where "bcloader_get_funcs_name (Some ((base_text ds @ [0x0A]) @ concat (map (\<lambda>p. proto_text p @ [0x0A]) ps)))
      (Some (func_array_alloc DEF_BYCODE_SIZE)) = Inr (0, Some fa)"
    "fn_ok fa" "fn_names fa = map (\<lambda>(n, r). Some (n @ [0])) ps" "fn_cnt fa = int (length ps)" "fn_base fa = dec_val ds"
proof -
  let ?fa = "func_array_alloc DEF_BYCODE_SIZE"
  let ?rest = "concat (map (\<lambda>p. proto_text p @ [0x0A]) ps)"
  have fa0: "fn_ok (?fa\<lparr>fn_base := dec_val ds\<rparr>)" by (simp add: fn_ok_def func_array_alloc_def DEF_BYCODE_SIZE_def)
  obtain fa where fa: "header_lines ?rest (?fa\<lparr>fn_base := dec_val ds\<rparr>) = Inr fa" "fn_ok fa"
      "fn_names fa = map (\<lambda>(n, r). Some (n @ [0])) ps" "fn_cnt fa = int (length ps)" "fn_base fa = dec_val ds"
    using header_lines_ok [OF assms(1) fa0] by (auto simp: fn_names_def func_array_alloc_def)
  have b: "0x0A \<notin> set (base_text ds)" "0 \<notin> set (base_text ds)" "length (base_text ds) + 1 < 1024"
  proof -
    have "\<not> is_digit 0x0A" "\<not> is_digit 0" by (simp_all add: is_digit_def)
    then have "0x0A \<notin> set ds" "0 \<notin> set ds" using assms(2) by blast+
    then show "0x0A \<notin> set (base_text ds)" "0 \<notin> set (base_text ds)" "length (base_text ds) + 1 < 1024"
      using assms(4) by (simp_all add: base_text_def cstring_of_def of_char_def)
  qed
  have "header_lines ((base_text ds @ [0x0A]) @ ?rest) ?fa = Inr fa"
    using fgets_line [OF b, of ?rest] header_line_base [OF assms(2,3,5)] fa(1)
    by (subst header_lines.simps) simp
  then show ?thesis
    using fa(2-5) by (intro that [of fa]) (simp_all add: bcloader_get_funcs_name_def func_array_alloc_def)
qed

section \<open>Properties\<close>

text \<open>
  Adding a name to a well-formed array puts it behind the others and keeps the array well
  formed, however full it is: a full array is doubled first and keeps all its names.
\<close>

theorem func_array_add_appends:
  assumes "fn_ok p"
  shows "\<exists>p'. func_array_add_entry p e = Inr p' \<and> fn_ok p' \<and> fn_names p' = fn_names p @ [Some e]"
  using func_array_add_ok [OF assms] by metis

theorem func_array_add_appends_example:
  "\<exists>p'. func_array_add_entry \<lparr>fn_size = 1, fn_base = 0, fn_cnt = 1, fn_array = [Some [97, 0]]\<rparr> [98, 0] = Inr p'
     \<and> fn_names p' = [Some [97, 0], Some [98, 0]]"
  using func_array_add_appends [of "\<lparr>fn_size = 1, fn_base = 0, fn_cnt = 1, fn_array = [Some [97, 0]]\<rparr>" "[98, 0]"]
  by (auto simp: fn_ok_def fn_names_def)

text \<open>
  C11. Loading the library \<open>dir/libX.so\<close> reads the header \<open>dir/X.h\<close> and gives, for a header
  with a base number and a prototype per function, the byte code set with that base and the
  functions of the library in the order of the header; the set is added to the list of libraries.
\<close>

theorem bcloader_load_resolves:
  assumes "lib_ok dir nm"
    and "fopen (dir @ 0x2F # head_file nm) = Some ((base_text ds @ [0x0A]) @ concat (map (\<lambda>p. proto_text p @ [0x0A]) ps))"
    and "dlopen (dir @ 0x2F # lib_file nm) = Some dlsym"
    and "\<forall>p\<in>set ps. proto_ok p" and "\<forall>p\<in>set ps. dlsym (fst p) = Some (f (fst p))"
    and "\<forall>c\<in>set ds. is_digit c" and "ds \<noteq> []" and "length ds \<le> 1000"
    and "dec_val ds < 2 ^ 31"
  shows "\<exists>s. bcloader_load fopen dlopen (dir @ 0x2F # lib_file nm @ [0]) bcs = Inr (Some s, bcs @ [s])
    \<and> bcs_name s = lib_file nm @ [0] \<and> bcs_base s = dec_val ds \<and> bcs_cnt s = int (length ps)
    \<and> bcs_bc s = concat (map (le_bytes \<circ> f \<circ> fst) ps)"
proof -
  have d: "dir \<noteq> []" "0 \<notin> set (dir @ 0x2F # lib_file nm)" "0x2F \<notin> set (lib_file nm)" "length dir + length nm \<le> 500"
      "0 \<notin> set (dir @ 0x2F # head_file nm)" "0 \<notin> set (lib_file nm)"
    using assms(1) by (auto simp: lib_ok_def lib_bytes)
  let ?path = "dir @ 0x2F # lib_file nm @ [0]"
  have p: "cstr ?path = dir @ 0x2F # lib_file nm" using cstr_append [OF d(2), of "[]"] by simp
  define r where "r = replicate (511 - length (lib_file nm)) (0 :: u8)"
  have g: "get_filename_from_path (Some ?path) (Some (replicate 512 0)) 512 = Inr (0, Some (lib_file nm @ 0 # r))"
  proof -
    have "512 - length (lib_file nm) = Suc (511 - length (lib_file nm))" using d(4) by (simp add: lib_bytes)
    then show ?thesis
      using get_filename_from_path_base [OF d(1-3), of 512 "replicate 512 0" "[]"] d(4)
      by (simp add: r_def lib_bytes)
  qed
  have hp: "cstr (dir @ 0x2F # head_file nm @ replicate (509 - (length dir + length nm)) 0) = dir @ 0x2F # head_file nm"
  proof -
    have "509 - (length dir + length nm) = Suc (508 - (length dir + length nm))" using d(4) by simp
    then show ?thesis using cstr_append [OF d(5)] by simp
  qed
  obtain fa where h: "bcloader_get_funcs_name (fopen (dir @ 0x2F # head_file nm)) (Some (func_array_alloc DEF_BYCODE_SIZE))
        = Inr (0, Some fa)" and fa: "fn_ok fa" "fn_names fa = map (\<lambda>(n, r). Some (n @ [0])) ps"
      "fn_cnt fa = int (length ps)" "fn_base fa = dec_val ds"
    unfolding assms(2) by (rule get_funcs_name_ok [OF assms(4,6-9)])
  let ?s = "byte_code_set_alloc (lib_file nm @ 0 # r) (dec_val ds) (int (length ps))"
  have names: "take (length (map fst ps)) (drop (length ([] :: u32 list)) (fn_array fa)) = map (\<lambda>n. Some (n @ [0])) (map fst ps)"
    using fa(2,3) by (simp add: fn_names_def split_beta)
  have le: "length ps \<le> length (fn_array fa)" using fa(1,3) by (simp add: fn_ok_def)
  have sym: "\<forall>n\<in>set (map fst ps). 0 \<notin> set n \<and> dlsym n = Some (f n)"
    using assms(4,5) by (auto simp: proto_ok_def)
  have z: "bcs_bc ?s = concat (map le_bytes []) @ replicate (4 * length (map fst ps)) 0"
    by (simp add: byte_code_set_alloc_def nat_mult_distrib)
  have "resolve dlsym (fn_array fa) ?s 0 (length ps) = Inr (Some (?s\<lparr>bcs_bc := concat (map (le_bytes \<circ> f \<circ> fst) ps)\<rparr>))"
    using resolve_ok [OF _ names sym z] le by (simp add: comp_def)
  then show ?thesis
    using g get_hfile_ok [OF assms(1)] make_hpath_ok [OF assms(1), of "[]"] h fa(3,4) cstr_append [OF d(6)]
    by (simp add: bcloader_load_def p hp assms(3) byte_code_set_alloc_def)
qed

theorem bcloader_load_resolves_witness:
  "\<exists>s. bcloader_load
      (\<lambda>p. if p = cstring_of ''./a.h'' then Some (cstring_of ''#define BC_BASE 7'' @ [0x0A] @ cstring_of ''int f(x);'' @ [0x0A]) else None)
      (\<lambda>p. if p = cstring_of ''./liba.so'' then Some (\<lambda>n. if n = cstring_of ''f'' then Some 0x1234 else None) else None)
      (cstring_of ''./liba.so'' @ [0]) [] = Inr (Some s, [s])
    \<and> bcs_base s = 7 \<and> bcs_cnt s = 1 \<and> bcs_bc s = le_bytes 0x1234"
proof -
  let ?fopen = "\<lambda>p. if p = cstring_of ''./a.h'' then Some (cstring_of ''#define BC_BASE 7'' @ [0x0A] @ cstring_of ''int f(x);'' @ [0x0A]) else None"
  let ?dlsym = "\<lambda>n. if n = cstring_of ''f'' then Some (0x1234 :: u32) else None"
  let ?dlopen = "\<lambda>p. if p = cstring_of ''./liba.so'' then Some ?dlsym else None"
  let ?p = "([0x66], [0x78, 0x29, 0x3B]) :: proto"
  note ev = cstring_of_def of_char_def lib_file_def head_file_def base_text_def proto_text_def
  have l: "lib_ok [0x2E] [0x61]" by (simp add: lib_ok_def is_space_def)
  have fo: "?fopen ([0x2E] @ 0x2F # head_file [0x61])
      = Some ((base_text [0x37] @ [0x0A]) @ concat (map (\<lambda>p. proto_text p @ [0x0A]) [?p]))"
    by (simp add: ev)
  have dl: "?dlopen ([0x2E] @ 0x2F # lib_file [0x61]) = Some ?dlsym" by (simp add: ev)
  have ok: "\<forall>p\<in>set [?p]. proto_ok p" by (simp add: proto_ok_def is_space_def)
  have sy: "\<forall>p\<in>set [?p]. ?dlsym (fst p) = Some ((\<lambda>_. 0x1234) (fst p))" by (simp add: ev)
  have di: "\<forall>c\<in>set [0x37]. is_digit c" by (simp add: is_digit_def)
  have ex: "\<exists>s. bcloader_load ?fopen ?dlopen ([0x2E] @ 0x2F # lib_file [0x61] @ [0]) [] = Inr (Some s, [] @ [s])
    \<and> bcs_name s = lib_file [0x61] @ [0] \<and> bcs_base s = dec_val [0x37] \<and> bcs_cnt s = int (length [?p])
    \<and> bcs_bc s = concat (map (le_bytes \<circ> (\<lambda>_. 0x1234) \<circ> fst) [?p])"
    by (rule bcloader_load_resolves [where fopen = ?fopen and dlopen = ?dlopen and dlsym = ?dlsym
          and f = "\<lambda>_. 0x1234" and bcs = "[]", OF l fo dl ok sy di]) (simp_all add: dec_val_def)
  have nm: "[0x2E] @ 0x2F # lib_file [0x61] @ [0] = cstring_of ''./liba.so'' @ [0]" by (simp add: ev)
  have "dec_val [0x37] = 7" by (simp add: dec_val_def)
  then show ?thesis using ex [unfolded nm] by auto
qed

section \<open>The libraries of a new session\<close>

text \<open>
  The last loop of \<open>ccb_create_ccb\<close>. It compares and loads the string \<open>dl\<close>, which no
  statement assigns, so \<open>ccb_create_ccb\<close> stops as \<open>Undefined\<close> where the loop meets its first
  library; here \<open>dl\<close> is a parameter, whatever string it happens to point to, to see what the
  rest of the loop does. The state is the list of the loaded sets and the new byte code table.
\<close>

fun find_set :: "u8 list \<Rightarrow> bc_set list \<Rightarrow> bc_set option res" where
  "find_set dl [] = Inr None"
| "find_set dl (s # bcs) =
     bindR (zc_hashtable_str_equal (bcs_name s) dl) (\<lambda>eq. if eq then Inr (Some s) else find_set dl bcs)"

fun ccb_load_dlls ::
  "(u8 list \<Rightarrow> u8 list option) \<Rightarrow> (u8 list \<Rightarrow> (u8 list \<Rightarrow> u32 option) option) \<Rightarrow> bool \<Rightarrow> u32 \<Rightarrow> u8 list
     \<Rightarrow> router_tlv list \<Rightarrow> bc_set list \<Rightarrow> byte_code \<Rightarrow> (bc_set list \<times> byte_code) res"
where
  "ccb_load_dlls fopen dlopen ok v dl [] bcs bc = Inr (bcs, bc)"
| "ccb_load_dlls fopen dlopen ok v dl (node # tlv) bcs bc =
     (if tlv_tag node = TAG_DLL then
        bindR (find_set dl bcs) (\<lambda>found.
        bindR (case found of Some s \<Rightarrow> Inr (Some s, bcs) | None \<Rightarrow> bcloader_load fopen dlopen dl bcs) (\<lambda>(temp, bcs).
        bindR (if temp = None then ccb_add_bc ok v temp bc else Inr bc) (\<lambda>bc.
          ccb_load_dlls fopen dlopen ok v dl tlv bcs bc)))
      else ccb_load_dlls fopen dlopen ok v dl tlv bcs bc)"

text \<open>Loading only adds to the list; adding no set follows a null pointer.\<close>

lemma bcloader_load_grows:
  "bcloader_load fopen dlopen dl bcs = Inr (r, bcs') \<Longrightarrow> bcs' = (case r of None \<Rightarrow> bcs | Some s \<Rightarrow> bcs @ [s])"
  by (auto simp: bcloader_load_def Let_def bindR_def split: sum.splits prod.splits if_splits option.splits)

lemma ccb_add_none [simp]: "ccb_add_bc ok v None bc = Inl Null_Deref"
  by (simp add: ccb_add_bc_def)

lemma find_set_member: "find_set dl bcs = Inr (Some s) \<Longrightarrow> s \<in> set bcs"
  by (induction dl bcs rule: find_set.induct) (auto simp: bindR_def split: sum.splits if_splits)

lemma find_set_none:
  "terminated dl \<Longrightarrow> \<forall>s\<in>set bcs. terminated (bcs_name s) \<and> cstr (bcs_name s) \<noteq> cstr dl \<Longrightarrow> find_set dl bcs = Inr None"
  by (induction bcs) (simp_all add: strkeys.equal_valid)

lemma load_dlls_keep:
  "ccb_load_dlls fopen dlopen ok v dl tlv bcs bc = Inr (bcs', bc') \<Longrightarrow> bc' = bc \<and> (\<exists>new. bcs' = bcs @ new)"
proof (induction tlv arbitrary: bcs bc)
  case (Cons node tlv)
  show ?case
  proof (cases "tlv_tag node = TAG_DLL")
    case True
    then obtain found temp bs where f: "find_set dl bcs = Inr found"
        and l: "(case found of Some s \<Rightarrow> Inr (Some s, bcs) | None \<Rightarrow> bcloader_load fopen dlopen dl bcs) = Inr (temp, bs)"
        and r: "bindR (if temp = None then ccb_add_bc ok v temp bc else Inr bc)
            (\<lambda>bc. ccb_load_dlls fopen dlopen ok v dl tlv bs bc) = Inr (bcs', bc')"
      using Cons.prems by (auto simp: bindR_def split: sum.splits)
    then have "ccb_load_dlls fopen dlopen ok v dl tlv bs bc = Inr (bcs', bc')" by (cases temp) simp_all
    from Cons.IH [OF this] have i: "bc' = bc" "\<exists>new. bcs' = bs @ new" by simp_all
    have "\<exists>n. bs = bcs @ n"
      using l bcloader_load_grows [of fopen dlopen dl bcs temp bs] by (auto split: option.splits)
    then show ?thesis using i by auto
  qed (use Cons in simp)
qed simp

lemma load_dlls_fault:
  "\<exists>n\<in>set tlv. tlv_tag n = TAG_DLL \<Longrightarrow> find_set dl bcs = Inr None \<Longrightarrow>
   bcloader_load fopen dlopen dl bcs = Inr (None, bcs') \<Longrightarrow>
   ccb_load_dlls fopen dlopen ok v dl tlv bcs bc = Inl Null_Deref"
  by (induction tlv) auto

text \<open>The empty name has no library name.\<close>

lemma no_library: "bcloader_load fopen dlopen [0] bcs = Inr (None, bcs)"
proof -
  have f: "get_filename_from_path (Some [0]) (Some (replicate 512 0)) 512 = Inr (0, Some (replicate 512 0))"
    using replicate_Suc [of 511 "0 :: u8"]
    by (simp add: get_filename_from_path_def last_index_of_def strlen_def cstr_def rdn_def wrn_def)
  have h: "bcloader_get_hfile_name (Some (replicate 512 0)) (Some (replicate 512 0)) = Inr (-1, Some (replicate 512 0))"
    by (simp add: bcloader_get_hfile_name_def cstr_def str_at_def fm_strstr_def strstr_outer.simps Let_def)
  show ?thesis by (simp add: bcloader_load_def f h)
qed

lemma load_dlls_cached:
  "find_set dl bcs = Inr (Some s) \<Longrightarrow> ccb_load_dlls fopen dlopen ok v dl tlv bcs bc = Inr (bcs, bc)"
  by (induction tlv) simp_all

lemma load_dlls_none:
  "filter (\<lambda>n. tlv_tag n = TAG_DLL) tlv = [] \<Longrightarrow> ccb_load_dlls fopen dlopen ok v dl tlv bcs bc = Inr (bcs, bc)"
  by (induction tlv) (simp_all split: if_splits)

lemma load_dlls_new:
  "find_set dl bcs = Inr None \<Longrightarrow> bcloader_load fopen dlopen dl bcs = Inr (Some s, bs) \<Longrightarrow>
   filter (\<lambda>n. tlv_tag n = TAG_DLL) tlv = [n] \<Longrightarrow>
   ccb_load_dlls fopen dlopen ok v dl tlv bcs bc = Inr (bcs @ [s], bc)"
proof (induction tlv)
  case (Cons node tlv)
  then show ?case
    using bcloader_load_grows [OF Cons.prems(2)] load_dlls_none [of tlv fopen dlopen ok v dl bs bc]
    by (cases "tlv_tag node = TAG_DLL") simp_all
qed simp

text \<open>
  C16. No library reaches the byte code table of a new session, whatever string the never assigned
  \<open>dl\<close> points to and whatever libraries are loaded: where the loop over the control message ends,
  the table is the one it was given, and the list of libraries has at most grown. A library that is
  loaded already is not added to the table; one that is loaded for the message only joins the list;
  one that cannot be loaded is the one that is added, as a null pointer, and stops the program.
\<close>

theorem dlls_never_added:
  shows "(\<forall>bcs' bc'. ccb_load_dlls fopen dlopen ok v dl tlv bcs bc = Inr (bcs', bc')
        \<longrightarrow> bc' = bc \<and> (\<exists>new. bcs' = bcs @ new))
    \<and> (find_set dl bcs = Inr (Some s) \<longrightarrow> ccb_load_dlls fopen dlopen ok v dl tlv bcs bc = Inr (bcs, bc))
    \<and> (find_set dl bcs = Inr None \<and> bcloader_load fopen dlopen dl bcs = Inr (Some t, bs)
          \<and> filter (\<lambda>n. tlv_tag n = TAG_DLL) tlv = [n]
        \<longrightarrow> ccb_load_dlls fopen dlopen ok v dl tlv bcs bc = Inr (bcs @ [t], bc))
    \<and> (find_set dl bcs = Inr None \<and> bcloader_load fopen dlopen dl bcs = Inr (None, bs)
          \<and> (\<exists>n\<in>set tlv. tlv_tag n = TAG_DLL)
        \<longrightarrow> ccb_load_dlls fopen dlopen ok v dl tlv bcs bc = Inl Null_Deref)"
  by (intro conjI allI impI; (elim conjE)?)
    (auto dest: load_dlls_keep load_dlls_cached intro: load_dlls_new load_dlls_fault)

text \<open>
  A name without a directory is no library: as the first library of a session it ends the program,
  and where a set of that name is loaded the session is left without it.
\<close>

theorem dlls_never_added_witness:
  "ccb_load_dlls (\<lambda>_. None) (\<lambda>_. None) True 7 [0] [\<lparr>tlv_tag = TAG_DLL, tlv_len = 0, tlv_val = []\<rparr>] []
       \<lparr>bc_cnt = 1, bc_bc = le_bytes 7\<rparr> = Inl Null_Deref
   \<and> ccb_load_dlls (\<lambda>_. None) (\<lambda>_. None) True 7 [0] [\<lparr>tlv_tag = TAG_DLL, tlv_len = 0, tlv_val = []\<rparr>]
       [byte_code_set_alloc [0] 256 1] \<lparr>bc_cnt = 1, bc_bc = le_bytes 7\<rparr>
     = Inr ([byte_code_set_alloc [0] 256 1], \<lparr>bc_cnt = 1, bc_bc = le_bytes 7\<rparr>)"
proof -
  let ?s = "byte_code_set_alloc [0] 256 1"
  let ?tlv = "[\<lparr>tlv_tag = TAG_DLL, tlv_len = 0, tlv_val = []\<rparr>]"
  have l: "bcloader_load (\<lambda>_. None) (\<lambda>_. None) [0] [] = Inr (None, [])" by (rule no_library)
  have t: "\<exists>n\<in>set ?tlv. tlv_tag n = TAG_DLL" by simp
  have f: "find_set [0] [?s] = Inr (Some ?s)" by (simp add: byte_code_set_alloc_def cstr_def)
  have e: "find_set [0] [] = Inr None" by simp
  show ?thesis
    using dlls_never_added [of "\<lambda>_. None" "\<lambda>_. None" True 7 "[0]" ?tlv "[]" "\<lparr>bc_cnt = 1, bc_bc = le_bytes 7\<rparr>" ?s ?s "[]"]
      dlls_never_added [of "\<lambda>_. None" "\<lambda>_. None" True 7 "[0]" ?tlv "[?s]" "\<lparr>bc_cnt = 1, bc_bc = le_bytes 7\<rparr>" ?s]
      l t f e by blast
qed

end
