(* ===== verification/Tsm_Vm.thy ===== *)
theory Tsm_Vm
  imports Tsm_Ccb
begin

text \<open>
  \<open>tsm_vm.c\<close>: the interpreter thread. A response packet is stripped of its A1 header and split
  into its A0 fragments; the byte code of the session's program counter runs; when it asks for it
  the queued commands are framed with A0 and A1 tags and handed to the router. The byte code that
  runs is a parameter of the step, and so is the content of the memory the source passes to it as
  the argument array (it passes the address of a pointer).
\<close>

definition TAG_A0 :: u8 where "TAG_A0 = 0xA0"
definition TAG_A1 :: u8 where "TAG_A1 = 0xA1"
definition TAG_A1_HEAD_ROOM :: int where "TAG_A1_HEAD_ROOM = 4"
definition MSG_HEAD_LEN :: int where "MSG_HEAD_LEN = 12"
definition MSG_DATA :: u32 where "MSG_DATA = 2"
definition PKG_REASON_BOOTSTRAP :: u32 where "PKG_REASON_BOOTSTRAP = 1"
definition DEFAULT_RSP_FRAG_NUM :: int where "DEFAULT_RSP_FRAG_NUM = 16"

section \<open>Framing commands\<close>

text \<open>
  In \<open>*(skb_push(pos,1)) = pos->len\<close> the C language does not say whether \<open>pos->len\<close> is read before or
  after the call that increments it: \<open>len_first\<close> says which.
\<close>

definition pad_one :: "bool \<Rightarrow> u8 \<Rightarrow> sk_buff \<Rightarrow> sk_buff res" where
  "pad_one len_first seq pos =
     bindR (skb_push_bytes [seq] pos) (\<lambda>p1.
     bindR (skb_push p1 1) (\<lambda>(a, p2).
     bindR (skb_store p2 a [ucast (if len_first then sk_len p1 else sk_len p2)]) (\<lambda>p3.
     skb_push_bytes [TAG_A0] p3)))"

fun padding_loop :: "bool \<Rightarrow> u8 \<Rightarrow> int \<Rightarrow> sk_buff list \<Rightarrow> (int \<times> sk_buff list) res" where
  "padding_loop len_first seq len [] = Inr (len, [])"
| "padding_loop len_first seq len (pos # q) =
     bindR (pad_one len_first seq pos) (\<lambda>p.
     bindR (padding_loop len_first (seq + 1) (len + uint (sk_len p)) q) (\<lambda>(n, q').
     Inr (n, p # q')))"

definition padding_tagA0 :: "bool \<Rightarrow> sk_buff list \<Rightarrow> (int \<times> sk_buff list) res" where
  "padding_tagA0 len_first apduQ = padding_loop len_first 1 0 apduQ"

text \<open>\<open>out->agent\<close> becomes a copy of the agent of the first packet.\<close>

definition setting_agent_info :: "bool \<Rightarrow> bool \<Rightarrow> sk_buff \<Rightarrow> sk_buff list \<Rightarrow> sk_buff res" where
  "setting_agent_info ok1 ok2 out apduQ =
     (case apduQ of
        [] \<Rightarrow> Inl Null_Deref
      | skb # _ \<Rightarrow>
          bindR (fmBytes_get_length (sk_agent skb)) (\<lambda>len.
          bindR (fmBytes_copy (fmBytes_alloc ok1 ok2 len) 0 (sk_agent skb) 0 len) (\<lambda>(rc, agent).
          Inr (out\<lparr>sk_agent := agent\<rparr>))))"

definition padding_tagA1 :: "sk_buff \<Rightarrow> sk_buff list \<Rightarrow> sk_buff res" where
  "padding_tagA1 out cmdQ =
     bindR (foldR skb_put_bytes (map skb_body cmdQ) (skb_reserve out TAG_A1_HEAD_ROOM)) (\<lambda>out.
     bindR
       (if sk_len out > 255
        then foldR (\<lambda>f out. skb_put_bytes [f out] out)
               [\<lambda>out. ucast (sk_len out AND 0xFF), \<lambda>out. ucast (drop_bit 8 (sk_len out AND 0xFF00)),
                \<lambda>out. 0xFF] out
        else skb_put_bytes [ucast (sk_len out AND 0xFF)] out)
       (\<lambda>out. skb_put_bytes [TAG_A1] out))"

text \<open>
  The write back part of the loop body, up to the packet for the router. \<open>raw\<close> is the
  indeterminate memory of the new packet.
\<close>

definition vm_write_back ::
  "bool \<Rightarrow> sk_buff \<Rightarrow> int \<Rightarrow> u32 \<Rightarrow> sk_buff list \<Rightarrow> (sk_buff \<times> sk_buff list \<times> int) res"
where
  "vm_write_back len_first raw glb session cmdQ =
     bindR (padding_tagA0 len_first cmdQ) (\<lambda>(len, cmdQ).
     case alloc_skb raw glb True True (of_int (len + MSG_HEAD_LEN + TAG_A1_HEAD_ROOM)) of
       (None, glb) \<Rightarrow> Inl Null_Deref
     | (Some out, glb) \<Rightarrow>
         bindR (setting_agent_info True True out cmdQ) (\<lambda>out.
         bindR (padding_tagA1 (skb_reserve (out\<lparr>sk_session := session, sk_msg_type := MSG_DATA\<rparr>)
                  MSG_HEAD_LEN) cmdQ) (\<lambda>out.
         Inr (out, cmdQ, glb))))"

section \<open>Splitting responses\<close>

text \<open>Reading through the pointer \<open>skb_pull\<close> returns: the new start of the data.\<close>

definition skb_load :: "sk_buff \<Rightarrow> int option \<Rightarrow> u8 res" where
  "skb_load skb p = bindR (deref p) (\<lambda>a. rd (sk_block skb) a)"

definition skip_tagAx :: "sk_buff \<Rightarrow> sk_buff res" where
  "skip_tagAx skb =
     (let (_, s1) = skb_pull skb 1; (p, s2) = skb_pull s1 1
      in bindR (skb_load s2 p) (\<lambda>x. Inr (if x = 0xFF then snd (skb_pull s2 2) else s2)))"

text \<open>
  One round of the loop of \<open>tagA0s_to_fmBytesarray\<close>: the fragment (or NULL) and the packet after it.
\<close>

definition next_frag :: "bool \<Rightarrow> bool \<Rightarrow> sk_buff \<Rightarrow> (fmBytes option \<times> sk_buff) res" where
  "next_frag ok1 ok2 skb =
     (let (_, s1) = skb_pull skb 1; (p, s2) = skb_pull s1 1
      in bindR (skb_load s2 p) (\<lambda>len.
         let (_, s3) = skb_pull s2 1;
             frag = fmBytes_alloc ok1 ok2 (uint len - 1);
             (d, s4) = skb_pull s3 (ucast len - 1)
         in bindR (fmBytes_copy_from frag 0 (map_option (\<lambda>_. sk_block s4) d)
                     (case d of None \<Rightarrow> 0 | Some a \<Rightarrow> a) (uint len - 1)) (\<lambda>(rc, frag).
            Inr (frag, s4))))"

lemma skb_pull_len: "sk_len (snd (skb_pull skb n)) \<le> sk_len skb"
  by (auto simp: skb_pull_def skb_pull_raw_def not_less word_sub_le)

lemma skb_pull_1_less: "0 < sk_len skb \<Longrightarrow> sk_len (snd (skb_pull skb 1)) < sk_len skb"
  by (auto simp: skb_pull_def skb_pull_raw_def not_less word_le_nat_alt word_less_nat_alt
      unat_sub_if' unat_eq_zero)

lemma next_frag_less:
  assumes "next_frag ok1 ok2 skb = Inr (frag, skb')" and "0 < sk_len skb"
  shows "sk_len skb' < sk_len skb"
proof -
  define s1 where "s1 = snd (skb_pull skb 1)"
  define s2 where "s2 = snd (skb_pull s1 1)"
  define s3 where "s3 = snd (skb_pull s2 1)"
  have "\<exists>n. skb' = snd (skb_pull s3 n)"
    using assms(1)
    by (auto simp: next_frag_def Let_def split_beta s1_def s2_def s3_def bindR_Inr_iff)
  then obtain n where "skb' = snd (skb_pull s3 n)" ..
  then have "sk_len skb' \<le> sk_len s1"
    using skb_pull_len [of s3 n] skb_pull_len [of s2 1] skb_pull_len [of s1 1]
    by (simp add: s2_def s3_def)
  moreover have "sk_len s1 < sk_len skb" unfolding s1_def using assms(2) by (rule skb_pull_1_less)
  ultimately show ?thesis by simp
qed

text \<open>
  From the sixteenth fragment on the array is full, and the source calls
  \<open>fmBytes_array_resize(32)\<close>: the number is taken for the pointer to the old array.
\<close>

function frags_loop ::
  "bool \<Rightarrow> bool \<Rightarrow> sk_buff \<Rightarrow> nat \<Rightarrow> fmBytes_array \<Rightarrow> (fmBytes_array \<times> sk_buff) res"
where
  "frags_loop ok1 ok2 skb i fba =
     (if 0 < sk_len skb
      then bindR (next_frag ok1 ok2 skb) (\<lambda>(frag, skb').
           if fa_size fba - fa_cnt fba \<le> 1 then Inl Wild_Pointer
           else bindR (wr (fa_array fba) (int i) frag) (\<lambda>arr.
                frags_loop ok1 ok2 skb' (i + 1) (fba\<lparr>fa_array := arr, fa_cnt := int i + 1\<rparr>)))
      else Inr (fba, skb))"
  by pat_completeness auto
termination
  by (relation "measure (\<lambda>(ok1, ok2, skb, i, fba). unat (sk_len skb))")
    (auto dest: next_frag_less simp: word_less_nat_alt [symmetric])

declare frags_loop.simps [simp del]

definition tagA0s_to_fmBytesarray ::
  "bool \<Rightarrow> bool \<Rightarrow> bool \<Rightarrow> bool \<Rightarrow> sk_buff \<Rightarrow> (fmBytes_array option \<times> sk_buff) res"
where
  "tagA0s_to_fmBytesarray ok1 ok2 ok3 ok4 skb =
     (case fmBytes_array_alloc ok1 ok2 DEFAULT_RSP_FRAG_NUM of
        None \<Rightarrow> Inr (None, skb)
      | Some fba \<Rightarrow> bindR (frags_loop ok3 ok4 skb 0 fba) (\<lambda>(fba, skb). Inr (Some fba, skb)))"

section \<open>The interpreter loop\<close>

text \<open>The first control block of the session; the list is locked during the search.\<close>

fun fetch_ccb :: "tsm_ccb list \<Rightarrow> u32 \<Rightarrow> nat option" where
  "fetch_ccb [] session = None"
| "fetch_ccb (c # cs) session =
     (if cc_session c = session then Some 0 else map_option Suc (fetch_ccb cs session))"

text \<open>
  The shared state of the interpreter and the router: control blocks, packet queues, the
  counters of the two semaphores, and the index of the next packet. \<open>vm_fba\<close> is the local variable
  of the thread, whatever it holds at the start.
\<close>

record vm_state =
  vm_ccbs :: "tsm_ccb list"
  vm_rpkg :: "sk_buff list"
  vm_wpkg :: "sk_buff list"
  vm_sem_vm :: nat
  vm_sem_router_w :: nat
  vm_glb :: int
  vm_fba :: "fmBytes_array option"

text \<open>
  \<open>run\<close> is the byte code at an address, \<open>view\<close> what the memory at the address of the parameter
  pointer looks like when it is read as an array of buffers.
\<close>

type_synonym bytecode_run =
  "u32 \<Rightarrow> tsm_ccb \<Rightarrow> fmBytes_array option \<Rightarrow> fmBytes_array \<Rightarrow> tsm_ccb res"

definition run_bytecode ::
  "bytecode_run \<Rightarrow> (code_entry \<Rightarrow> fmBytes_array) \<Rightarrow> tsm_ccb \<Rightarrow> fmBytes_array option \<Rightarrow> tsm_ccb res"
where
  "run_bytecode run view c fba =
     bindR (ccb_get_script (Some c)) (\<lambda>s. bindR (deref s) (\<lambda>se.
     bindR (ccb_get_PC (Some c)) (\<lambda>pc. bindR (rd (se_ces se) pc) (\<lambda>e.
     bindR (ccb_get_bytecode (Some c)) (\<lambda>b. bindR (deref b) (\<lambda>bc. bindR (deref e) (\<lambda>ce.
     bindR (bc_slot (bc_bc bc) (ce_code ce)) (\<lambda>f.
       if f = 0 then Inl Null_Deref else run f c fba (view ce)))))))))"

definition tsm_vm_body ::
  "bytecode_run \<Rightarrow> (code_entry \<Rightarrow> fmBytes_array) \<Rightarrow> bool \<Rightarrow> sk_buff \<Rightarrow> vm_state \<Rightarrow> vm_state res"
where
  "tsm_vm_body run view len_first raw st =
     (case vm_rpkg st of
        [] \<Rightarrow> Inl Null_Deref
      | skb # rpkg \<Rightarrow>
          bindR (skip_tagAx skb) (\<lambda>skb.
          bindR (if sk_isNew skb
                 then bindR (tagA0s_to_fmBytesarray True True True True skb) (\<lambda>(fba, skb).
                        Inr (fba, skb\<lparr>sk_isNew := False\<rparr>))
                 else Inr (vm_fba st, skb)) (\<lambda>(fba, skb).
          case fetch_ccb (vm_ccbs st) (sk_session skb) of
            None \<Rightarrow> Inl Null_Deref
          | Some i \<Rightarrow>
              bindR (run_bytecode run view (vm_ccbs st ! i) fba) (\<lambda>c.
              bindR (if cc_write_back c \<noteq> 0
                     then bindR (ccb_set_write_back (Some c) 0) (\<lambda>c.
                          bindR (vm_write_back len_first raw (vm_glb st) (cc_session c) (cc_cmdQ c))
                            (\<lambda>(out, cmdQ, glb). Inr (c\<lparr>cc_cmdQ := cmdQ\<rparr>, [out], glb)))
                     else Inr (c, [], vm_glb st)) (\<lambda>(c, outs, glb).
              let st = st\<lparr>vm_rpkg := rpkg, vm_wpkg := vm_wpkg st @ outs, vm_fba := fba, vm_glb := glb,
                          vm_sem_router_w := vm_sem_router_w st + length outs\<rparr>
              in if cc_bootstrap c \<noteq> 0
                 then if outs \<noteq> [] then Inl Wild_Pointer
                 else bindR (ccb_set_bootstrap (Some c) 0) (\<lambda>c.
                      Inr (st\<lparr>vm_ccbs := (vm_ccbs st)[i := c],
                              vm_rpkg := vm_rpkg st @ [skb\<lparr>sk_reason := PKG_REASON_BOOTSTRAP\<rparr>],
                              vm_sem_vm := vm_sem_vm st + 1\<rparr>))
                 else Inr (st\<lparr>vm_ccbs := (vm_ccbs st)[i := c]\<rparr>))))))"

text \<open>
  The thread and its environment: the router queues a packet and posts the semaphore (in that
  order, seen here as one event); the thread waits for the semaphore and runs the body. There is
  one interpreter thread, and a round of it is one step: \<open>tsm_vm.h\<close> has room for a pool of them, but
  the code that would start it is disabled in \<open>tsm_main.c\<close>.
\<close>

inductive vm_step ::
  "bytecode_run \<Rightarrow> (code_entry \<Rightarrow> fmBytes_array) \<Rightarrow> bool \<Rightarrow> sk_buff \<Rightarrow> vm_state \<Rightarrow> vm_state \<Rightarrow> bool"
  for run view len_first raw
where
  receive: "vm_step run view len_first raw st
     (st\<lparr>vm_rpkg := vm_rpkg st @ [skb], vm_sem_vm := vm_sem_vm st + 1\<rparr>)"
| execute: "0 < vm_sem_vm st \<Longrightarrow>
     tsm_vm_body run view len_first raw (st\<lparr>vm_sem_vm := vm_sem_vm st - 1\<rparr>) = Inr st' \<Longrightarrow>
     vm_step run view len_first raw st st'"

section \<open>Lemmas: framing\<close>

lemma skb_body_first:
  assumes "skb_ok s" and "skb_body s = x # r"
  shows "rd (sk_block s) (sk_data s) = Inr x"
proof -
  have "int (length (skb_body s)) = uint (sk_len s)" using skb_okD(2) [OF assms(1)] by simp
  then have "0 < uint (sk_len s)" using assms(2) by simp
  then have l: "0 < nat (sk_tail s - sk_data s)" "nat (sk_data s) < length (sk_block s)"
    using assms(1) by (auto simp: skb_ok_def)
  then have "sk_block s ! nat (sk_data s) = x"
    using assms(2) by (metis Cons_nth_drop_Suc list.inject skb_body_def take_Suc_Cons gr0_conv_Suc)
  then show ?thesis using l assms(1) by (simp add: rd_def skb_ok_def)
qed

lemma skb_len_body: "skb_ok s \<Longrightarrow> sk_len s = of_nat (length (skb_body s))"
  by (simp add: skb_okD(2))

lemma push_store:
  "bindR (skb_push p1 1) (\<lambda>(a, p2).
     bindR (skb_store p2 a [ucast (if lf then sk_len p1 else sk_len p2)]) f)
   = bindR (skb_push_bytes [ucast (sk_len p1 + (if lf then 0 else 1))] p1) f"
  by (simp add: skb_push_bytes_def skb_push_def Let_def bindR_assoc)

lemma pad_one_eq:
  "pad_one lf seq pos =
     bindR (skb_push_bytes [seq] pos) (\<lambda>p1.
     bindR (skb_push_bytes [ucast (sk_len p1 + (if lf then 0 else 1))] p1) (skb_push_bytes [TAG_A0]))"
  by (simp only: pad_one_def push_store)

lemma ucast_of_nat_u8: "(ucast (of_nat n :: u32) :: u8) = of_nat n"
  by (rule word_unat_eq_iff [THEN iffD2]) (simp add: unsigned_ucast_eq unsigned_of_nat)

lemma pad_one_ok:
  assumes "skb_ok p" and "3 \<le> skb_front p"
  shows "\<exists>p'. pad_one lf seq p = Inr p' \<and> skb_ok p'
     \<and> skb_body p' = TAG_A0 # of_nat (length (skb_body p) + (if lf then 1 else 2)) # seq # skb_body p
     \<and> sk_agent p' = sk_agent p"
proof -
  have ag: "skb_push_bytes xs a = Inr b \<Longrightarrow> sk_agent b = sk_agent a" for xs a b
    by (auto simp: skb_push_bytes_def skb_push_def skb_store_def bindR_Inr_iff Let_def split: if_splits)
  obtain p1 where 1: "skb_push_bytes [seq] p = Inr p1" "skb_ok p1" "skb_body p1 = [seq] @ skb_body p"
      "skb_front p1 = skb_front p - 1"
    using skb.prepend_ok [of p "[seq]"] assms by auto
  have front: "1 \<le> skb_front p1" "1 \<le> skb_front p1 - 1" using 1(4) assms(2) by linarith+
  let ?n = "ucast (sk_len p1 + (if lf then 0 else 1)) :: u8"
  obtain p2 where 2: "skb_push_bytes [?n] p1 = Inr p2" "skb_ok p2" "skb_body p2 = [?n] @ skb_body p1"
      "skb_front p2 = skb_front p1 - 1"
    using skb.prepend_ok [of p1 "[?n]", OF 1(2)] front(1) by auto
  obtain p3 where 3: "skb_push_bytes [TAG_A0] p2 = Inr p3" "skb_ok p3"
      "skb_body p3 = [TAG_A0] @ skb_body p2"
    using skb.prepend_ok [of p2 "[TAG_A0]", OF 2(2)] 2(4) front(2) by auto
  have "?n = of_nat (length (skb_body p) + (if lf then 1 else 2))"
  proof -
    have "sk_len p1 + (if lf then 0 else 1) = of_nat (length (skb_body p) + (if lf then 1 else 2))"
      using skb_len_body [OF 1(2)] 1(3) by simp
    then show ?thesis by (simp only: ucast_of_nat_u8)
  qed
  then show ?thesis using 1 2 3 ag [OF 1(1)] ag [OF 2(1)] ag [OF 3(1)] by (simp add: pad_one_eq)
qed

text \<open>The frame of the \<open>i\<close>-th command, as a reader of the tags expects it (\<open>lf\<close>) or off by one.\<close>

definition A0_frame :: "bool \<Rightarrow> u8 \<Rightarrow> u8 list \<Rightarrow> u8 list" where
  "A0_frame lf seq xs = TAG_A0 # of_nat (length xs + (if lf then 1 else 2)) # seq # xs"

fun A0_frames :: "bool \<Rightarrow> u8 \<Rightarrow> u8 list list \<Rightarrow> u8 list list" where
  "A0_frames lf seq [] = []"
| "A0_frames lf seq (xs # xss) = A0_frame lf seq xs # A0_frames lf (seq + 1) xss"

lemma padding_loop_ok:
  assumes "\<forall>p\<in>set q. skb_ok p \<and> 3 \<le> skb_front p"
  shows "\<exists>q'. padding_loop lf seq len q = Inr (len + int (length (concat (map skb_body q'))), q')
     \<and> map skb_body q' = A0_frames lf seq (map skb_body q) \<and> (\<forall>p\<in>set q'. skb_ok p)
     \<and> map sk_agent q' = map sk_agent q"
  using assms
proof (induction q arbitrary: seq len)
  case (Cons p q)
  obtain p' where p': "pad_one lf seq p = Inr p'" "skb_ok p'" "skb_body p' = A0_frame lf seq (skb_body p)"
      "sk_agent p' = sk_agent p"
    using pad_one_ok [of p lf seq] Cons.prems by (auto simp: A0_frame_def)
  have u: "uint (sk_len p') = int (length (skb_body p'))"
    using skb_okD(2) [OF p'(2)] by simp
  obtain q' where q': "padding_loop lf (seq + 1) (len + uint (sk_len p')) q
        = Inr (len + uint (sk_len p') + int (length (concat (map skb_body q'))), q')"
      "map skb_body q' = A0_frames lf (seq + 1) (map skb_body q)" "\<forall>p\<in>set q'. skb_ok p"
      "map sk_agent q' = map sk_agent q"
    using Cons.IH [of "seq + 1" "len + uint (sk_len p')"] Cons.prems by auto
  show ?case
    using p' q' u by (intro exI [of _ "p' # q'"]) simp
qed simp

lemma padding_tagA1_full:
  assumes "skb_ok out" and "skb_body out = []"
    and "skb_rear out = length (concat (map skb_body q)) + 4"
  shows "padding_tagA1 out q = Inl Hang"
proof -
  let ?o = "skb_reserve out TAG_A1_HEAD_ROOM"
  have o: "skb_ok ?o" "skb_rear ?o = length (concat (map skb_body q))"
    using skb_reserve_ok [OF assms(1,2), of 4] assms(3) by (simp_all add: TAG_A1_HEAD_ROOM_def)
  obtain o' where o': "foldR skb_put_bytes (map skb_body q) ?o = Inr o'" "skb_ok o'" "skb_rear o' = 0"
    using skb.append_all [OF o(1), of "map skb_body q"] o(2) by (auto simp: length_concat comp_def)
  have "skb_put_bytes [x] o' = Inl Hang" for x
    using skb.append_full [OF o'(2), of "[x]"] o'(3) by simp
  then show ?thesis using o'(1) by (simp add: padding_tagA1_def)
qed

lemma skb_meta [simp]:
  "skb_ok (s\<lparr>sk_agent := a\<rparr>) = skb_ok s" "skb_ok (s\<lparr>sk_session := n\<rparr>) = skb_ok s"
  "skb_ok (s\<lparr>sk_msg_type := n\<rparr>) = skb_ok s" "skb_body (s\<lparr>sk_agent := a\<rparr>) = skb_body s"
  "skb_body (s\<lparr>sk_session := n\<rparr>) = skb_body s" "skb_body (s\<lparr>sk_msg_type := n\<rparr>) = skb_body s"
  "skb_rear (s\<lparr>sk_agent := a\<rparr>) = skb_rear s" "skb_rear (s\<lparr>sk_session := n\<rparr>) = skb_rear s"
  "skb_rear (s\<lparr>sk_msg_type := n\<rparr>) = skb_rear s"
  by (simp_all add: skb_ok_def skb_body_def skb_rear_def)

section \<open>Lemmas: splitting\<close>

lemma pull_cons:
  assumes "skb_ok s" and "skb_body s = x # r"
  shows "\<exists>s'. skb_pull s 1 = (Some (sk_data s'), s') \<and> skb_ok s' \<and> skb_body s' = r
     \<and> sk_block s' = sk_block s"
  using skb_pull_ok [of s 1] assms by auto

lemma skb_body_slice:
  assumes "skb_ok s" and "n \<le> length (skb_body s)"
  shows "rdn (sk_block s) (sk_data s) (int n) = Inr (take n (skb_body s))"
proof -
  have "n \<le> nat (sk_tail s - sk_data s)" "nat (sk_tail s - sk_data s) + nat (sk_data s) \<le> length (sk_block s)"
    using assms by (auto simp: skb_body_def skb_ok_def)
  then show ?thesis
    using assms(1) by (auto simp: rdn_def skb_body_def skb_ok_def take_drop)
qed

lemma copy_from_fresh:
  assumes "rdn b off (int n) = Inr xs" and "0 \<le> off"
  shows "fmBytes_copy_from (fmBytes_alloc True True (int n)) 0 (Some b) off (int n)
     = Inr (0, Some (fb_of xs))"
proof -
  have "length xs = n" using rdn_Inr_length [OF assms(1)] by simp
  then show ?thesis
    using assms(1) by (simp add: fmBytes_copy_from_def fmBytes_alloc_def wrn_def fb_of_def)
qed

lemma frags_cnt:
  "frags_loop ok1 ok2 skb i fba = Inr (fba', skb') \<Longrightarrow> fa_cnt fba = int i \<Longrightarrow> fa_size fba = 16 \<Longrightarrow>
   int i \<le> 15 \<Longrightarrow> 0 \<le> fa_cnt fba' \<and> fa_cnt fba' \<le> 15 \<and> sk_len skb' = 0"
proof (induction ok1 ok2 skb i fba rule: frags_loop.induct)
  case (1 ok1 ok2 skb i fba)
  show ?case
  proof (cases "0 < sk_len skb")
    case True
    then obtain frag s arr where s: "next_frag ok1 ok2 skb = Inr (frag, s)"
        "wr (fa_array fba) (int i) frag = Inr arr" "\<not> fa_size fba - fa_cnt fba \<le> 1"
        "frags_loop ok1 ok2 s (i + 1) (fba\<lparr>fa_array := arr, fa_cnt := int i + 1\<rparr>) = Inr (fba', skb')"
      using "1.prems"(1)
      by (subst (asm) frags_loop.simps) (auto simp: bindR_Inr_iff split: if_splits)
    show ?thesis
      by (rule "1.IH" [OF True s(1) refl s(3,2,4)]) (use "1.prems" s(3) in auto)
  next
    case False
    then show ?thesis using "1.prems" by (subst (asm) frags_loop.simps) (auto simp: word_gt_0)
  qed
qed

lemma skip_tagAx_ok:
  assumes "skb_ok s" and "skb_body s = t # n # x # r"
  shows "\<exists>s'. skip_tagAx s = Inr s' \<and> skb_ok s'
     \<and> skb_body s' = (if x = 0xFF \<and> r \<noteq> [] then tl r else x # r)"
proof -
  obtain s1 where 1: "skb_pull s 1 = (Some (sk_data s1), s1)" "skb_ok s1" "skb_body s1 = n # x # r"
    using pull_cons [OF assms] by auto
  obtain s2 where 2: "skb_pull s1 1 = (Some (sk_data s2), s2)" "skb_ok s2" "skb_body s2 = x # r"
    using pull_cons [OF 1(2,3)] by auto
  have x: "skb_load s2 (Some (sk_data s2)) = Inr x"
    using skb_body_first [OF 2(2,3)] by (simp add: skb_load_def)
  show ?thesis
  proof (cases "r = []")
    case True
    then have "skb_pull s2 2 = (None, s2)" using skb_pull_short [of s2 2] 2 by simp
    then show ?thesis using 1 2 x True by (simp add: skip_tagAx_def)
  next
    case False
    then obtain s3 where "snd (skb_pull s2 2) = s3" "skb_ok s3" "skb_body s3 = drop 2 (x # r)"
      using skb_pull_ok [of s2 2] 2 by (cases r) auto
    then show ?thesis using 1 2 x False by (cases r) (auto simp: skip_tagAx_def)
  qed
qed

lemma next_frag_ok:
  assumes "skb_ok s" and "skb_body s = t # n # q # r" and "0 < q" and "2 * (unat q - 1) \<le> length r"
  shows "\<exists>s'. next_frag True True s = Inr (Some (fb_of (take (unat q - 1) (drop (unat q - 1) r))), s')
     \<and> skb_ok s' \<and> skb_body s' = drop (unat q - 1) r"
proof -
  define k where "k = unat q - 1"
  have q0: "unat q \<noteq> 0" using assms(3) by (simp add: word_gt_0 unat_eq_zero)
  have k: "uint q - 1 = int k" using q0 by (simp add: k_def of_nat_diff)
  have "(of_nat (unat q) :: u32) = ucast q" by simp
  then have k': "(ucast q - 1 :: u32) = of_nat k" using q0 by (simp add: k_def of_nat_diff)
  have len: "2 * k \<le> length r" using assms(4) by (simp add: k_def)
  obtain s1 where 1: "skb_pull s 1 = (Some (sk_data s1), s1)" "skb_ok s1" "skb_body s1 = n # q # r"
    using pull_cons [OF assms(1,2)] by auto
  obtain s2 where 2: "skb_pull s1 1 = (Some (sk_data s2), s2)" "skb_ok s2" "skb_body s2 = q # r"
    using pull_cons [OF 1(2,3)] by auto
  obtain s3 where 3: "skb_pull s2 1 = (Some (sk_data s3), s3)" "skb_ok s3" "skb_body s3 = r"
    using pull_cons [OF 2(2,3)] by auto
  obtain s4 where 4: "skb_pull s3 (of_nat k) = (Some (sk_data s4), s4)" "skb_ok s4" "skb_body s4 = drop k r"
    using skb_pull_ok [of s3 k] 3 len by auto
  have q: "skb_load s2 (Some (sk_data s2)) = Inr q"
    using skb_body_first [OF 2(2,3)] by (simp add: skb_load_def)
  have "rdn (sk_block s4) (sk_data s4) (int k) = Inr (take k (drop k r))"
    using skb_body_slice [OF 4(2), of k] 4(3) len by simp
  then have "fmBytes_copy_from (fmBytes_alloc True True (int k)) 0 (Some (sk_block s4)) (sk_data s4) (int k)
      = Inr (0, Some (fb_of (take k (drop k r))))"
    using 4(2) by (intro copy_from_fresh) (simp_all add: skb_ok_def)
  then show ?thesis
    unfolding k_def [symmetric] using 1(1) 2(1) 3(1) 4 q k k' by (simp add: next_frag_def)
qed

section \<open>Properties\<close>

text \<open>
  C19. \<open>padding_tagA0\<close> puts the tag, a length byte and a running number (from 1) before every
  command, and returns the total length. The length byte counts the number byte and the command
  when \<open>pos->len\<close> is read before the push, and is one too large when it is read after it.
\<close>

theorem padding_tagA0_frames:
  assumes "\<forall>p\<in>set q. skb_ok p \<and> 3 \<le> skb_front p"
  shows "\<exists>q'. padding_tagA0 lf q = Inr (int (length (concat (map skb_body q'))), q')
     \<and> map skb_body q' = A0_frames lf 1 (map skb_body q)"
  using padding_loop_ok [OF assms, of lf 1 0] by (auto simp: padding_tagA0_def)

text \<open>A packet with three bytes of headroom and one byte of data, for the witnesses.\<close>

definition demo_skb :: sk_buff where
  "demo_skb = raw_skb\<lparr>sk_agent := Some (fb_of [65]), sk_len := 1, sk_data_len := 4,
     sk_block := [0, 0, 0, 7], sk_data := 3, sk_tail := 4, sk_end := 4, sk_head := 0\<rparr>"

lemma demo_skb: "skb_ok demo_skb" "skb_front demo_skb = 3" "skb_body demo_skb = [7]"
  "sk_agent demo_skb = Some (fb_of [65])"
  by (simp_all add: demo_skb_def skb_ok_def skb_front_def skb_body_def)

theorem padding_tagA0_frames_witness:
  "\<exists>q'. padding_tagA0 True [demo_skb, demo_skb] = Inr (8, q')
     \<and> map skb_body q' = [[0xA0, 2, 1, 7], [0xA0, 2, 2, 7]]"
proof -
  obtain q' where q': "padding_tagA0 True [demo_skb, demo_skb] = Inr (int (length (concat (map skb_body q'))), q')"
      "map skb_body q' = A0_frames True 1 (map skb_body [demo_skb, demo_skb])"
    using padding_tagA0_frames [of "[demo_skb, demo_skb]" True] demo_skb by auto
  then have "map skb_body q' = [[0xA0, 2, 1, 7], [0xA0, 2, 2, 7]]"
    by (simp add: demo_skb A0_frame_def TAG_A0_def)
  then show ?thesis using q'(1) by simp
qed

text \<open>
  C20. Writing back never ends: whatever commands are queued (with room for their headers and a
  named agent), the packet for the router is allocated four bytes too short for its trailing
  length and tag, and \<open>skb_put\<close> loops for ever.
\<close>

theorem vm_write_back_hangs:
  assumes "\<forall>p\<in>set q. skb_ok p \<and> 3 \<le> skb_front p" and "q = p0 # ps"
    and "sk_agent p0 = Some a" and "fb_ok a"
    and "int (length (concat (map skb_body q))) + 3 * int (length q) + 16 < 2 ^ 32"
  shows "vm_write_back lf raw glb session q = Inl Hang"
proof -
  obtain q' where q': "padding_tagA0 lf q = Inr (int (length (concat (map skb_body q'))), q')"
      "map skb_body q' = A0_frames lf 1 (map skb_body q)" "map sk_agent q' = map sk_agent q"
    using padding_loop_ok [OF assms(1), of lf 1 0] by (auto simp: padding_tagA0_def)
  let ?len = "length (concat (map skb_body q'))"
  have fr: "length (concat (A0_frames l s xss)) = length (concat xss) + 3 * length xss" for l s xss
    by (induction xss arbitrary: s) (auto simp: A0_frame_def)
  have small: "?len + 16 < 2 ^ 32" using assms(5) by (simp add: q'(2) fr)
  have n: "(of_int (int ?len + MSG_HEAD_LEN + TAG_A1_HEAD_ROOM) :: u32) = of_nat (?len + 16)"
    by (simp add: MSG_HEAD_LEN_def TAG_A1_HEAD_ROOM_def)
  have u: "unat (of_nat (?len + 16) :: u32) = ?len + 16"
    using uint_of_nat_u32 [OF small] by (metis nat_int unat_eq_nat_uint)
  then have pos: "0 < (of_nat (?len + 16) :: u32)" by (metis add_is_0 unat_0 word_gt_0 zero_neq_numeral)
  obtain out g where out: "alloc_skb raw glb True True (of_nat (?len + 16)) = (Some out, g)"
    by (simp add: alloc_skb_def)
  note ok = alloc_skb_ok [OF pos out]
  obtain p0' ps' where q0: "q' = p0' # ps'" "sk_agent p0' = Some a"
    using q'(3) assms(2,3) by (cases q') auto
  have "\<exists>out'. setting_agent_info True True out q' = Inr (out\<lparr>sk_agent := out'\<rparr>)"
  proof -
    obtain b where b: "fb_buf a = Some b" "fb_size a = int (length b)" "0 \<le> fb_leng a" "fb_leng a \<le> fb_size a"
      using assms(4) by (auto simp: fb_ok_def split: option.splits)
    then show ?thesis
      by (simp add: setting_agent_info_def q0 fmBytes_get_length_def fmBytes_copy_def fmBytes_alloc_def
          rdn_def wrn_def) (rule exI, rule refl)
  qed
  then obtain ag where ag: "setting_agent_info True True out q' = Inr (out\<lparr>sk_agent := ag\<rparr>)" ..
  let ?o = "out\<lparr>sk_agent := ag, sk_session := session, sk_msg_type := MSG_DATA\<rparr>"
  have o: "skb_ok ?o" "skb_body ?o = []" "skb_rear ?o = ?len + 16"
    using ok u by simp_all
  have "padding_tagA1 (skb_reserve ?o MSG_HEAD_LEN) q' = Inl Hang"
    using skb_reserve_ok [OF o(1,2), of 12] o(3)
    by (intro padding_tagA1_full) (simp_all add: MSG_HEAD_LEN_def)
  then show ?thesis
    by (simp only: vm_write_back_def q'(1) bindR_simps prod.case n out option.case ag)
qed

theorem vm_write_back_hangs_witness:
  "vm_write_back True raw_skb 0 1 [demo_skb] = Inl Hang"
  by (rule vm_write_back_hangs [where a = "fb_of [65]"]) (auto simp: demo_skb)

text \<open>
  \<open>skip_tagAx\<close> always removes two bytes and decides by the byte after them: a one byte
  length is skipped as intended unless the payload starts with FF, and of a three byte length
  the two value bytes stay in front of the payload.
\<close>

theorem skip_tagAx_skips:
  assumes "skb_ok s" and "skb_body s = TAG_A1 # n # x # r" and "x \<noteq> 0xFF"
  shows "\<exists>s'. skip_tagAx s = Inr s' \<and> skb_ok s' \<and> skb_body s' = x # r"
  using skip_tagAx_ok [OF assms(1,2)] assms(3) by simp

definition demo_rsp :: "u8 list \<Rightarrow> sk_buff" where
  "demo_rsp xs = raw_skb\<lparr>sk_len := of_nat (length xs), sk_data_len := of_nat (length xs), sk_block := xs,
     sk_data := 0, sk_tail := int (length xs), sk_end := int (length xs), sk_head := 0\<rparr>"

lemma demo_rsp: "xs \<noteq> [] \<Longrightarrow> length xs < 2 ^ 32 \<Longrightarrow> skb_ok (demo_rsp xs)" "skb_body (demo_rsp xs) = xs"
  by (auto simp: demo_rsp_def skb_ok_def skb_body_def uint_of_nat_u32)

theorem skip_tagAx_skips_example:
  "\<exists>s'. skip_tagAx (demo_rsp [0xA1, 0xFF, 1, 2, 9]) = Inr s' \<and> skb_body s' = [1, 2, 9]"
  using skip_tagAx_skips [of "demo_rsp [0xA1, 0xFF, 1, 2, 9]" "0xFF" 1 "[2, 9]"]
    demo_rsp [of "[0xA1, 0xFF, 1, 2, 9]"]
  by (auto simp: TAG_A1_def)

text \<open>
  The splitter takes the running number of a fragment for its length and skips that many
  bytes before it copies: from a well-formed fragment with number \<open>q\<close> it extracts the \<open>q - 1\<close>
  bytes that start \<open>q - 1\<close> bytes into the data, so an empty buffer from the first one.
\<close>

theorem next_frag_reads_number:
  assumes "skb_ok s" and "skb_body s = A0_frame True q xs" and "0 < q" and "2 * (unat q - 1) \<le> length xs"
  shows "\<exists>s'. next_frag True True s = Inr (Some (fb_of (take (unat q - 1) (drop (unat q - 1) xs))), s')
     \<and> skb_body s' = drop (unat q - 1) xs"
  using next_frag_ok [OF assms(1) _ assms(3,4)] assms(2) by (auto simp: A0_frame_def)

theorem next_frag_reads_number_example:
  "\<exists>s'. next_frag True True (demo_rsp [0xA0, 4, 1, 0x6F, 0x90, 0x00]) = Inr (Some (fb_of []), s')
     \<and> skb_body s' = [0x6F, 0x90, 0x00]"
  using next_frag_reads_number [of "demo_rsp [0xA0, 4, 1, 0x6F, 0x90, 0x00]" 1 "[0x6F, 0x90, 0x00]"]
    demo_rsp [of "[0xA0, 4, 1, 0x6F, 0x90, 0x00]"]
  by (auto simp: A0_frame_def TAG_A0_def)

text \<open>
  C25. Splitting ends for every packet; when it returns an array, the packet is used up and the
  array holds at most 15 fragments (the sixteenth makes it follow the number 32 as a pointer).
\<close>

theorem tagA0s_at_most_15:
  assumes "tagA0s_to_fmBytesarray True True ok3 ok4 s = Inr (Some fba, s')"
  shows "0 \<le> fa_cnt fba \<and> fa_cnt fba \<le> 15 \<and> sk_len s' = 0"
proof -
  have "fmBytes_array_alloc True True 16 = Some \<lparr>fa_size = 16, fa_cnt = 0, fa_array = replicate 16 None\<rparr>"
    by (simp add: fmBytes_array_alloc_def)
  then have "frags_loop ok3 ok4 s 0 \<lparr>fa_size = 16, fa_cnt = 0, fa_array = replicate 16 None\<rparr> = Inr (fba, s')"
    using assms by (auto simp: tagA0s_to_fmBytesarray_def DEFAULT_RSP_FRAG_NUM_def bindR_Inr_iff)
  from frags_cnt [OF this] show ?thesis by simp
qed

theorem tagA0s_at_most_15_witness:
  "\<exists>fba s'. tagA0s_to_fmBytesarray True True True True (demo_rsp [0xA0, 2, 1]) = Inr (Some fba, s')
     \<and> fa_cnt fba \<le> 15 \<and> sk_len s' = 0"
proof -
  have "\<exists>fba s'. tagA0s_to_fmBytesarray True True True True (demo_rsp [0xA0, 2, 1]) = Inr (Some fba, s')"
    by (simp add: tagA0s_to_fmBytesarray_def DEFAULT_RSP_FRAG_NUM_def fmBytes_array_alloc_def demo_rsp_def
        frags_loop.simps next_frag_def skb_pull_def skb_pull_raw_def skb_load_def rd_def wr_def
        fmBytes_alloc_def fmBytes_copy_from_def rdn_def wrn_def)
  then obtain fba s' where
    "tagA0s_to_fmBytesarray True True True True (demo_rsp [0xA0, 2, 1]) = Inr (Some fba, s')" by blast
  with tagA0s_at_most_15 [OF this] show ?thesis by blast
qed

section \<open>The interpreter and its semaphore\<close>

inductive_cases vm_stepE: "vm_step run view lf raw st st'"

definition sem_ok :: "vm_state \<Rightarrow> bool" where
  "sem_ok st \<longleftrightarrow> vm_sem_vm st = length (vm_rpkg st)"

lemma fetch_ccb_Some:
  "fetch_ccb cs s = Some i \<Longrightarrow> i < length cs \<and> cc_session (cs ! i) = s
     \<and> (\<forall>j<i. cc_session (cs ! j) \<noteq> s)"
proof (induction cs arbitrary: i)
  case (Cons c cs)
  then show ?case by (cases i) (auto split: if_splits simp: less_Suc_eq_0_disj)
qed simp

lemma fetch_ccb_None: "fetch_ccb cs s = None \<longleftrightarrow> s \<notin> cc_session ` set cs"
  by (induction cs) auto

lemma vm_body_sem:
  assumes "tsm_vm_body run view lf raw st = Inr st'" and "Suc (vm_sem_vm st) = length (vm_rpkg st)"
  shows "sem_ok st' \<and> length (vm_ccbs st') = length (vm_ccbs st)"
proof -
  obtain skb rpkg where q: "vm_rpkg st = skb # rpkg" using assms(2) by (cases "vm_rpkg st") auto
  then show ?thesis
    using assms
    by (auto simp: tsm_vm_body_def bindR_Inr_iff sem_ok_def Let_def split_beta ccb_set_bootstrap_def
        split: option.splits if_splits)
qed

text \<open>
  C14. In every state the interpreter and the router reach, the semaphore counts the packets in
  the receive queue, and no control block appears or vanishes: a thread that gets past the
  semaphore never dequeues NULL.
\<close>

theorem vm_sem_counts:
  assumes "(vm_step run view lf raw)\<^sup>*\<^sup>* st0 st" and "vm_sem_vm st0 = length (vm_rpkg st0)"
  shows "vm_sem_vm st = length (vm_rpkg st) \<and> length (vm_ccbs st) = length (vm_ccbs st0)"
  using assms
proof (induction rule: rtranclp_induct)
  case (step st st')
  from step.hyps(2) show ?case
  proof (cases rule: vm_step.cases)
    case (receive skb)
    then show ?thesis using step by simp
  next
    case execute
    then show ?thesis
      using step vm_body_sem [OF execute(2)] by (simp add: sem_ok_def)
  qed
qed simp

theorem vm_sem_counts_witness:
  "\<exists>st. (vm_step (\<lambda>f c fba arg. Inr c) (\<lambda>ce. \<lparr>fa_size = 0, fa_cnt = 0, fa_array = []\<rparr>) True raw_skb)\<^sup>*\<^sup>*
       \<lparr>vm_ccbs = [], vm_rpkg = [], vm_wpkg = [], vm_sem_vm = 0, vm_sem_router_w = 0, vm_glb = 0,
        vm_fba = None\<rparr> st \<and> vm_sem_vm st = 1 \<and> length (vm_rpkg st) = 1"
proof -
  let ?run = "\<lambda>f c fba arg. Inr c" and ?view = "\<lambda>ce. \<lparr>fa_size = 0, fa_cnt = 0, fa_array = []\<rparr>"
  let ?s0 = "\<lparr>vm_ccbs = [], vm_rpkg = [], vm_wpkg = [], vm_sem_vm = 0, vm_sem_router_w = 0, vm_glb = 0,
        vm_fba = None\<rparr>"
  let ?s1 = "?s0\<lparr>vm_rpkg := vm_rpkg ?s0 @ [raw_skb], vm_sem_vm := vm_sem_vm ?s0 + 1\<rparr>"
  have r: "(vm_step ?run ?view True raw_skb)\<^sup>*\<^sup>* ?s0 ?s1"
    by (rule r_into_rtranclp, rule vm_step.receive)
  have "vm_sem_vm ?s1 = length (vm_rpkg ?s1) \<and> length (vm_ccbs ?s1) = length (vm_ccbs ?s0)"
    by (rule vm_sem_counts [OF r]) simp
  then show ?thesis using r by (intro exI [of _ ?s1]) simp
qed

end
