(* ===== verification/Tsm_Cfg.thy ===== *)
theory Tsm_Cfg
  imports Tsm_Clib
begin

text \<open>
  \<open>tsm_cfg.c\<close>: reading the configuration. A line in brackets opens a section; in the section
  \<open>global\<close> a line sets one of three numbers, in the section \<open>agent\<close> a line should describe an
  agent. The result of a line is discarded by the loader. \<open>junk\<close> is what the local buffer \<open>name\<close>
  holds when the line does not fill it.
\<close>

section \<open>State\<close>

record agent_info =
  ag_id :: int
  ag_name :: "u8 list"
  ag_r_fifo :: "u8 list"
  ag_w_fifo :: "u8 list"

record tsm_cfg =
  cf_port :: int
  cf_bc_parm_max :: int
  cf_bc_class_num :: int
  cf_bc_class_room :: int
  cf_ag_list :: "agent_info list"

section \<open>Formats\<close>

text \<open>\<open>[ %[^] \t]\<close>, \<open> %[^=]= %s \<close>, \<open>%s%n%s%s\<close> and \<open>%d,%s,%s,%s\<close>.\<close>

definition fmt_section :: "conv list" where
  "fmt_section = [Lit 0x5B, Ws, Set_of (\<lambda>c. c \<notin> {0x5D, 0x20, 0x09})]"

definition fmt_option :: "conv list" where
  "fmt_option = [Ws, Set_of (\<lambda>c. c \<noteq> 0x3D), Lit 0x3D, Ws, Str, Ws]"

definition fmt_words :: "conv list" where
  "fmt_words = [Str, Str, Str]"

definition fmt_agent :: "conv list" where
  "fmt_agent = [Num, Lit 0x2C, Str, Lit 0x2C, Str, Lit 0x2C, Str]"

section \<open>Operations\<close>

definition cfg_section :: "u8 list \<Rightarrow> u8 list \<Rightarrow> int \<Rightarrow> int \<times> int" where
  "cfg_section junk line sect =
     (let name = str_at junk (sscanf fmt_section line) 0 in
      if name = cstring_of ''global'' then (if sect \<ge> 1 then (-1, 1) else (0, 1))
      else if name = cstring_of ''agent'' then (if sect \<ge> 2 then (-1, 2) else (0, 2))
      else (-1, sect))"

definition cfg_option :: "tsm_cfg \<Rightarrow> u8 list \<Rightarrow> (int \<times> tsm_cfg) res" where
  "cfg_option cfg line =
     (case sscanf fmt_option line of
        [SStr name, SStr val] \<Rightarrow>
          fits 1024 name (fits 128 val (
            let ws = sscanf fmt_words name; w1 = str_at [] ws 0; w2 = str_at [] ws 1; w3 = str_at [] ws 2
            in fits 128 w1 (fits 128 w2 (fits 128 w3 (
               bindR (str_trim (val @ 0 # replicate (127 - length val) 0)) (\<lambda>b.
                 if w1 = cstring_of ''bytecode''
                 then if w2 = cstring_of ''parameter'' \<and> w3 = cstring_of ''max''
                      then bindR (atoi b) (\<lambda>v. Inr (0, cfg\<lparr>cf_bc_parm_max := v\<rparr>))
                      else if w2 = cstring_of ''class'' \<and> w3 = cstring_of ''max''
                      then bindR (atoi b) (\<lambda>v. Inr (0, cfg\<lparr>cf_bc_class_num := v\<rparr>))
                      else if w2 = cstring_of ''class'' \<and> w3 = cstring_of ''room''
                      then bindR (atoi b) (\<lambda>v. Inr (0, cfg\<lparr>cf_bc_class_room := v\<rparr>))
                      else Inr (-1, cfg)
                 else Inr (-1, cfg)))))))
      | _ \<Rightarrow> Inr (-1, cfg))"

text \<open>
  The agent branch scans \<open>name\<close>, which was not set, instead of the line. Were it to find four
  values, it would add an entry to a list whose head was never initialised.
\<close>

definition cfg_agent :: "tsm_cfg \<Rightarrow> u8 list \<Rightarrow> (int \<times> tsm_cfg) res" where
  "cfg_agent cfg junk =
     (case sscanf fmt_agent junk of
        [SInt n, SStr w1, SStr w2, SStr w3] \<Rightarrow> Inl Null_Deref
      | vs \<Rightarrow> (if list_all (\<lambda>v. case v of SStr w \<Rightarrow> length w < 128 | SInt i \<Rightarrow> True) vs
               then Inr (-1, cfg) else Inl Out_Of_Bounds))"

definition cfg_parse_line ::
  "u8 list \<Rightarrow> tsm_cfg \<Rightarrow> u8 list \<Rightarrow> int \<Rightarrow> (int \<times> tsm_cfg \<times> int) res"
where
  "cfg_parse_line junk cfg line sect =
     (if line \<noteq> [] \<and> hd line = 0x5B
      then (let (rc, sect) = cfg_section junk line sect in Inr (rc, cfg, sect))
      else if sect = 1 then bindR (cfg_option cfg line) (\<lambda>(rc, cfg). Inr (rc, cfg, sect))
      else if sect = 2 then bindR (cfg_agent cfg junk) (\<lambda>(rc, cfg). Inr (rc, cfg, sect))
      else Inr (-1, cfg, sect))"

text \<open>The loop over the lines; \<open>junk\<close> is told apart by how much of the file is left.\<close>

function cfg_lines ::
  "(nat \<Rightarrow> u8 list) \<Rightarrow> u8 list \<Rightarrow> tsm_cfg \<Rightarrow> int \<Rightarrow> tsm_cfg res"
where
  "cfg_lines junk f cfg sect =
     (if f = [] then Inr cfg
      else let (l, f') = fgets 1024 f in
        if l \<noteq> [] \<and> (hd l = 0x23 \<or> hd l = 0x0A) then cfg_lines junk f' cfg sect
        else bindR (rd l (int (length l) - 1)) (\<lambda>c.
             let l = (if c = 0x0A then butlast l else l)
             in bindR (trim_lr (Some (l @ [0]))) (\<lambda>b.
                bindR (deref b) (\<lambda>b.
                bindR (cfg_parse_line (junk (length f)) cfg (cstr b) sect) (\<lambda>(rc, cfg, sect).
                  cfg_lines junk f' cfg sect)))))"
  by (pat_completeness, simp)

termination
  by (relation "measure (\<lambda>(junk, f, cfg, sect). length f)") (auto dest: fgets_less)

declare cfg_lines.simps [simp del]

definition cfg_load :: "(nat \<Rightarrow> u8 list) \<Rightarrow> u8 list option \<Rightarrow> tsm_cfg option res" where
  "cfg_load junk file =
     (case file of
        None \<Rightarrow> Inr None
      | Some f \<Rightarrow>
          bindR (cfg_lines junk f \<lparr>cf_port = 0, cf_bc_parm_max = 0, cf_bc_class_num = 0,
                   cf_bc_class_room = 0, cf_ag_list = []\<rparr> 0) (\<lambda>cfg. Inr (Some cfg)))"

section \<open>Lemmas\<close>

lemma sscanf_agent_short:
  "sscanf fmt_agent s = [] \<or> (\<exists>n. sscanf fmt_agent s = [SInt n]) \<or> (\<exists>n w. sscanf fmt_agent s = [SInt n, SStr w])"
proof (cases "scan_num s")
  case None
  then show ?thesis by (simp add: fmt_agent_def)
next
  case (Some vr)
  obtain v r where vr: "vr = (v, r)" by fastforce
  show ?thesis
  proof (cases "r \<noteq> [] \<and> hd r = 0x2C")
    case True
    then obtain r' where r: "r = 0x2C # r'" by (cases r) auto
    let ?rest = "[Str, Lit 0x2C, Str]"
    have "\<not> is_space 0x2C" by (simp add: is_space_def)
    from sscanf_Str_Lit [OF this, of ?rest r']
    have l: "length (sscanf (Str # Lit 0x2C # ?rest) r') \<le> 1" .
    have e: "sscanf fmt_agent s = SInt v # sscanf (Str # Lit 0x2C # ?rest) r'"
      unfolding fmt_agent_def using Some by (simp add: vr r del: sscanf.simps(4))
    define ws where "ws = sscanf (Str # Lit 0x2C # ?rest) r'"
    have lw: "length ws \<le> 1" unfolding ws_def by (rule l)
    have "ws = [] \<or> (\<exists>w. ws = [SStr w])"
    proof (cases ws)
      case (Cons y ys)
      then have "ys = []" using lw by simp
      moreover have "\<exists>w. y = SStr w" using Cons by (auto simp: ws_def Let_def split: if_splits)
      ultimately show ?thesis using Cons by simp
    qed simp
    then show ?thesis unfolding e ws_def by blast
  next
    case False
    then show ?thesis using Some vr by (cases r) (auto simp: fmt_agent_def)
  qed
qed

lemma cfg_agent_cases: "cfg_agent cfg junk = Inr (-1, cfg) \<or> cfg_agent cfg junk = Inl Out_Of_Bounds"
  using sscanf_agent_short [of junk] by (auto simp: cfg_agent_def split: if_splits)

text \<open>What no line changes.\<close>

definition no_net :: "tsm_cfg \<Rightarrow> bool" where
  "no_net cfg \<longleftrightarrow> cf_port cfg = 0 \<and> cf_ag_list cfg = []"

lemma fits_Inr: "fits n w r = Inr x \<longleftrightarrow> length w < n \<and> r = Inr x"
  by (simp add: fits_def)

lemma cfg_option_no_net: "cfg_option cfg line = Inr (rc, cfg') \<Longrightarrow> no_net cfg \<Longrightarrow> no_net cfg'"
  by (auto simp: cfg_option_def Let_def fits_Inr bindR_Inr_iff no_net_def split: list.splits sval.splits if_splits)

lemma cfg_parse_line_no_net:
  "cfg_parse_line junk cfg line sect = Inr (rc, cfg', sect') \<Longrightarrow> no_net cfg \<Longrightarrow> no_net cfg'"
  using cfg_option_no_net cfg_agent_cases [of cfg junk]
  by (auto simp: cfg_parse_line_def bindR_Inr_iff split_beta Let_def split: if_splits)

lemma cfg_lines_no_net: "cfg_lines junk f cfg sect = Inr cfg' \<Longrightarrow> no_net cfg \<Longrightarrow> no_net cfg'"
proof (induction junk f cfg sect rule: cfg_lines.induct)
  case (1 junk f cfg sect)
  obtain l f' where lf: "fgets 1024 f = (l, f')" by fastforce
  show ?case
  proof (cases "f = []")
    case True
    then show ?thesis using "1.prems" by (simp add: cfg_lines.simps)
  next
    case f: False
    show ?thesis
    proof (cases "l \<noteq> [] \<and> (hd l = 0x23 \<or> hd l = 0x0A)")
      case True
      then have "cfg_lines junk f' cfg sect = Inr cfg'" using "1.prems"(1) f lf by (subst (asm) cfg_lines.simps) simp
      then show ?thesis using "1.IH"(1) [OF f lf [symmetric] refl True] "1.prems"(2) by simp
    next
      case no: False
      have "\<exists>c b0 b rc c2 s2. rd l (int (length l) - 1) = Inr c \<and>
          trim_lr (Some ((if c = 0x0A then butlast l else l) @ [0])) = Inr b0 \<and> deref b0 = Inr b \<and>
          cfg_parse_line (junk (length f)) cfg (cstr b) sect = Inr (rc, c2, s2) \<and>
          cfg_lines junk f' c2 s2 = Inr cfg'"
        using "1.prems"(1) f lf no by (subst (asm) cfg_lines.simps) (auto simp: bindR_Inr_iff Let_def)
      then obtain c b0 b rc c2 s2 where h: "rd l (int (length l) - 1) = Inr c"
        "trim_lr (Some ((if c = 0x0A then butlast l else l) @ [0])) = Inr b0" "deref b0 = Inr b"
        "cfg_parse_line (junk (length f)) cfg (cstr b) sect = Inr (rc, c2, s2)"
        "cfg_lines junk f' c2 s2 = Inr cfg'" by blast
      have "no_net c2" using cfg_parse_line_no_net [OF h(4) "1.prems"(2)] .
      then show ?thesis
        using "1.IH"(2) [OF f lf [symmetric] refl no h(1) refl h(2,3,4) refl refl h(5)] by simp
    qed
  qed
qed

section \<open>Properties\<close>

text \<open>
  C40. Whatever the file contains, a configuration that is loaded has port 0 and no agents: no
  option sets the port, and the agent section never adds an entry.
\<close>

theorem cfg_load_no_net:
  assumes "cfg_load junk file = Inr (Some cfg)"
  shows "cf_port cfg = 0 \<and> cf_ag_list cfg = []"
proof -
  obtain f where "file = Some f" using assms by (cases "file") (auto simp: cfg_load_def)
  then have "cfg_lines junk f \<lparr>cf_port = 0, cf_bc_parm_max = 0, cf_bc_class_num = 0,
      cf_bc_class_room = 0, cf_ag_list = []\<rparr> 0 = Inr cfg"
    using assms by (auto simp: cfg_load_def bindR_Inr_iff)
  from cfg_lines_no_net [OF this] show ?thesis by (simp add: no_net_def)
qed

theorem cfg_load_no_net_witness:
  "\<exists>cfg. cfg_load (\<lambda>n. []) (Some [0x23, 0x0A]) = Inr (Some cfg) \<and> cf_port cfg = 0"
proof -
  have "\<exists>cfg. cfg_load (\<lambda>n. []) (Some [0x23, 0x0A]) = Inr (Some cfg)"
    using fgets_line [of "[0x23]" 1024 "[]"] by (simp add: cfg_load_def cfg_lines.simps)
  then show ?thesis using cfg_load_no_net by blast
qed

lemma str_trim_digits:
  assumes "\<forall>c\<in>set ds. is_digit c" and "ds \<noteq> []" and "dec_val ds < 2 ^ 31"
  shows "\<exists>b. str_trim (ds @ 0 # r) = Inr b \<and> atoi b = Inr (dec_val ds)"
proof -
  have nz: "\<not> is_digit 0" "\<not> is_digit 0x20" by (simp_all add: is_digit_def)
  then have z: "0 \<notin> set ds" using assms(1) by blast
  obtain b where b: "str_trim (ds @ 0 # r) = Inr b" "length b = length (ds @ 0 # r)"
      "cstr b = filter (\<lambda>c. c \<noteq> 0x20) ds"
    using str_trim_removes_spaces [OF z, of r] by blast
  have "filter (\<lambda>c. c \<noteq> 0x20) ds = ds" using assms(1) nz(2) by (auto simp: filter_id_conv)
  then have c: "cstr b = ds" using b(3) by simp
  have "0 \<in> set b"
  proof (rule ccontr)
    assume "0 \<notin> set b"
    then have "cstr b = b" by (auto simp: cstr_def takeWhile_eq_all_conv)
    then show False using b(2) c by simp
  qed
  then obtain r' where "b = ds @ 0 # r'" using cstr_split [of b] c by metis
  then show ?thesis using b(1) atoi_ok [OF assms(1,2) nz(1) assms(3), of r'] by simp
qed

text \<open>
  In the section \<open>global\<close> the line \<open>bytecode parameter max = n\<close> sets that number and
  nothing else.
\<close>

theorem cfg_option_sets:
  assumes "\<forall>c\<in>set ds. is_digit c" and "ds \<noteq> []" and "length ds < 128" and "dec_val ds < 2 ^ 31"
  shows "cfg_parse_line junk cfg (cstring_of ''bytecode parameter max = '' @ ds) 1
    = Inr (0, cfg\<lparr>cf_bc_parm_max := dec_val ds\<rparr>, 1)"
proof -
  let ?line = "cstring_of ''bytecode parameter max = '' @ ds"
  have sp: "is_space c \<Longrightarrow> \<not> is_digit c" for c
    by (auto simp: is_space_def is_digit_def word_le_nat_alt)
  let ?pre = "cstring_of ''bytecode parameter max ''"
  obtain d dr where d: "ds = d # dr" "\<not> is_space d" using assms(1,2) sp by (cases ds) auto
  have line: "?line = ?pre @ 0x3D # 0x20 # ds" by (simp add: cstring_of_def of_char_def)
  have pre: "dropWhile is_space (?pre @ r) = ?pre @ r" "0x3D \<notin> set ?pre" "?pre \<noteq> []" for r
    by (simp_all add: cstring_of_def of_char_def is_space_def)
  have tk: "takeWhile (\<lambda>c. c \<noteq> 0x3D) (?pre @ 0x3D # 0x20 # ds) = ?pre"
    using pre(2) by (subst takeWhile_append2) auto
  have "is_space 0x20" by (simp add: is_space_def)
  moreover have "dropWhile is_space ds = ds" using d by simp
  ultimately have dr: "is_space 0x20" "dropWhile is_space ds = ds" by simp_all
  have sw: "sscanf (Str # [Ws]) (ds @ []) = SStr ds # sscanf [Ws] []"
    using assms(1,2) sp by (intro sscanf_Str_word) auto
  have s: "sscanf fmt_option ?line = [SStr ?pre, SStr ds]"
    unfolding fmt_option_def line sscanf.simps(2) pre(1) sscanf.simps(5) tk Let_def
    using pre(3) sw by (simp add: dr del: sscanf.simps(4))
  have w: "sscanf fmt_words (cstring_of ''bytecode parameter max '')
      = [SStr (cstring_of ''bytecode''), SStr (cstring_of ''parameter''), SStr (cstring_of ''max'')]"
    by (simp add: fmt_words_def cstring_of_def of_char_def is_space_def Let_def)
  obtain b where b: "str_trim (ds @ 0 # replicate (127 - length ds) 0) = Inr b" "atoi b = Inr (dec_val ds)"
    using str_trim_digits [OF assms(1,2,4)] by blast
  have "cfg_option cfg ?line = Inr (0, cfg\<lparr>cf_bc_parm_max := dec_val ds\<rparr>)"
    using assms(3) b unfolding cfg_option_def s list.case sval.case w Let_def
    by (simp add: str_at_def fits_def cstring_of_def of_char_def)
  moreover have "?line \<noteq> [] \<and> hd ?line \<noteq> 0x5B" by (simp add: cstring_of_def of_char_def)
  ultimately show ?thesis by (simp add: cfg_parse_line_def)
qed

theorem cfg_option_sets_example:
  "cfg_parse_line [] \<lparr>cf_port = 0, cf_bc_parm_max = 0, cf_bc_class_num = 0, cf_bc_class_room = 0, cf_ag_list = []\<rparr>
      (cstring_of ''bytecode parameter max = '' @ [0x31, 0x36]) 1
    = Inr (0, \<lparr>cf_port = 0, cf_bc_parm_max = 16, cf_bc_class_num = 0, cf_bc_class_room = 0, cf_ag_list = []\<rparr>, 1)"
  by (subst cfg_option_sets) (simp_all add: is_digit_def dec_val_def)

end
