(* ===== verification/Tsm_Router.thy ===== *)
theory Tsm_Router
  imports Tsm_Vm Tsm_Cfg Fm_List
begin

text \<open>
  \<open>tsm_router.c\<close>: the thread that sends the packets of the interpreter to the agents, the table of
  agents, the parser of control messages and the receiving function of the receiving thread. The
  ring of agents is the list of its entries with the \<open>list_t\<close> that guards it (\<open>Fm_List\<close>
  justifies that). Input and output are functions on a state of the operating system, of any type
  \<open>'w\<close>: \<open>os_write\<close> gives the number of bytes taken and
  \<open>errno\<close>, \<open>os_read\<close> the number of bytes and the bytes,
  \<open>read_at\<close> is a read into an address that is no object. A loop around such a call
  may run for ever: its value is then \<open>None\<close>. The rest of the receiving thread is in
  \<open>Tsm_Ctrl\<close> and \<open>Tsm_Recv\<close>.
\<close>

section \<open>State\<close>

record agent_entry =
  ae_name :: "u8 list option"
  ae_fd :: int

record agents =
  ag_list :: list_t
  ag_entries :: "agent_entry list"

record tsm_router =
  rt_server :: int
  rt_agents :: agents
  rt_rpkg :: "sk_buff list"
  rt_wpkg :: "sk_buff list"
  rt_ppkg :: "sk_buff list"

definition FM_SYS_ERR_NO_MEM :: int where "FM_SYS_ERR_NO_MEM = 0x80000001 - 2 ^ 32"
definition FM_ROUTER_CREATE_SVR_FAILED :: int where "FM_ROUTER_CREATE_SVR_FAILED = 0x80000200 - 2 ^ 32"

text \<open>An operation that may fault or never return.\<close>

definition bindO :: "'a res option \<Rightarrow> ('a \<Rightarrow> 'b res option) \<Rightarrow> 'b res option" where
  "bindO m f = (case m of None \<Rightarrow> None | Some (Inl e) \<Rightarrow> Some (Inl e) | Some (Inr x) \<Rightarrow> f x)"

lemma bindO_simps [simp]:
  "bindO None f = None"
  "bindO (Some (Inl e)) f = Some (Inl e)"
  "bindO (Some (Inr x)) f = f x"
  by (simp_all add: bindO_def)

lemma bindO_Inr_iff: "bindO m f = Some (Inr y) \<longleftrightarrow> (\<exists>x. m = Some (Inr x) \<and> f x = Some (Inr y))"
  by (auto simp: bindO_def split: option.splits sum.splits)

section \<open>The agent table\<close>

fun agent_name :: "router_tlv list \<Rightarrow> u8 list option res" where
  "agent_name [] = Inr None"
| "agent_name (node # tlv) =
     (if tlv_tag node = TAG_AG_NAME
      then bindR (rdn (tlv_val node) 0 (uint (tlv_len node))) (\<lambda>xs. Inr (Some (xs @ [0])))
      else agent_name tlv)"

definition router_register_agent :: "bool \<Rightarrow> int \<Rightarrow> router_tlv list \<Rightarrow> agent_entry option res" where
  "router_register_agent ok fd tlv =
     (if \<not> ok then Inr None
      else bindR (agent_name tlv) (\<lambda>name. Inr (Some \<lparr>ae_name = name, ae_fd = fd\<rparr>)))"

text \<open>The loop of \<open>router_get_des_wfd\<close>, with \<open>strcmp\<close> byte by byte; on a match it locks again.\<close>

fun des_wfd_loop :: "u8 list \<Rightarrow> list_t \<Rightarrow> agent_entry list \<Rightarrow> (int \<times> list_t) res" where
  "des_wfd_loop name l [] = Inr (-1, UNLOCK l)"
| "des_wfd_loop name l (ae # aes) =
     bindR (deref (ae_name ae)) (\<lambda>n. bindR (zc_hashtable_str_equal name n) (\<lambda>eq.
       if eq then bindR (LOCK l) (\<lambda>l. Inr (ae_fd ae, l)) else des_wfd_loop name l aes))"

definition router_get_des_wfd :: "u8 list \<Rightarrow> agents \<Rightarrow> (int \<times> agents) res" where
  "router_get_des_wfd name ag =
     bindR (LOCK (ag_list ag)) (\<lambda>l. bindR (des_wfd_loop name l (ag_entries ag)) (\<lambda>(fd, l).
       Inr (fd, ag\<lparr>ag_list := l\<rparr>)))"

text \<open>\<open>list_del_entry\<close> takes the lock of the list itself.\<close>

fun unregister_loop :: "int \<Rightarrow> list_t \<Rightarrow> agent_entry list \<Rightarrow> agent_entry list \<Rightarrow> agents res" where
  "unregister_loop fd l before [] = Inr \<lparr>ag_list = UNLOCK l, ag_entries = before\<rparr>"
| "unregister_loop fd l before (ae # aes) =
     (if ae_fd ae = fd
      then bindR (LOCK l) (\<lambda>l. Inr \<lparr>ag_list = UNLOCK (UNLOCK l), ag_entries = before @ aes\<rparr>)
      else unregister_loop fd l (before @ [ae]) aes)"

definition router_unregister_agent ::
  "(int \<Rightarrow> 'w \<Rightarrow> 'w) \<Rightarrow> (int \<Rightarrow> 'w \<Rightarrow> 'w) \<Rightarrow> int \<Rightarrow> agents \<Rightarrow> 'w \<Rightarrow> (agents \<times> 'w) res"
where
  "router_unregister_agent close_fd monitor_del_event fd ag w =
     (let w = monitor_del_event fd (close_fd fd w) in
      bindR (LOCK (ag_list ag)) (\<lambda>l. bindR (unregister_loop fd l [] (ag_entries ag)) (\<lambda>ag.
        Inr (ag, w))))"

section \<open>Parsing a control message\<close>

text \<open>
  The value is always copied from the fourth byte of the message, and the index moves on by the
  length of the value; a length of 0 does not move it.
\<close>

function parse_tlv_loop :: "u8 list \<Rightarrow> int \<Rightarrow> int \<Rightarrow> router_tlv list \<Rightarrow> router_tlv list res" where
  "parse_tlv_loop str len i tlvs =
     (if i < len
      then bindR (rd str i) (\<lambda>t. bindR (rd str (i + 1)) (\<lambda>h. bindR (rd str (i + 2)) (\<lambda>l.
           let n = push_bit 8 (ucast h) OR ucast l :: u16 in
           bindR (rdn str 3 (uint n)) (\<lambda>v.
             if n = 0 then Inl Hang
             else parse_tlv_loop str len (i + uint n) (tlvs @ [\<lparr>tlv_tag = t, tlv_len = n, tlv_val = v\<rparr>])))))
      else Inr tlvs)"
  by (pat_completeness, simp)

termination
proof (relation "measure (\<lambda>(str, len, i, tlvs). nat (len - i))", goal_cases)
  case (2 str len i tlvs t h l n v)
  then have "0 < uint n" by (simp add: word_neq_0_conv word_less_def)
  then show ?case using 2(1) by simp
qed simp

declare parse_tlv_loop.simps [simp del]

definition router_parse_tlv :: "bool \<Rightarrow> u8 list \<Rightarrow> int \<Rightarrow> router_tlv list option res" where
  "router_parse_tlv ok str len =
     (if \<not> ok then Inr None else bindR (parse_tlv_loop str len 0 []) (\<lambda>tlvs. Inr (Some tlvs)))"

section \<open>Sending\<close>

partial_function (option) send_loop ::
  "(int \<Rightarrow> u8 list \<Rightarrow> 'w \<Rightarrow> int \<times> int \<times> 'w) \<Rightarrow> int \<Rightarrow> u8 list \<Rightarrow> int \<Rightarrow> int \<Rightarrow> int \<Rightarrow> 'w \<Rightarrow> (int \<times> 'w) res option"
where
  "send_loop os_write fd block p rest pos w =
     (if rest > 0
      then case rdn block (p + pos) rest of
             Inl e \<Rightarrow> Some (Inl e)
           | Inr xs \<Rightarrow>
               (case os_write fd xs w of (ret, errno, w') \<Rightarrow>
                  if ret > 0 then send_loop os_write fd block p (rest - ret) (pos + ret) w'
                  else if errno \<noteq> 0 then Some (Inr (pos, w'))
                  else send_loop os_write fd block p rest pos w')
      else Some (Inr (pos, w)))"

definition router_send ::
  "(int \<Rightarrow> u8 list \<Rightarrow> 'w \<Rightarrow> int \<times> int \<times> 'w) \<Rightarrow> int \<Rightarrow> u8 list \<Rightarrow> int \<Rightarrow> int \<Rightarrow> 'w \<Rightarrow> (int \<times> 'w) res option"
where
  "router_send os_write fd block p len w =
     (if fd < 0 then Some (Inr (-1, w)) else send_loop os_write fd block p len 0 w)"

text \<open>\<open>int2byteBE(v,buf); memcpy(skb_push(skb,4),buf,4)\<close>\<close>

definition push_int :: "u32 \<Rightarrow> sk_buff \<Rightarrow> sk_buff res" where
  "push_int v skb = bindR (int2byteBE v [0, 0, 0, 0]) (\<lambda>(n, buf). skb_push_bytes buf skb)"

definition pack_head :: "sk_buff \<Rightarrow> sk_buff res" where
  "pack_head skb =
     bindR (push_int (sk_session skb) skb) (\<lambda>skb.
     bindR (push_int (sk_msg_type skb) skb) (\<lambda>skb.
     push_int (sk_len skb) skb))"

definition router_disaggregate_body ::
  "(int \<Rightarrow> u8 list \<Rightarrow> 'w \<Rightarrow> int \<times> int \<times> 'w) \<Rightarrow> agents \<Rightarrow> sk_buff list \<Rightarrow> 'w
     \<Rightarrow> (agents \<times> sk_buff list \<times> 'w) res option"
where
  "router_disaggregate_body os_write ag wpkg w =
     (case wpkg of
        [] \<Rightarrow> Some (Inl Null_Deref)
      | skb # wpkg \<Rightarrow>
          bindO (Some (pack_head skb)) (\<lambda>skb.
          bindO (Some (deref (sk_agent skb))) (\<lambda>a.
          bindO (Some (deref (fb_buf a))) (\<lambda>name.
          bindO (Some (router_get_des_wfd name ag)) (\<lambda>(fd, ag).
          bindO (if fd \<noteq> -1 then router_send os_write fd (sk_block skb) (sk_data skb) (sint (sk_len skb)) w
                 else Some (Inr (0, w))) (\<lambda>(n, w).
          Some (Inr (ag, wpkg, w))))))))"

section \<open>Receiving\<close>

partial_function (option) clear_buffer ::
  "(int \<Rightarrow> int \<Rightarrow> 'w \<Rightarrow> (int \<times> u8 list) \<times> 'w) \<Rightarrow> int \<Rightarrow> 'w \<Rightarrow> 'w option"
where
  "clear_buffer os_read fd w =
     (case os_read fd 100 w of ((n, xs), w') \<Rightarrow> if n \<noteq> 0 then clear_buffer os_read fd w' else Some w')"

text \<open>
  The first field of the head: the source passes the byte \<open>buf[0]\<close>, which nothing has set, as the
  address to read into. Were such a read to succeed, it would store through an integer.
\<close>

definition router_do_read ::
  "(int \<Rightarrow> int \<Rightarrow> int \<Rightarrow> 'w \<Rightarrow> int \<times> 'w) \<Rightarrow> (int \<Rightarrow> int \<Rightarrow> 'w \<Rightarrow> (int \<times> u8 list) \<times> 'w)
     \<Rightarrow> u8 list \<Rightarrow> int \<Rightarrow> 'w \<Rightarrow> (sk_buff option \<times> 'w) res option"
where
  "router_do_read read_at os_read buf fd w =
     bindO (Some (rd buf 0)) (\<lambda>b.
       case read_at fd (uint b) 4 w of (nread, w) \<Rightarrow>
         if nread \<noteq> 4
         then (case clear_buffer os_read fd w of None \<Rightarrow> None | Some w \<Rightarrow> Some (Inr (None, w)))
         else Some (Inl Wild_Pointer))"

section \<open>Start-up\<close>

definition router_init ::
  "bool \<Rightarrow> ('w \<Rightarrow> 'w) \<Rightarrow> (int \<Rightarrow> 'w \<Rightarrow> int \<times> 'w) \<Rightarrow> (int \<Rightarrow> 'w \<Rightarrow> 'w) \<Rightarrow> addr \<Rightarrow> tsm_cfg \<Rightarrow> 'w
     \<Rightarrow> int \<times> tsm_router option \<times> 'w"
where
  "router_init ok monitor_init skt_server_init monitor_add_event list_head cfg w =
     (if \<not> ok then (FM_SYS_ERR_NO_MEM, None, w)
      else let w = monitor_init w;
               (server, w) = skt_server_init (cf_port cfg) w
           in if server < 0 then (FM_ROUTER_CREATE_SVR_FAILED, None, w)
              else (0, Some \<lparr>rt_server = server,
                     rt_agents = \<lparr>ag_list = \<lparr>lt_head = list_head, lt_lock = False\<rparr>, ag_entries = []\<rparr>,
                     rt_rpkg = [], rt_wpkg = [], rt_ppkg = []\<rparr>, monitor_add_event server w))"

section \<open>The interpreter and the sending thread\<close>

text \<open>
  The two threads meet at the queue of outgoing packets and its semaphore. A step is a step of the
  interpreter or one round of the sending thread.
\<close>

type_synonym 'w system = "vm_state \<times> agents \<times> 'w"

inductive system_step ::
  "bytecode_run \<Rightarrow> (code_entry \<Rightarrow> fmBytes_array) \<Rightarrow> bool \<Rightarrow> sk_buff
     \<Rightarrow> (int \<Rightarrow> u8 list \<Rightarrow> 'w \<Rightarrow> int \<times> int \<times> 'w) \<Rightarrow> 'w system \<Rightarrow> 'w system \<Rightarrow> bool"
  for run view len_first raw os_write
where
  interpret_step: "vm_step run view len_first raw st st' \<Longrightarrow>
     system_step run view len_first raw os_write (st, ag, w) (st', ag, w)"
| send_step: "0 < vm_sem_router_w st \<Longrightarrow>
     router_disaggregate_body os_write ag (vm_wpkg st) w = Some (Inr (ag', wpkg', w')) \<Longrightarrow>
     system_step run view len_first raw os_write (st, ag, w)
       (st\<lparr>vm_wpkg := wpkg', vm_sem_router_w := vm_sem_router_w st - 1\<rparr>, ag', w')"

inductive_cases system_stepE: "system_step run view len_first raw os_write s s'"

section \<open>Lemmas\<close>

lemma des_wfd_locked:
  "lt_lock l \<Longrightarrow> des_wfd_loop name l aes = Inr (fd, l') \<Longrightarrow> fd = -1 \<and> l' = UNLOCK l"
  by (induction aes) (auto simp: bindR_Inr_iff LOCK_def split: if_splits)

lemma get_des_wfd_Inr: "router_get_des_wfd name ag = Inr (fd, ag') \<Longrightarrow> fd = -1 \<and> ag' = ag"
  by (auto simp: router_get_des_wfd_def bindR_Inr_iff LOCK_def UNLOCK_def
      split: if_splits dest!: des_wfd_locked [rotated])

lemma disaggregate_Inr:
  assumes "router_disaggregate_body os_write ag wpkg w = Some (Inr (ag', wpkg', w'))"
  shows "ag' = ag \<and> w' = w \<and> length wpkg = Suc (length wpkg')"
proof (cases wpkg)
  case (Cons skb r)
  then show ?thesis
    using assms by (auto simp: router_disaggregate_body_def bindO_Inr_iff split_beta dest!: get_des_wfd_Inr)
qed (use assms in \<open>simp add: router_disaggregate_body_def\<close>)

lemma vm_body_router_sem:
  assumes "tsm_vm_body run view lf raw st = Inr st'" and "vm_sem_router_w st = length (vm_wpkg st)"
  shows "vm_sem_router_w st' = length (vm_wpkg st')"
proof -
  obtain skb rpkg where q: "vm_rpkg st = skb # rpkg"
    using assms(1) by (cases "vm_rpkg st") (auto simp: tsm_vm_body_def)
  then show ?thesis
    using assms
    by (auto simp: tsm_vm_body_def bindR_Inr_iff Let_def split_beta ccb_set_bootstrap_def
        split: option.splits if_splits)
qed

lemma vm_step_router_sem:
  "vm_step run view lf raw st st' \<Longrightarrow> vm_sem_router_w st = length (vm_wpkg st) \<Longrightarrow>
   vm_sem_router_w st' = length (vm_wpkg st')"
  by (erule vm_stepE) (auto dest: vm_body_router_sem)

lemma skb_push_bytes_keeps:
  "skb_push_bytes xs skb = Inr p \<Longrightarrow> sk_session p = sk_session skb \<and> sk_msg_type p = sk_msg_type skb
     \<and> sk_agent p = sk_agent skb"
  by (auto simp: skb_push_bytes_def skb_push_def skb_store_def bindR_Inr_iff Let_def split: if_splits)

lemma push_int_bytes: "push_int v skb = skb_push_bytes (be_bytes v) skb"
  by (simp add: push_int_def int2byteBE_ok)

text \<open>One round of parsing.\<close>

lemma parse_tlv_extends:
  "parse_tlv_loop str len i tlvs = Inr r \<Longrightarrow> \<exists>more. r = tlvs @ more \<and> (i < len \<longrightarrow> more \<noteq> [])"
proof (induction str len i tlvs arbitrary: r rule: parse_tlv_loop.induct)
  case (1 str len i tlvs)
  show ?case
  proof (cases "i < len")
    case True
    then obtain t h l v n where *: "rd str i = Inr t" "rd str (i + 1) = Inr h" "rd str (i + 2) = Inr l"
        "n = push_bit 8 (ucast h) OR ucast l" "rdn str 3 (uint (n :: u16)) = Inr v" "n \<noteq> 0"
        "parse_tlv_loop str len (i + uint n) (tlvs @ [\<lparr>tlv_tag = t, tlv_len = n, tlv_val = v\<rparr>]) = Inr r"
      using "1.prems" by (subst (asm) parse_tlv_loop.simps) (auto simp: bindR_Inr_iff Let_def split: if_splits)
    from "1.IH" [OF True *(1-6,7)] show ?thesis by auto
  next
    case False
    then show ?thesis using "1.prems" by (subst (asm) parse_tlv_loop.simps) simp
  qed
qed

lemma uint_be16: "uint (push_bit 8 (ucast h) OR ucast l :: u16) = 256 * uint (h :: u8) + uint (l :: u8)"
proof -
  have "(push_bit 8 (ucast h) :: u16) AND ucast l = 0"
    by (rule bit_word_eqI) (auto simp: bit_simps dest: bit_imp_le_length)
  then have "push_bit 8 (ucast h) OR ucast l = (push_bit 8 (ucast h) :: u16) + ucast l"
    by (simp add: disjunctive_add bit_eq_iff bit_simps)
  then have e: "push_bit 8 (ucast h) OR ucast l = 256 * (ucast h :: u16) + ucast l"
    by (simp add: push_bit_eq_mult)
  have "uint h < 2 ^ 8" "uint l < 2 ^ 8" by (rule order_less_le_trans [OF unsigned_less], simp)+
  then show ?thesis unfolding e
    by (simp add: uint_word_ariths unsigned_ucast_eq take_bit_int_eq_self mod_pos_pos_trivial)
qed

section \<open>Properties\<close>

text \<open>
  C2. However the interpreter and the sending thread interleave, the semaphore of the sending
  thread counts the packets that wait for it, the table of agents does not change, and nothing is
  ever written to an agent: a packet for a registered agent stops the thread in a deadlock, and a
  packet for any other is dropped.
\<close>

theorem system_never_sends:
  assumes "(system_step run view len_first raw os_write)\<^sup>*\<^sup>* (st0, ag0, w0) (st, ag, w)"
    and "vm_sem_router_w st0 = length (vm_wpkg st0)"
  shows "vm_sem_router_w st = length (vm_wpkg st) \<and> ag = ag0 \<and> w = w0"
  using assms
proof (induction "(st, ag, w)" arbitrary: st ag w rule: rtranclp_induct)
  case (step y)
  obtain st1 ag1 w1 where y: "y = (st1, ag1, w1)" by (cases y)
  have IH: "vm_sem_router_w st1 = length (vm_wpkg st1)" "ag1 = ag0" "w1 = w0"
    using step.hyps(3) [OF y] step.prems by auto
  from step.hyps(2) show ?case
    unfolding y by (rule system_stepE) (auto simp: IH dest: vm_step_router_sem disaggregate_Inr)
qed simp

theorem system_never_sends_witness:
  "(system_step (\<lambda>f c fba arg. Inr c) (\<lambda>ce. \<lparr>fa_size = 0, fa_cnt = 0, fa_array = []\<rparr>) True raw_skb
       (\<lambda>fd xs w. (int (length xs), 0, w @ xs)))\<^sup>*\<^sup>*
     (\<lparr>vm_ccbs = [], vm_rpkg = [], vm_wpkg = [], vm_sem_vm = 0, vm_sem_router_w = 0, vm_glb = 0, vm_fba = None\<rparr>,
      \<lparr>ag_list = \<lparr>lt_head = 1, lt_lock = False\<rparr>, ag_entries = []\<rparr>, [])
     (\<lparr>vm_ccbs = [], vm_rpkg = [raw_skb], vm_wpkg = [], vm_sem_vm = 1, vm_sem_router_w = 0, vm_glb = 0, vm_fba = None\<rparr>,
      \<lparr>ag_list = \<lparr>lt_head = 1, lt_lock = False\<rparr>, ag_entries = []\<rparr>, [])
   \<and> vm_sem_router_w \<lparr>vm_ccbs = [], vm_rpkg = [raw_skb], vm_wpkg = [], vm_sem_vm = 1, vm_sem_router_w = 0,
        vm_glb = 0, vm_fba = None\<rparr> = 0"
proof -
  let ?run = "\<lambda>f c fba arg. Inr c" and ?view = "\<lambda>ce. \<lparr>fa_size = 0, fa_cnt = 0, fa_array = []\<rparr>"
  let ?wr = "\<lambda>(fd :: int) xs w. (int (length xs), 0 :: int, w @ (xs :: u8 list))"
  let ?s0 = "\<lparr>vm_ccbs = [], vm_rpkg = [], vm_wpkg = [], vm_sem_vm = 0, vm_sem_router_w = 0, vm_glb = 0, vm_fba = None\<rparr>"
  let ?s1 = "?s0\<lparr>vm_rpkg := vm_rpkg ?s0 @ [raw_skb], vm_sem_vm := vm_sem_vm ?s0 + 1\<rparr>"
  let ?ag = "\<lparr>ag_list = \<lparr>lt_head = 1, lt_lock = False\<rparr>, ag_entries = []\<rparr>"
  have r: "(system_step ?run ?view True raw_skb ?wr)\<^sup>*\<^sup>* (?s0, ?ag, []) (?s1, ?ag, [])"
    by (rule r_into_rtranclp, rule system_step.interpret_step, rule vm_step.receive)
  have "vm_sem_router_w ?s1 = length (vm_wpkg ?s1) \<and> ?ag = ?ag \<and> ([] :: u8 list) = []"
    by (rule system_never_sends [OF r]) simp
  then show ?thesis using r by simp
qed

text \<open>
  Looking up the descriptor of an agent with the table unlocked: when no entry has the name the
  result is -1 and the table is left unlocked as it was; when an entry has it, the thread locks the
  table once more and waits for itself.
\<close>

theorem get_des_wfd_deadlock:
  assumes "\<not> lt_lock (ag_list ag)" and "0 \<notin> set name"
    and "\<forall>ae\<in>set (ag_entries ag). \<exists>n. ae_name ae = Some (n @ [0]) \<and> 0 \<notin> set n"
  shows "router_get_des_wfd (name @ [0]) ag
    = (if \<exists>ae\<in>set (ag_entries ag). ae_name ae = Some (name @ [0]) then Inl Deadlock else Inr (-1, ag))"
proof -
  have loop: "des_wfd_loop (name @ [0]) l aes
      = (if \<exists>ae\<in>set aes. ae_name ae = Some (name @ [0]) then Inl Deadlock else Inr (-1, UNLOCK l))"
    if "lt_lock l" "\<forall>ae\<in>set aes. \<exists>n. ae_name ae = Some (n @ [0]) \<and> 0 \<notin> set n" for l aes
    using that(2)
  proof (induction aes)
    case (Cons ae aes)
    then obtain n where n: "ae_name ae = Some (n @ [0])" "0 \<notin> set n" by auto
    then have "zc_hashtable_str_equal (name @ [0]) (n @ [0]) = Inr (name = n)"
      using str_equal_iff [OF assms(2) n(2), of "[]" "[]"] by simp
    then show ?case using Cons n that(1) by (auto simp: LOCK_def)
  qed simp
  have "ag\<lparr>ag_list := UNLOCK (ag_list ag\<lparr>lt_lock := True\<rparr>)\<rparr> = ag" using assms(1) by (simp add: UNLOCK_def)
  then show ?thesis
    using assms(1,3) loop [of "ag_list ag\<lparr>lt_lock := True\<rparr>" "ag_entries ag"]
    by (simp add: router_get_des_wfd_def LOCK_def)
qed

theorem get_des_wfd_deadlock_example:
  "router_get_des_wfd [97, 0] \<lparr>ag_list = \<lparr>lt_head = 1, lt_lock = False\<rparr>,
     ag_entries = [\<lparr>ae_name = Some [98, 0], ae_fd = 4\<rparr>, \<lparr>ae_name = Some [97, 0], ae_fd = 5\<rparr>]\<rparr> = Inl Deadlock"
  using get_des_wfd_deadlock [of "\<lparr>ag_list = \<lparr>lt_head = 1, lt_lock = False\<rparr>,
     ag_entries = [\<lparr>ae_name = Some [98, 0], ae_fd = 4\<rparr>, \<lparr>ae_name = Some [97, 0], ae_fd = 5\<rparr>]\<rparr>" "[97]"]
  by simp

text \<open>
  The head of a packet with twelve bytes of room in front: the length of the rest of the
  message, the message type and the session, four bytes each and big endian, before the body.
\<close>

theorem pack_head_layout:
  assumes "skb_ok skb" and "12 \<le> skb_front skb"
  shows "\<exists>p. pack_head skb = Inr p \<and> skb_ok p \<and> skb_body p =
    be_bytes (of_nat (length (skb_body skb) + 8)) @ be_bytes (sk_msg_type skb) @ be_bytes (sk_session skb) @ skb_body skb"
proof -
  obtain p1 where p1: "push_int (sk_session skb) skb = Inr p1" "skb_ok p1"
      "skb_body p1 = be_bytes (sk_session skb) @ skb_body skb" "skb_front p1 = skb_front skb - 4"
      "sk_msg_type p1 = sk_msg_type skb"
    using skb_push_bytes_ok [OF assms(1), of "be_bytes (sk_session skb)"] assms(2) skb_push_bytes_keeps
    by (fastforce simp: push_int_bytes)
  obtain p2 where p2: "push_int (sk_msg_type p1) p1 = Inr p2" "skb_ok p2"
      "skb_body p2 = be_bytes (sk_msg_type p1) @ skb_body p1" "skb_front p2 = skb_front p1 - 4"
    using skb_push_bytes_ok [OF p1(2), of "be_bytes (sk_msg_type p1)"] assms(2) p1(4)
    by (fastforce simp: push_int_bytes)
  obtain p3 where p3: "push_int (sk_len p2) p2 = Inr p3" "skb_ok p3"
      "skb_body p3 = be_bytes (sk_len p2) @ skb_body p2"
    using skb_push_bytes_ok [OF p2(2), of "be_bytes (sk_len p2)"] assms(2) p1(4) p2(4)
    by (fastforce simp: push_int_bytes)
  have "sk_len p2 = of_nat (length (skb_body skb) + 8)"
    using skb_len_body [OF p2(2)] by (simp add: p2(3) p1(3) add_ac)
  then show ?thesis using p1 p2 p3 by (simp add: pack_head_def)
qed

theorem pack_head_layout_example:
  "\<exists>p. pack_head (raw_skb\<lparr>sk_session := 7, sk_msg_type := 2, sk_data_len := 16, sk_block := replicate 16 0,
       sk_head := 0, sk_data := 12, sk_tail := 13, sk_end := 16, sk_len := 1\<rparr>) = Inr p
     \<and> skb_body p = be_bytes 9 @ be_bytes 2 @ be_bytes 7 @ [0]"
proof -
  let ?s = "raw_skb\<lparr>sk_session := 7, sk_msg_type := 2, sk_data_len := 16, sk_block := replicate 16 0,
       sk_head := 0, sk_data := 12, sk_tail := 13, sk_end := 16, sk_len := 1\<rparr>"
  have "skb_ok ?s" "12 \<le> skb_front ?s" "skb_body ?s = [0]"
    by (simp_all add: skb_ok_def skb_front_def skb_body_def)
  then show ?thesis using pack_head_layout [of ?s] by auto
qed

text \<open>A call of \<open>write(2)\<close> that makes progress: it takes a non-empty prefix of what it is given.\<close>

definition takes_prefix :: "('w \<Rightarrow> u8 list) \<Rightarrow> u8 list \<Rightarrow> 'w \<Rightarrow> int \<times> int \<times> 'w \<Rightarrow> bool" where
  "takes_prefix out xs w r =
     (case r of (n, errno, w') \<Rightarrow> 0 < n \<and> n \<le> int (length xs) \<and> out w' = out w @ take (nat n) xs)"

lemma send_loop_ok:
  assumes wr: "\<And>xs w. xs \<noteq> [] \<Longrightarrow> takes_prefix out xs w (os_write fd xs w)"
  shows "p + k + r \<le> length block \<Longrightarrow>
    \<exists>w'. send_loop os_write fd block (int p) (int r) (int k) w = Some (Inr (int (k + r), w'))
      \<and> out w' = out w @ take r (drop (p + k) block)"
proof (induction r arbitrary: k w rule: less_induct)
  case (less r)
  show ?case
  proof (cases "r = 0")
    case True
    then show ?thesis by (subst send_loop.simps) simp
  next
    case False
    let ?xs = "take r (drop (p + k) block)"
    have x: "rdn block (int p + int k) (int r) = Inr ?xs"
      using rdn_nat [of "p + k" r block] less.prems by simp
    have l: "length ?xs = r" using less.prems by simp
    then have ne: "?xs \<noteq> []" using False by auto
    obtain n e w1 where *: "os_write fd ?xs w = (n, e, w1)" by (cases "os_write fd ?xs w") auto
    obtain m where m: "n = int m" "0 < m" "m \<le> r" "out w1 = out w @ take m ?xs"
      using wr [OF ne, of w] unfolding takes_prefix_def * l
      by (auto dest: zero_less_imp_eq_int)
    have "p + (k + m) + (r - m) \<le> length block" using less.prems m(3) by simp
    from less.IH [OF _ this, of w1] m obtain w' where
      w': "send_loop os_write fd block (int p) (int (r - m)) (int (k + m)) w1 = Some (Inr (int (k + m + (r - m)), w'))"
        "out w' = out w1 @ take (r - m) (drop (p + (k + m)) block)" by auto
    have "send_loop os_write fd block (int p) (int r) (int k) w = Some (Inr (int (k + r), w'))"
      using False x * m(1-3) w'(1) by (subst send_loop.simps) (simp add: of_nat_diff)
    moreover have "take m ?xs @ take (r - m) (drop (p + (k + m)) block) = ?xs"
    proof -
      have "take m ?xs @ drop m ?xs = ?xs" by (rule append_take_drop_id)
      moreover have "drop m ?xs = take (r - m) (drop (p + (k + m)) block)"
        by (simp add: drop_take add_ac)
      ultimately show ?thesis by simp
    qed
    ultimately show ?thesis using m(4) w'(2) by simp
  qed
qed

text \<open>
  C12. On a connection where every write takes a non-empty prefix of the bytes, \<open>router_send\<close>
  returns, reports the length it was given, and has sent exactly those bytes, in order and once,
  however the writes were split.
\<close>

theorem router_send_all:
  assumes "\<forall>xs w. xs \<noteq> [] \<longrightarrow> takes_prefix out xs w (os_write fd xs w)"
    and "0 \<le> fd" and "p + n \<le> length block"
  shows "\<exists>w'. router_send os_write fd block (int p) (int n) w = Some (Inr (int n, w'))
    \<and> out w' = out w @ take n (drop p block)"
  using send_loop_ok [of out os_write fd p 0 n block w] assms by (simp add: router_send_def)

theorem router_send_all_witness:
  "\<exists>w'. router_send (\<lambda>fd xs w. (1, 0, w @ take 1 xs)) 3 [1, 2, 3, 4] (int 1) (int 3) [9] = Some (Inr (3, w'))
     \<and> w' = [9, 2, 3, 4 :: u8]"
proof -
  have "\<forall>xs w. xs \<noteq> [] \<longrightarrow> takes_prefix (\<lambda>w. w) xs w ((\<lambda>fd xs w. (1, 0, w @ take 1 xs)) (3 :: int) xs w)"
    by (auto simp: takes_prefix_def Suc_le_eq)
  then have "\<exists>w'. router_send (\<lambda>fd xs w. (1, 0, w @ take 1 xs)) 3 [1, 2, 3, 4] (int 1) (int 3) [9] = Some (Inr (int 3, w'))
      \<and> w' = [9] @ take 3 (drop 1 [1, 2, 3, 4 :: u8])"
    by (rule router_send_all) simp_all
  then show ?thesis by (simp add: eval_nat_numeral)
qed

text \<open>
  A control message that carries one element is never parsed to that element: the index stops
  three bytes too early, so an element without a value makes the loop endless, and any other value
  is followed by a second element made of the last bytes of the message.
\<close>

theorem parse_tlv_single:
  assumes "length v < 2 ^ 16" and "uint h * 256 + uint l = int (length v)"
  shows "router_parse_tlv True (t # h # l # v) (int (length v) + 3)
     \<noteq> Inr (Some [\<lparr>tlv_tag = t, tlv_len = of_nat (length v), tlv_val = v\<rparr>])"
proof
  assume r: "router_parse_tlv True (t # h # l # v) (int (length v) + 3)
     = Inr (Some [\<lparr>tlv_tag = t, tlv_len = of_nat (length v), tlv_val = v\<rparr>])"
  let ?n = "push_bit 8 (ucast h) OR ucast l :: u16"
  have n: "uint ?n = int (length v)" using assms(2) by (simp add: uint_be16)
  have rd: "rd (t # h # l # v) 0 = Inr t" "rd (t # h # l # v) (0 + 1) = Inr h" "rd (t # h # l # v) (0 + 2) = Inr l"
    by (simp_all add: rd_def)
  have "rdn (t # h # l # v) 3 (uint ?n) = Inr v" unfolding n by (simp add: rdn_def)
  with r rd obtain m where "parse_tlv_loop (t # h # l # v) (int (length v) + 3) (0 + uint ?n) ([] @ [m])
      = Inr [\<lparr>tlv_tag = t, tlv_len = of_nat (length v), tlv_val = v\<rparr>]"
    unfolding router_parse_tlv_def by (subst (asm) parse_tlv_loop.simps) (auto simp: Let_def bindR_Inr_iff split: if_splits)
  from parse_tlv_extends [OF this] show False unfolding n by simp
qed

theorem parse_tlv_single_example:
  "router_parse_tlv True [TAG_AG_NAME, 0, 3, 97, 0, 0] 6 \<noteq> Inr (Some [\<lparr>tlv_tag = TAG_AG_NAME, tlv_len = 3, tlv_val = [97, 0, 0]\<rparr>])"
  using parse_tlv_single [of "[97, 0, 0]" 0 3 TAG_AG_NAME] by simp

lemma clear_buffer_end:
  "clear_buffer os_read fd w = Some w' \<Longrightarrow> \<exists>v. fst (fst (os_read fd 100 v)) = 0"
proof (erule clear_buffer.raw_induct [where P = "\<lambda>r fd w w'. \<exists>v. fst (fst (r fd 100 v)) = 0", rotated])
  fix f :: "(int \<Rightarrow> int \<Rightarrow> 'a \<Rightarrow> (int \<times> u8 list) \<times> 'a) \<Rightarrow> int \<Rightarrow> 'a \<Rightarrow> 'a option" and r fd w w'
  assume IH: "\<And>r fd w y. f r fd w = Some y \<Longrightarrow> \<exists>v. fst (fst (r fd 100 v)) = 0"
    and step: "(case r fd 100 w of ((n, xs), w') \<Rightarrow> if n \<noteq> 0 then f r fd w' else Some w') = Some w'"
  obtain n xs v where r: "r fd 100 w = ((n, xs), v)" by (metis prod.collapse)
  show "\<exists>v. fst (fst (r fd 100 v)) = 0"
  proof (cases "n = 0")
    case True
    then show ?thesis using r by (intro exI [of _ w]) simp
  next
    case False
    then show ?thesis using r step by (intro IH [of r fd v w']) simp
  qed
qed

text \<open>
  Receiving a packet never ends: reading to a small integer fails with \<open>EFAULT\<close>, and
  discarding the input then waits for the end of the stream, which an open connection does not
  reach.
\<close>

theorem router_do_read_never:
  assumes "\<forall>a w. 0 \<le> a \<and> a < 256 \<longrightarrow> fst (read_at fd a 4 w) = -1"
    and "\<forall>w. fst (fst (os_read fd 100 w)) \<noteq> 0"
  shows "router_do_read read_at os_read (b # buf) fd w = None"
proof -
  have "uint b < 2 ^ 8" by (rule order_less_le_trans [OF unsigned_less]) simp
  then have "fst (read_at fd (uint b) 4 w) = -1" using assms(1) by simp
  then obtain w1 where "read_at fd (uint b) 4 w = (-1, w1)" by (cases "read_at fd (uint b) 4 w") simp
  moreover have "clear_buffer os_read fd w' = None" for w'
    using clear_buffer_end [of os_read fd w'] assms(2) by (cases "clear_buffer os_read fd w'") auto
  ultimately show ?thesis by (simp add: router_do_read_def rd_def)
qed

theorem router_do_read_never_example:
  "router_do_read (\<lambda>fd a n w. (-1, w)) (\<lambda>fd n w. ((-1, []), w)) [0, 0, 0, 0] 5 () = None"
  by (rule router_do_read_never) simp_all

end
