(* ===== verification/Bc_Data.thy ===== *)
theory Bc_Data
  imports Tsm_Ccb
begin

text \<open>
  \<open>bc_data.c\<close>: the byte codes that move data between responses, script parameters and the
  variables of a session. Each takes the control block, the response fragments and the argument
  array, and returns its code and the control block after it. Allocations succeed here. Where the
  source passes a pointer to an \<open>fmBytes\<close> structure as a string, the key is the bytes of the
  structure itself (little-endian). The table stores the pointer to a key; here the key is the string
  it points to, that is, the table is what its lookups see while the memory of the keys stays as it
  is. It does for the parameters of the script and for the names of \<open>data_extract\<close>;
  what becomes of the key of \<open>data_concat\<close>, a buffer of another variable, is in \<open>Bc_Keys\<close>.
\<close>

section \<open>Shared steps\<close>

text \<open>The indices of \<open>for(i = 0; i < n; i += d)\<close>.\<close>

definition for_idx :: "nat \<Rightarrow> int \<Rightarrow> int list" where
  "for_idx d n = map (\<lambda>k. int (d * k)) [0..<nat ((n + int d - 1) div int d)]"

definition put_var :: "u8 list \<Rightarrow> fmBytes option \<Rightarrow> tsm_ccb \<Rightarrow> tsm_ccb res" where
  "put_var key data c =
     bindR (ccb_get_bre (Some c)) (\<lambda>bre. bindR (deref bre) (\<lambda>t.
     bindR (zc_hashtable_put True True t key data) (\<lambda>(rc, t). Inr (c\<lparr>cc_bre := Some t\<rparr>))))"

text \<open>The first eight bytes of an \<open>fmBytes\<close>: \<open>size\<close>, then \<open>leng\<close>.\<close>

definition fb_struct :: "fmBytes \<Rightarrow> u8 list" where
  "fb_struct p = le_bytes (of_int (fb_size p)) @ le_bytes (of_int (fb_leng p))"

definition arg_at :: "fmBytes_array \<Rightarrow> int \<Rightarrow> fmBytes option res" where
  "arg_at arg i = rd (fa_array arg) i"

text \<open>\<open>arg->array[i]->buf\<close> as a string.\<close>

definition arg_buf :: "fmBytes_array \<Rightarrow> int \<Rightarrow> u8 list res" where
  "arg_buf arg i = bindR (arg_at arg i) (\<lambda>p. bindR (deref p) (\<lambda>q. deref (fb_buf q)))"

text \<open>\<open>arg->array[i]\<close> itself as a string.\<close>

definition arg_struct :: "fmBytes_array \<Rightarrow> int \<Rightarrow> u8 list res" where
  "arg_struct arg i = bindR (arg_at arg i) (\<lambda>p. bindR (deref p) (\<lambda>q. Inr (fb_struct q)))"

section \<open>Looking into a framed packet\<close>

lemma get_Tag_Ax_len_pos: "get_Tag_Ax_len b p = Inr n \<Longrightarrow> 0 \<le> n"
  by (auto simp: get_Tag_Ax_len_def bindR_Inr_iff split: if_splits)

lemma skip_Tag_Ax_pos: "skip_Tag_Ax b p = Inr q \<Longrightarrow> p < q"
  by (auto simp: skip_Tag_Ax_def bindR_Inr_iff split: if_splits)

function tag_A0_loop :: "u8 list \<Rightarrow> u8 \<Rightarrow> int \<Rightarrow> int \<Rightarrow> fmBytes option res" where
  "tag_A0_loop b seq e point =
     (if point < e
      then bindR (rd b point) (\<lambda>t.
        if t = 0xA0
        then bindR (get_Tag_Ax_len b point) (\<lambda>len.
             bindR (skip_Tag_Ax b point) (\<lambda>point'.
             bindR (rd b point') (\<lambda>s.
               if s = seq
               then bindR (deref (fmBytes_alloc True True (len - 3))) (\<lambda>data.
                    bindR (rdn b (point' + 1) (len - 3)) (\<lambda>xs.
                    bindR (deref (fb_buf data)) (\<lambda>buf. bindR (wrn buf 0 xs) (\<lambda>buf.
                      Inr (Some (data\<lparr>fb_buf := Some buf, fb_leng := len - 3\<rparr>))))))
               else tag_A0_loop b seq e (point' + len))))
        else Inr None)
      else Inr None)"
  by pat_completeness auto
termination
  by (relation "measure (\<lambda>(b, seq, e, point). nat (e - point))")
    (auto dest!: get_Tag_Ax_len_pos skip_Tag_Ax_pos)

declare tag_A0_loop.simps [simp del]

definition get_Tag_A0_at :: "u8 list \<Rightarrow> int \<Rightarrow> u8 \<Rightarrow> fmBytes option res" where
  "get_Tag_A0_at b p seq =
     bindR (get_Tag_Ax_len b p) (\<lambda>len. bindR (skip_Tag_Ax b p) (\<lambda>point.
       tag_A0_loop b seq (point + len) point))"

section \<open>Byte codes\<close>

type_synonym bytecode = "tsm_ccb \<Rightarrow> fmBytes_array option \<Rightarrow> fmBytes_array \<Rightarrow> (int \<times> tsm_ccb) res"

definition data_request :: bytecode where
  "data_request CCB rsp arg = Inr (0, CCB)"

definition data_set :: bytecode where
  "data_set CCB rsp arg =
     (if fa_cnt arg mod 2 \<noteq> 0 then Inr (-1, CCB)
      else bindR (foldR (\<lambda>i c.
        bindR (arg_at arg i) (\<lambda>a. bindR (fmBytes_get_length a) (\<lambda>n.
        bindR (hexstr_to_hex a (fmBytes_alloc True True (half n))) (\<lambda>(rc, hex).
        bindR (arg_struct arg (i + 1)) (\<lambda>key. put_var key hex c)))))
        (for_idx 2 (fa_cnt arg)) CCB) (\<lambda>c. Inr (0, c)))"

text \<open>
  \<open>ret i\<close> is the indeterminate start value of the conversion of argument \<open>i\<close>. The name is copied
  nowhere: the key is a zeroed block one longer than the name argument.
\<close>

definition data_extract_rsp :: "(int \<Rightarrow> u32) \<Rightarrow> bytecode" where
  "data_extract_rsp ret CCB rsp arg =
     (if fa_cnt arg mod 4 \<noteq> 0 then Inr (-1, CCB)
      else bindR (foldR (\<lambda>i c.
        bindR (arg_at arg i) (\<lambda>a0. bindR (fmBytes2intBE (ret i) a0) (\<lambda>frm.
        bindR (arg_at arg (i + 1)) (\<lambda>a1. bindR (fmBytes2intBE (ret (i + 1)) a1) (\<lambda>st.
        bindR (arg_at arg (i + 2)) (\<lambda>a2. bindR (fmBytes2intBE (ret (i + 2)) a2) (\<lambda>en.
        bindR (arg_at arg (i + 3)) (\<lambda>a3. bindR (fmBytes_get_length a3) (\<lambda>name_len.
        bindR (deref rsp) (\<lambda>r. bindR (rd (fa_array r) (sint frm)) (\<lambda>raw.
        let n = sint en - sint st + 1 in
        bindR (fmBytes_copy (fmBytes_alloc True True n) 0 raw (sint st) n) (\<lambda>(rc, data).
          put_var (replicate (nat (name_len + 1)) 0) data c))))))))))))
        (for_idx 4 (fa_cnt arg)) CCB) (\<lambda>c. Inr (0, c)))"

definition data_extract :: "(int \<Rightarrow> u32) \<Rightarrow> bytecode" where
  "data_extract ret CCB rsp arg =
     (if fa_cnt arg mod 4 \<noteq> 0 then Inr (-1, CCB)
      else bindR (foldR (\<lambda>i c.
        bindR (arg_struct arg i) (\<lambda>key. bindR (data_get_by_name (Some c) key) (\<lambda>raw.
        bindR (arg_at arg (i + 1)) (\<lambda>a1. bindR (fmBytes2intBE (ret (i + 1)) a1) (\<lambda>st.
        bindR (arg_at arg (i + 2)) (\<lambda>a2. bindR (fmBytes2intBE (ret (i + 2)) a2) (\<lambda>en.
        bindR (arg_at arg (i + 3)) (\<lambda>a3. bindR (fmBytes_get_length a3) (\<lambda>name_len.
        let n = sint en - sint st + 1 in
        bindR (fmBytes_copy (fmBytes_alloc True True n) 0 raw (sint st) n) (\<lambda>(rc, data).
          put_var (replicate (nat (name_len + 1)) 0) data c))))))))))
        (for_idx 4 (fa_cnt arg)) CCB) (\<lambda>c. Inr (0, c)))"

definition data_add_len :: bytecode where
  "data_add_len CCB rsp arg = Inr (5, CCB)"

text \<open>The value of the variable a string argument names.\<close>

definition arg_var :: "tsm_ccb \<Rightarrow> fmBytes_array \<Rightarrow> int \<Rightarrow> fmBytes option res" where
  "arg_var c arg i = bindR (arg_buf arg i) (\<lambda>name. data_get_by_name (Some c) name)"

definition data_concat :: bytecode where
  "data_concat CCB rsp arg =
     bindR (foldR (\<lambda>i len. bindR (arg_var CCB arg i) (\<lambda>sub.
              bindR (fmBytes_get_length sub) (\<lambda>n. Inr (len + n))))
            (for_idx 1 (fa_cnt arg - 1)) 0) (\<lambda>len.
     bindR (arg_var CCB arg (max 0 (fa_cnt arg - 1))) (\<lambda>name.
     bindR (foldR (\<lambda>i (des, offset). bindR (arg_var CCB arg i) (\<lambda>sub.
              bindR (fmBytes_get_length sub) (\<lambda>n.
              bindR (fmBytes_copy des offset sub 0 n) (\<lambda>(rc, des). Inr (des, offset + n)))))
            (for_idx 1 (fa_cnt arg - 1)) (fmBytes_alloc True True len, 0)) (\<lambda>(des, offset).
     bindR (deref name) (\<lambda>nm. bindR (deref (fb_buf nm)) (\<lambda>key.
     bindR (put_var key des CCB) (\<lambda>c. Inr (0, c)))))))"

fun not_loop :: "u8 list \<Rightarrow> u8 list \<Rightarrow> int \<Rightarrow> nat \<Rightarrow> u8 list res" where
  "not_loop str0 str1 j 0 = Inr str1"
| "not_loop str0 str1 j (Suc n) =
     bindR (rd str0 j) (\<lambda>x. bindR (wr str1 j (NOT x)) (\<lambda>str1. not_loop str0 str1 (j + 1) n))"

definition data_reverse :: bytecode where
  "data_reverse CCB rsp arg =
     (if fa_cnt arg mod 2 \<noteq> 0 then Inr (-1, CCB)
      else bindR (foldR (\<lambda>i c.
        bindR (arg_var c arg i) (\<lambda>src. bindR (arg_at arg (i + 1)) (\<lambda>des.
        bindR (fmBytes_get_length src) (\<lambda>len.
        let des_data = fmBytes_alloc True True len in
        bindR (if len \<le> 0 then Inr des_data
               else bindR (deref (fmBytes_get_buf src)) (\<lambda>str0.
                    bindR (deref (fmBytes_get_buf des_data)) (\<lambda>str1.
                    bindR (not_loop str0 str1 0 (nat len)) (\<lambda>str1.
                      Inr (fmBytes_set_buf des_data (Some str1)))))) (\<lambda>des_data.
        bindR (arg_buf arg (i + 1)) (\<lambda>key. put_var key des_data c))))))
        (for_idx 2 (fa_cnt arg)) CCB) (\<lambda>c. Inr (0, c)))"

section \<open>The variables of a session\<close>

definition vars_ok :: "tsm_ccb \<Rightarrow> bool" where
  "vars_ok c \<longleftrightarrow> (case cc_bre c of None \<Rightarrow> False | Some t \<Rightarrow> str_ht_ok t)"

definition vars :: "tsm_ccb \<Rightarrow> u8 list \<Rightarrow> fmBytes option option" where
  "vars c = (case cc_bre c of None \<Rightarrow> Map.empty | Some t \<Rightarrow> ht_map cstr t)"

lemma data_get_by_name_ok:
  assumes "vars_ok c" and "terminated k"
  shows "data_get_by_name (Some c) k = Inr (case vars c (cstr k) of Some v \<Rightarrow> v | None \<Rightarrow> None)"
  using assms
  by (auto simp: vars_ok_def vars_def data_get_by_name_def ccb_get_bre_def str_get_ok split: option.splits)

lemma put_var_ok:
  assumes "vars_ok c" and "terminated k"
  shows "\<exists>c'. put_var k d c = Inr c' \<and> vars_ok c' \<and> vars c' = (vars c)(cstr k \<mapsto> d)"
proof -
  obtain t where t: "cc_bre c = Some t" "str_ht_ok t"
    using assms(1) by (auto simp: vars_ok_def split: option.splits)
  obtain t' where "zc_hashtable_put True True t k d = Inr (0, t')" "str_ht_ok t'"
      "ht_map cstr t' = (ht_map cstr t)(cstr k \<mapsto> d)"
    using strkeys.put_ok [of t k True True d] t(2) assms(2) unfolding str_ht_ok_def by auto
  then show ?thesis using t(1)
    by (simp add: put_var_def ccb_get_bre_def vars_ok_def vars_def)
qed

text \<open>A structure smaller than 256 bytes, read as a string, is its size as one character.\<close>

lemma fb_struct_key:
  assumes "0 < fb_size p" and "fb_size p < 256"
  shows "terminated (fb_struct p)" and "cstr (fb_struct p) = [of_int (fb_size p)]"
proof -
  obtain n where n: "fb_size p = int n" "0 < n" "n < 256"
    using assms by (metis nonneg_int_cases of_nat_less_numeral_iff of_nat_0_less_iff order_less_imp_le)
  have d: "drop_bit k (of_nat n :: u32) = 0" if "8 \<le> k" for k
  proof -
    have "n div 2 ^ k = 0" using n(3) power_increasing [OF that, of "2 :: nat"] by simp
    moreover have "unat (of_nat n :: u32) = n" using n(3) by (simp add: unat_of_nat)
    ultimately have "unat (drop_bit k (of_nat n :: u32)) = 0"
      by (simp only: unat_drop_bit_eq drop_bit_eq_div [where ?'a = nat])
    then show ?thesis by (simp only: unat_eq_zero)
  qed
  have u: "(ucast (of_nat n :: u32) :: u8) = of_nat n"
    by (rule word_unat_eq_iff [THEN iffD2]) (simp add: unsigned_ucast_eq unsigned_of_nat)
  have nz: "(of_nat n :: u8) \<noteq> 0" using n(2,3) by (simp add: word_unat_eq_iff unat_of_nat)
  have "fb_struct p = of_nat n # 0 # 0 # 0 # le_bytes (of_int (fb_leng p))"
    by (simp add: fb_struct_def le_bytes_def n(1) d u)
  then show "terminated (fb_struct p)" "cstr (fb_struct p) = [of_int (fb_size p)]"
    using nz by (simp_all add: terminated_def cstr_def n(1))
qed

lemma for_idx_pair [simp]: "for_idx 2 2 = [0]" "for_idx 4 4 = [0]"
  by (simp_all add: for_idx_def)

lemma copy_whole:
  assumes "fb_ok d" and "fb_ok s" and "fb_leng d + fb_leng s \<le> fb_size d"
  shows "\<exists>d'. fmBytes_copy (Some d) (fb_leng d) (Some s) 0 (fb_leng s) = Inr (0, Some d')
     \<and> fb_ok d' \<and> fb_bytes d' = fb_bytes d @ fb_bytes s \<and> fb_size d' = fb_size d
     \<and> fb_leng d' = fb_leng d + fb_leng s"
proof -
  obtain sb db where b: "fb_buf s = Some sb" "fb_buf d = Some db" "0 \<le> fb_leng s"
    using assms by (auto elim!: fb_okE)
  have l: "int (length (fb_bytes s)) = fb_leng s" by (rule fb_bytes_length [OF assms(2)])
  have n: "nat (fb_leng s) = length (fb_bytes s)" using l by linarith
  have "rdn (the (fb_buf s)) 0 (fb_leng s) = Inr (take (nat (fb_leng s)) (drop (nat 0) (fb_bytes s)))"
    by (rule fb_slice [OF assms(2)]) (use b(3) in auto)
  then have "rdn sb 0 (fb_leng s) = Inr (fb_bytes s)" unfolding n b(1) by simp
  moreover obtain b' where "wrn db (fb_leng d) (fb_bytes s) = Inr b'"
      "fb_ok (d\<lparr>fb_buf := Some b', fb_leng := fb_leng d + fb_leng s\<rparr>)"
      "fb_bytes (d\<lparr>fb_buf := Some b', fb_leng := fb_leng d + fb_leng s\<rparr>) = fb_bytes d @ fb_bytes s"
    using fb_append [OF assms(1), of "fb_bytes s"] assms(3) l b(2) by auto
  ultimately show ?thesis using b assms(3) by (simp add: fmBytes_copy_def)
qed

lemma not_loop_ok:
  "j + n \<le> length a \<Longrightarrow> j + n \<le> length b \<Longrightarrow>
   not_loop a b (int j) n = Inr (take j b @ map (\<lambda>x. NOT x) (take n (drop j a)) @ drop (j + n) b)"
proof (induction n arbitrary: j b)
  case (Suc n)
  let ?b = "b[j := NOT (a ! j)]"
  have "not_loop a ?b (int (Suc j)) n
      = Inr (take (Suc j) ?b @ map (\<lambda>x. NOT x) (take n (drop (Suc j) a)) @ drop (Suc j + n) ?b)"
    using Suc by (intro Suc.IH) auto
  moreover have "take (Suc j) ?b = take j b @ [NOT (a ! j)]"
    using Suc.prems by (simp add: take_Suc_conv_app_nth)
  moreover have "drop j a = a ! j # drop (Suc j) a"
    using Suc.prems by (simp add: Cons_nth_drop_Suc)
  ultimately show ?case
    using Suc.prems by (simp add: rd_nat wr_nat add.commute)
qed simp

lemma len_byte:
  assumes "n < 255"
  shows "uint (of_nat n :: u8) = int n" and "(of_nat n :: u8) \<noteq> 0xFF"
proof -
  show u: "uint (of_nat n :: u8) = int n"
    using assms by (simp add: unsigned_of_nat take_bit_nat_eq_self)
  show "(of_nat n :: u8) \<noteq> 0xFF"
  proof
    assume "(of_nat n :: u8) = 0xFF"
    then have "int n = uint (0xFF :: u8)" using u by metis
    then show False using assms by simp
  qed
qed

lemma tag_A0_at:
  fixes pre post xs :: "u8 list" and s seq :: u8
  defines "b \<equiv> pre @ (0xA0 # of_nat (length xs + 1) # s # xs) @ post"
  assumes "length xs < 254" and "int (length pre) < e"
  shows "s \<noteq> seq \<Longrightarrow> tag_A0_loop b seq e (int (length pre)) = tag_A0_loop b seq e (int (length pre + 3 + length xs))"
    and "s = seq \<Longrightarrow> 2 \<le> length xs \<Longrightarrow>
      tag_A0_loop b seq e (int (length pre)) = Inr (Some (fb_of (take (length xs - 2) xs)))"
proof -
  let ?p = "int (length pre)"
  have ne: "(of_nat (length xs + 1) :: u8) \<noteq> 0xFF" and u: "uint (of_nat (length xs + 1) :: u8) = int (length xs) + 1"
    using len_byte [of "length xs + 1"] assms(2) by (auto simp del: of_nat_Suc of_nat_add)
  have r: "rd b ?p = Inr 0xA0" "rd b (?p + 1) = Inr (of_nat (length xs + 1))" "rd b (?p + 2) = Inr s"
    by (simp_all add: b_def rd_def nth_append nat_add_distrib)
  have g: "get_Tag_Ax_len b ?p = Inr (int (length xs) + 1)"
    using r(2) ne u by (simp add: get_Tag_Ax_len_def del: of_nat_Suc of_nat_add)
  have k: "skip_Tag_Ax b ?p = Inr (?p + 2)"
    using r(2) ne by (simp add: skip_Tag_Ax_def del: of_nat_Suc of_nat_add)
  show "tag_A0_loop b seq e ?p = tag_A0_loop b seq e (int (length pre + 3 + length xs))" if "s \<noteq> seq"
    using that assms(3) r(1,3) g k by (subst tag_A0_loop.simps) (simp add: algebra_simps)
  show "tag_A0_loop b seq e ?p = Inr (Some (fb_of (take (length xs - 2) xs)))"
    if s: "s = seq" and two: "2 \<le> length xs"
  proof -
    obtain m where m: "length xs = m + 2" using two by (metis add.commute le_iff_add)
    have n: "int (length xs) + 1 - 3 = int m" using m by simp
    have l: "length b = length pre + 3 + length xs + length post" by (simp add: b_def)
    have "take m (drop (length pre + 3) b) = take m xs" using m by (simp add: b_def)
    then have "rdn b (int (length pre + 3)) (int m) = Inr (take m xs)"
      using m l by (subst rdn_nat) simp_all
    moreover have "?p + 2 + 1 = int (length pre + 3)" by simp
    ultimately have "rdn b (?p + 2 + 1) (int m) = Inr (take m xs)" by (simp only:)
    moreover have "length (take m xs) = m" using m by simp
    ultimately show ?thesis
      using s assms(3) r(1,3) g k n m
      by (subst tag_A0_loop.simps) (simp add: fmBytes_alloc_def wrn_def fb_of_def)
  qed
qed

text \<open>A list of numbered fragments as the agents frame them.\<close>

fun A0_enc :: "(u8 \<times> u8 list) list \<Rightarrow> u8 list" where
  "A0_enc [] = []"
| "A0_enc ((s, xs) # fs) = (0xA0 # of_nat (length xs + 1) # s # xs) @ A0_enc fs"

lemma A0_enc_append: "A0_enc (fs @ gs) = A0_enc fs @ A0_enc gs"
  by (induction fs rule: A0_enc.induct) auto

lemma tag_A0_loop_finds:
  "map_of fs seq = Some xs \<Longrightarrow> \<forall>(s, ys)\<in>set fs. length ys < 254 \<Longrightarrow> 2 \<le> length xs \<Longrightarrow>
   tag_A0_loop (pre @ A0_enc fs @ post) seq (int (length pre + length (A0_enc fs))) (int (length pre))
     = Inr (Some (fb_of (take (length xs - 2) xs)))"
proof (induction fs arbitrary: pre rule: A0_enc.induct)
  case (2 s ys fs)
  let ?h = "0xA0 # of_nat (length ys + 1) # s # ys"
  let ?e = "int (length pre + length (A0_enc ((s, ys) # fs)))"
  have ys: "length ys < 254" using "2.prems"(2) by simp
  note at = tag_A0_at [where xs = ys and pre = pre and e = ?e and s = s and post = "A0_enc fs @ post" and seq = seq,
      OF ys]
  show ?case
  proof (cases "s = seq")
    case True
    then show ?thesis using at(2) "2.prems" by simp
  next
    case False
    have "tag_A0_loop ((pre @ ?h) @ A0_enc fs @ post) seq (int (length (pre @ ?h) + length (A0_enc fs)))
        (int (length (pre @ ?h))) = Inr (Some (fb_of (take (length xs - 2) xs)))"
      using "2.prems" False by (intro "2.IH") auto
    then show ?thesis using at(1) False by (simp add: ac_simps)
  qed
qed simp

section \<open>Properties\<close>

text \<open>
  Looking up a fragment by its number in a well-formed A1 packet returns the data of the first
  fragment with that number without the two status bytes at its end.
\<close>

theorem get_Tag_A0_at_finds:
  assumes "map_of fs seq = Some xs" and "\<forall>(s, ys)\<in>set fs. length ys < 254" and "2 \<le> length xs"
    and "length (A0_enc fs) < 255"
  shows "get_Tag_A0_at (0xA1 # of_nat (length (A0_enc fs)) # A0_enc fs @ post) 0 seq
     = Inr (Some (fb_of (take (length xs - 2) xs)))"
proof -
  let ?n = "of_nat (length (A0_enc fs)) :: u8"
  note u = len_byte [OF assms(4)]
  show ?thesis
    using tag_A0_loop_finds [OF assms(1,2,3), of "[0xA1, ?n]" post] u
    by (simp add: get_Tag_A0_at_def get_Tag_Ax_len_def skip_Tag_Ax_def rd_def add.commute)
qed

theorem get_Tag_A0_at_finds_example:
  "get_Tag_A0_at [0xA1, 11, 0xA0, 3, 1, 0x90, 0, 0xA0, 4, 2, 0x6F, 0x90, 0] 0 2 = Inr (Some (fb_of [0x6F]))"
proof -
  have "get_Tag_A0_at (0xA1 # of_nat (length (A0_enc [(1, [0x90, 0]), (2, [0x6F, 0x90, 0])]))
      # A0_enc [(1, [0x90, 0]), (2, [0x6F, 0x90, 0])] @ []) 0 2 = Inr (Some (fb_of (take 1 [0x6F, 0x90, 0])))"
    using get_Tag_A0_at_finds [of "[(1, [0x90, 0]), (2, [0x6F, 0x90, 0])]" 2 "[0x6F, 0x90, 0]" "[]"] by simp
  then show ?thesis by simp
qed

text \<open>A control block with one variable, \<open>a\<close>, for the witnesses.\<close>

definition demo_ccb :: "fmBytes \<Rightarrow> tsm_ccb" where
  "demo_ccb v = \<lparr>cc_PC = 0, cc_write_back = 0, cc_bootstrap = 0, cc_session = 1, cc_cmdQ = [],
     cc_apduQ = [], cc_bc = None, cc_se = None,
     cc_bre = map_option (ht_put [97, 0] (Some v))
       (zc_hashtable_new True True 64 zc_hashtable_str_hash zc_hashtable_str_equal False True)\<rparr>"

lemma demo_ccb: "vars_ok (demo_ccb v)" "vars (demo_ccb v) = [[97] \<mapsto> Some v]"
proof -
  obtain t :: "(u8 list, fmBytes) hashtable" where
    t: "zc_hashtable_new True True 64 zc_hashtable_str_hash zc_hashtable_str_equal False True = Some t"
      "str_ht_ok t" "ht_map cstr t = Map.empty"
    using str_ht_new [of 64 False True] by auto
  have k: "terminated [97, 0]" "cstr [97, 0] = [97]" by (simp_all add: terminated_def cstr_def)
  show "vars_ok (demo_ccb v)" "vars (demo_ccb v) = [[97] \<mapsto> Some v]"
    using strtab.put_ok [OF t(2) k(1)] strtab.put_lookup [OF t(2) k(1)] t k(2)
    by (simp_all add: demo_ccb_def vars_ok_def vars_def)
qed

text \<open>
  \<open>data_set\<close> decodes the digits of its first argument, but does not store them under its
  second one: the name is the byte that holds the size of the name's buffer. Every variable
  with another name keeps its value, and all names of one length are the same variable.
\<close>

theorem data_set_names_by_size:
  assumes "vars_ok c" and "fb_ok h" and "even (length (fb_bytes h))"
    and "0 < fb_size nm" and "fb_size nm < 256" and "terminated k"
  shows "\<exists>c' v. data_set c rsp \<lparr>fa_size = n, fa_cnt = 2, fa_array = [Some h, Some nm]\<rparr> = Inr (0, c')
     \<and> fb_bytes v = bcd_decode (fb_bytes h)
     \<and> data_get_by_name (Some c') k
         = (if cstr k = [of_int (fb_size nm)] then Inr (Some v) else data_get_by_name (Some c) k)"
proof -
  have len: "fb_leng h = int (length (fb_bytes h))" using fb_bytes_length [OF assms(2)] by simp
  have half: "half (fb_leng h) = int (length (fb_bytes h) div 2)" by (simp add: len half_def zdiv_int)
  obtain d where d: "fmBytes_alloc True True (half (fb_leng h)) = Some d"
    by (simp add: fmBytes_alloc_def half)
  obtain v where v: "hexstr_to_hex (Some h) (Some d) = Inr (0, Some v)" "fb_bytes v = bcd_decode (fb_bytes h)"
    using hexstr_to_hex_even [OF assms(2) _ assms(3), of d] fmBytes_alloc_ok [OF d] half by auto
  obtain c' where c': "put_var (fb_struct nm) (Some v) c = Inr c'" "vars_ok c'"
      "vars c' = (vars c)([of_int (fb_size nm)] \<mapsto> Some v)"
    using put_var_ok [OF assms(1) fb_struct_key(1) [OF assms(4,5)]] fb_struct_key(2) [OF assms(4,5)] by auto
  have "data_set c rsp \<lparr>fa_size = n, fa_cnt = 2, fa_array = [Some h, Some nm]\<rparr> = Inr (0, c')"
    using d v(1) c'(1) by (simp add: data_set_def arg_at_def arg_struct_def rd_def)
  then show ?thesis
    using v(2) c'(2,3) data_get_by_name_ok [OF _ assms(6)] assms(1) by (intro exI [of _ c'] exI [of _ v]) simp
qed

theorem data_set_names_by_size_example:
  "\<exists>c' v. data_set (demo_ccb (fb_of [1])) None
       \<lparr>fa_size = 2, fa_cnt = 2, fa_array = [Some (fb_of [0x39, 0x30]), Some (fb_of [120, 121])]\<rparr> = Inr (0, c')
     \<and> fb_bytes v = [0x90] \<and> data_get_by_name (Some c') [2, 0] = Inr (Some v)"
  using data_set_names_by_size [OF demo_ccb(1) fb_of_ok, of "[0x39, 0x30]" "fb_of [120, 121]" "[2, 0]"
      "fb_of [1]" None 2]
  by (simp add: terminated_def cstr_def hex_pair_def)

text \<open>
  \<open>data_reverse\<close> stores the bitwise complement of the source variable (it does not reverse
  the order of its bytes), in a buffer whose length it leaves at 0.
\<close>

theorem data_reverse_complements:
  assumes "vars_ok c" and "terminated src" and "vars c (cstr src) = Some (Some v)" and "fb_ok v"
    and "terminated des"
  shows "\<exists>c' w. data_reverse c rsp \<lparr>fa_size = n, fa_cnt = 2, fa_array = [Some (fb_of src), Some (fb_of des)]\<rparr>
       = Inr (0, c')
     \<and> fb_buf w = Some (map (\<lambda>x. NOT x) (fb_bytes v)) \<and> fb_leng w = 0 \<and> data_get_by_name (Some c') des = Inr (Some w)"
proof -
  obtain b where b: "fb_buf v = Some b" "0 \<le> fb_leng v" "nat (fb_leng v) \<le> length b"
      "fb_bytes v = take (nat (fb_leng v)) b"
    using assms(4) by (auto elim!: fb_okE)
  let ?m = "nat (fb_leng v)"
  let ?w = "\<lparr>fb_size = fb_leng v, fb_leng = 0, fb_buf = Some (map (\<lambda>x. NOT x) (take ?m b))\<rparr>"
  have nl: "not_loop b (replicate ?m 0) 0 ?m = Inr (map (\<lambda>x. NOT x) (take ?m b))"
    using not_loop_ok [of 0 ?m b "replicate ?m 0"] b(3) by simp
  have src: "data_get_by_name (Some c) src = Inr (Some v)"
    using data_get_by_name_ok [OF assms(1,2)] assms(3) by simp
  obtain c' where c': "put_var des (Some ?w) c = Inr c'" "vars_ok c'" "vars c' (cstr des) = Some (Some ?w)"
    using put_var_ok [OF assms(1,5), of "Some ?w"] by auto
  have "data_reverse c rsp \<lparr>fa_size = n, fa_cnt = 2, fa_array = [Some (fb_of src), Some (fb_of des)]\<rparr> = Inr (0, c')"
    using src nl b(1,2) c'(1)
    by (cases "fb_leng v = 0") (simp_all add: data_reverse_def arg_at_def arg_var_def arg_buf_def rd_def
        fmBytes_alloc_def fmBytes_set_buf_def)
  then show ?thesis
    using c'(3) data_get_by_name_ok [OF c'(2) assms(5)] b(4) by (intro exI [of _ c'] exI [of _ ?w]) simp
qed

theorem data_reverse_complements_example:
  "\<exists>c' w. data_reverse (demo_ccb (fb_of [1, 0xF0])) None
       \<lparr>fa_size = 2, fa_cnt = 2, fa_array = [Some (fb_of [97, 0]), Some (fb_of [98, 0])]\<rparr> = Inr (0, c')
     \<and> fb_buf w = Some [NOT 1, NOT 0xF0] \<and> fb_leng w = 0 \<and> data_get_by_name (Some c') [98, 0] = Inr (Some w)"
  using data_reverse_complements [where c = "demo_ccb (fb_of [1, 0xF0])" and src = "[97, 0]" and des = "[98, 0]"
      and v = "fb_of [1, 0xF0]" and rsp = None and n = 2]
  by (simp add: demo_ccb terminated_def cstr_def)

lemma for_idx_1: "for_idx (Suc 0) (int n) = map int [0..<n]"
  by (simp add: for_idx_def)

lemma concat_lengths:
  assumes "\<And>i. i < n \<Longrightarrow> arg_var c arg (int i) = Inr (Some (vs ! i))" and "n \<le> length vs"
  shows "foldR (\<lambda>i len. bindR (arg_var c arg i) (\<lambda>sub. bindR (fmBytes_get_length sub) (\<lambda>n. Inr (len + n))))
           (map int [0..<n]) 0 = Inr (sum_list (map fb_leng (take n vs)))"
  using assms
  by (induction n) (simp_all add: foldR_append take_Suc_conv_app_nth)

lemma concat_copies:
  assumes "\<And>i. i < n \<Longrightarrow> arg_var c arg (int i) = Inr (Some (vs ! i))" and "n \<le> length vs"
    and "\<forall>v\<in>set vs. fb_ok v" and "fb_ok d" and "fb_bytes d = []"
    and "sum_list (map fb_leng (take n vs)) \<le> fb_size d"
  shows "\<exists>d'. foldR (\<lambda>i (des, offset). bindR (arg_var c arg i) (\<lambda>sub.
              bindR (fmBytes_get_length sub) (\<lambda>n.
              bindR (fmBytes_copy des offset sub 0 n) (\<lambda>(rc, des). Inr (des, offset + n)))))
           (map int [0..<n]) (Some d, 0) = Inr (Some d', fb_leng d') \<and> fb_ok d'
     \<and> fb_bytes d' = concat (map fb_bytes (take n vs)) \<and> fb_size d' = fb_size d
     \<and> fb_leng d' = sum_list (map fb_leng (take n vs))"
  using assms
proof (induction n)
  case 0
  have "fb_leng d = 0" using fb_bytes_length [OF assms(4)] assms(5) by simp
  then show ?case using assms(4,5) by simp
next
  case (Suc n)
  have v: "fb_ok (vs ! n)" "vs ! n \<in> set vs" using Suc.prems by auto
  have "0 \<le> fb_leng (vs ! n)" using v(1) by (auto elim!: fb_okE)
  then have le: "sum_list (map fb_leng (take n vs)) + fb_leng (vs ! n) \<le> fb_size d"
      "sum_list (map fb_leng (take n vs)) \<le> fb_size d"
    using Suc.prems(2,6) by (simp_all add: take_Suc_conv_app_nth)
  obtain e where e: "foldR (\<lambda>i (des, offset). bindR (arg_var c arg i) (\<lambda>sub.
              bindR (fmBytes_get_length sub) (\<lambda>n.
              bindR (fmBytes_copy des offset sub 0 n) (\<lambda>(rc, des). Inr (des, offset + n)))))
           (map int [0..<n]) (Some d, 0) = Inr (Some e, fb_leng e)" "fb_ok e"
      "fb_bytes e = concat (map fb_bytes (take n vs))" "fb_size e = fb_size d"
      "fb_leng e = sum_list (map fb_leng (take n vs))"
    using Suc.IH Suc.prems le(2) by auto
  obtain e' where "fmBytes_copy (Some e) (fb_leng e) (Some (vs ! n)) 0 (fb_leng (vs ! n)) = Inr (0, Some e')"
      "fb_ok e'" "fb_bytes e' = fb_bytes e @ fb_bytes (vs ! n)" "fb_size e' = fb_size e"
      "fb_leng e' = fb_leng e + fb_leng (vs ! n)"
    using copy_whole [OF e(2) v(1)] e(4,5) le(1) by auto
  then show ?case
    using e Suc.prems(1,2) by (simp add: foldR_append take_Suc_conv_app_nth)
qed

text \<open>
  \<open>data_concat\<close> joins the values of its source variables, and stores the result under the
  name that the destination variable holds as its value, not under the destination's name.
\<close>

theorem data_concat_joins:
  assumes "vars_ok c" and "length ks = length vs"
    and "\<forall>i<length ks. terminated (ks ! i) \<and> vars c (cstr (ks ! i)) = Some (Some (vs ! i))"
    and "\<forall>v\<in>set vs. fb_ok v"
    and "terminated dst" and "vars c (cstr dst) = Some (Some d)" and "fb_buf d = Some key" and "terminated key"
    and "terminated k"
  shows "\<exists>c' w. data_concat c rsp \<lparr>fa_size = n, fa_cnt = int (length ks) + 1,
            fa_array = map (\<lambda>k. Some (fb_of k)) ks @ [Some (fb_of dst)]\<rparr> = Inr (0, c')
     \<and> fb_bytes w = concat (map fb_bytes vs)
     \<and> data_get_by_name (Some c') k = (if cstr k = cstr key then Inr (Some w) else data_get_by_name (Some c) k)"
proof -
  let ?arg = "\<lparr>fa_size = n, fa_cnt = int (length ks) + 1,
            fa_array = map (\<lambda>k. Some (fb_of k)) ks @ [Some (fb_of dst)]\<rparr>"
  have var: "arg_var c ?arg (int i) = Inr (Some (vs ! i))" if "i < length ks" for i
    using that assms(3) data_get_by_name_ok [OF assms(1), of "ks ! i"]
    by (simp add: arg_var_def arg_buf_def arg_at_def rd_nat nth_append)
  have dst: "arg_var c ?arg (int (length ks)) = Inr (Some d)"
    using assms(5,6) data_get_by_name_ok [OF assms(1), of dst]
    by (simp add: arg_var_def arg_buf_def arg_at_def rd_nat nth_append)
  let ?sum = "sum_list (map fb_leng vs)"
  have "0 \<le> ?sum" using assms(4) by (intro sum_list_nonneg) (auto elim!: fb_okE)
  then obtain d0 where d0: "fmBytes_alloc True True ?sum = Some d0" by (simp add: fmBytes_alloc_def)
  obtain w where w: "foldR (\<lambda>i (des, offset). bindR (arg_var c ?arg i) (\<lambda>sub.
              bindR (fmBytes_get_length sub) (\<lambda>n.
              bindR (fmBytes_copy des offset sub 0 n) (\<lambda>(rc, des). Inr (des, offset + n)))))
           (map int [0..<length ks]) (Some d0, 0) = Inr (Some w, fb_leng w)"
      "fb_bytes w = concat (map fb_bytes vs)"
    using concat_copies [OF var _ assms(4), of "length ks" d0] assms(2) fmBytes_alloc_ok [OF d0] by auto
  obtain c' where c': "put_var key (Some w) c = Inr c'" "vars_ok c'" "vars c' = (vars c)(cstr key \<mapsto> Some w)"
    using put_var_ok [OF assms(1,8)] by auto
  have "data_concat c rsp ?arg = Inr (0, c')"
    using concat_lengths [OF var, of "length ks"] w(1) dst c'(1) d0 assms(2,7)
    by (simp add: data_concat_def for_idx_1)
  then show ?thesis
    using w(2) c'(2,3) data_get_by_name_ok [OF _ assms(9)] assms(1) by (intro exI [of _ c'] exI [of _ w]) simp
qed

theorem data_concat_joins_example:
  "\<exists>c' w. data_concat (demo_ccb (fb_of [98, 0])) None
       \<lparr>fa_size = 3, fa_cnt = 3, fa_array = [Some (fb_of [97, 0]), Some (fb_of [97, 0]), Some (fb_of [97, 0])]\<rparr>
       = Inr (0, c')
     \<and> fb_bytes w = [98, 0, 98, 0] \<and> data_get_by_name (Some c') [98, 0] = Inr (Some w)"
  using data_concat_joins [where c = "demo_ccb (fb_of [98, 0])" and ks = "[[97, 0], [97, 0]]"
      and vs = "[fb_of [98, 0], fb_of [98, 0]]" and dst = "[97, 0]" and d = "fb_of [98, 0]" and key = "[98, 0]"
      and k = "[98, 0]" and rsp = None and n = 3]
  by (simp add: demo_ccb terminated_def cstr_def less_Suc_eq)

end
