(* ===== verification/Bc_Rsp.thy ===== *)
theory Bc_Rsp
  imports Bc_Data
begin

text \<open>
  \<open>bc_rsp.c\<close>: the byte codes that test the response and branch. A branch sets the program counter
  of the session to an address argument. \<open>ret\<close> is the indeterminate start value of the address
  conversion. Results are C integers; \<open>FM_GEN_ERR_INVALID_PARM\<close> is the error of \<open>tsm_Err.h\<close>.
\<close>

definition FM_GEN_ERR_INVALID_PARM :: int where
  "FM_GEN_ERR_INVALID_PARM = 0x80000102 - 2 ^ 32"

section \<open>Tests over all fragments\<close>

fun test_tail_loop :: "fmBytes option list \<Rightarrow> fmBytes option \<Rightarrow> int \<Rightarrow> nat \<Rightarrow> bool res" where
  "test_tail_loop arr exp_buf i 0 = Inr True"
| "test_tail_loop arr exp_buf i (Suc n) =
     bindR (rd arr i) (\<lambda>frag.
     bindR (fmBytes_get_length exp_buf) (\<lambda>len.
     bindR (fmBytes_get_length frag) (\<lambda>flen.
     bindR (fmBytes_compare frag (flen - len) exp_buf 0 len) (\<lambda>eq.
       if \<not> eq then Inr False else test_tail_loop arr exp_buf (i + 1) n))))"

definition rsp_test_tail_raw :: "fmBytes_array option \<Rightarrow> fmBytes option \<Rightarrow> bool res" where
  "rsp_test_tail_raw rsp exp_buf =
     bindR (deref rsp) (\<lambda>r. test_tail_loop (fa_array r) exp_buf 0 (nat (fa_cnt r)))"

fun test_head_loop :: "fmBytes option list \<Rightarrow> fmBytes option \<Rightarrow> int \<Rightarrow> nat \<Rightarrow> bool res" where
  "test_head_loop arr exp_buf i 0 = Inr True"
| "test_head_loop arr exp_buf i (Suc n) =
     bindR (rd arr i) (\<lambda>frag.
     bindR (fmBytes_get_length exp_buf) (\<lambda>len.
     bindR (fmBytes_compare frag 0 exp_buf 0 len) (\<lambda>eq.
       if \<not> eq then Inr False else test_head_loop arr exp_buf (i + 1) n)))"

definition rsp_test_head_raw :: "fmBytes_array option \<Rightarrow> fmBytes option \<Rightarrow> bool res" where
  "rsp_test_head_raw rsp exp_buf =
     bindR (deref rsp) (\<lambda>r. test_head_loop (fa_array r) exp_buf 0 (nat (fa_cnt r)))"

section \<open>Byte codes\<close>

definition set_PC_if :: "bool \<Rightarrow> u32 \<Rightarrow> tsm_ccb \<Rightarrow> (int \<times> tsm_ccb) res" where
  "set_PC_if b addr CCB =
     (if b then bindR (ccb_set_PC (Some CCB) (sint addr)) (\<lambda>c. Inr (0, c)) else Inr (0, CCB))"

definition rsp_test_tail_jne :: "u32 \<Rightarrow> bytecode" where
  "rsp_test_tail_jne ret CCB rsp arg =
     (if fa_size arg \<noteq> 2 then Inr (FM_GEN_ERR_INVALID_PARM, CCB)
      else bindR (arg_at arg 0) (\<lambda>exp_buf. bindR (arg_at arg 1) (\<lambda>addr_buf.
           bindR (fmBytes2intBE ret addr_buf) (\<lambda>addr.
           bindR (rsp_test_tail_raw rsp exp_buf) (\<lambda>t. set_PC_if (\<not> t) addr CCB)))))"

definition rsp_test_tail_je :: "u32 \<Rightarrow> bytecode" where
  "rsp_test_tail_je ret CCB rsp arg =
     (if fa_size arg \<noteq> 2 then Inr (FM_GEN_ERR_INVALID_PARM, CCB)
      else bindR (arg_at arg 0) (\<lambda>exp_buf. bindR (arg_at arg 1) (\<lambda>addr_buf.
           bindR (fmBytes2intBE ret addr_buf) (\<lambda>addr.
           bindR (rsp_test_tail_raw rsp exp_buf) (\<lambda>t. set_PC_if t addr CCB)))))"

text \<open>The head tests compare the truth value with 0 the other way round.\<close>

definition rsp_test_head_jne :: "u32 \<Rightarrow> bytecode" where
  "rsp_test_head_jne ret CCB rsp arg =
     (if fa_size arg \<noteq> 2 then Inr (FM_GEN_ERR_INVALID_PARM, CCB)
      else bindR (arg_at arg 0) (\<lambda>exp_buf. bindR (arg_at arg 1) (\<lambda>addr_buf.
           bindR (fmBytes2intBE ret addr_buf) (\<lambda>addr.
           bindR (rsp_test_head_raw rsp exp_buf) (\<lambda>t. set_PC_if (t \<noteq> False) addr CCB)))))"

definition rsp_test_head_je :: "u32 \<Rightarrow> bytecode" where
  "rsp_test_head_je ret CCB rsp arg =
     (if fa_size arg \<noteq> 2 then Inr (FM_GEN_ERR_INVALID_PARM, CCB)
      else bindR (arg_at arg 0) (\<lambda>exp_buf. bindR (arg_at arg 1) (\<lambda>addr_buf.
           bindR (fmBytes2intBE ret addr_buf) (\<lambda>addr.
           bindR (rsp_test_head_raw rsp exp_buf) (\<lambda>t. set_PC_if (t = False) addr CCB)))))"

definition rsp_is_scp02_ok :: "u32 \<Rightarrow> bytecode" where
  "rsp_is_scp02_ok ret CCB rsp arg =
     bindR (arg_at arg 0) (\<lambda>addr_buf.
     bindR (data_get_by_name (Some CCB) (cstring_of ''card cryptogram'' @ [0])) (\<lambda>card_crypt.
     bindR (data_get_by_name (Some CCB) (cstring_of ''calc cryptogram'' @ [0])) (\<lambda>calc_crypt.
     bindR (fmBytes2intBE ret addr_buf) (\<lambda>addr.
     bindR (fmBytes_get_length calc_crypt) (\<lambda>len.
     bindR (fmBytes_compare card_crypt 0 calc_crypt 0 len) (\<lambda>eq.
       set_PC_if (\<not> eq) addr CCB))))))"

text \<open>The first fragment of the response; a NULL buffer is a block without bytes.\<close>

definition rsp_first :: "fmBytes_array option \<Rightarrow> fmBytes option res" where
  "rsp_first rsp = bindR (deref rsp) (\<lambda>r. rd (fa_array r) 0)"

definition blk :: "fmBytes option \<Rightarrow> u8 list" where
  "blk p = (case fmBytes_get_buf p of None \<Rightarrow> [] | Some b \<Rightarrow> b)"

definition rsp_is_app_exsit_je :: "u32 \<Rightarrow> bytecode" where
  "rsp_is_app_exsit_je ret CCB rsp arg =
     bindR (arg_at arg 0) (\<lambda>app_aid. bindR (arg_at arg 1) (\<lambda>addr_buf.
     bindR (rsp_first rsp) (\<lambda>resp.
     bindR (fmBytes_get_length resp) (\<lambda>len.
     bindR (fmBytes_get_length app_aid) (\<lambda>aid_len.
     bindR (fmBytes2intBE ret addr_buf) (\<lambda>addr.
     bindR (fm_strstr (blk resp) len (blk app_aid) aid_len) (\<lambda>pos.
       set_PC_if (pos \<noteq> None) addr CCB)))))))"

definition rsp_is_personalized_je :: "u32 \<Rightarrow> bytecode" where
  "rsp_is_personalized_je ret CCB rsp arg =
     bindR (arg_at arg 0) (\<lambda>addr_buf.
     bindR (rsp_first rsp) (\<lambda>resp.
     bindR (fmBytes2intBE ret addr_buf) (\<lambda>addr.
     bindR (fmBytes_get_length resp) (\<lambda>e.
     bindR (rd (blk resp) 1) (\<lambda>x.
     let p = (if x = 0xFF then 4 else 2) + 3 in
     bindR (is_all_zero (blk resp) p (e - p - 2)) (\<lambda>z. set_PC_if z addr CCB))))))"

definition rsp_is_card_active_je :: "u32 \<Rightarrow> bytecode" where
  "rsp_is_card_active_je ret CCB rsp arg =
     bindR (arg_at arg 0) (\<lambda>addr_buf.
     bindR (rsp_first rsp) (\<lambda>resp.
     bindR (fmBytes2intBE ret addr_buf) (\<lambda>addr.
     bindR (fmBytes_get_length resp) (\<lambda>len0.
     bindR (fm_strstr (blk resp) len0 [0x66, 0x10] 2) (\<lambda>pos.
       set_PC_if (pos = None) addr CCB)))))"

section \<open>Lemmas\<close>

lemma set_PC_if_ok [simp]:
  "set_PC_if b addr c = Inr (0, if b then c\<lparr>cc_PC := sint addr\<rparr> else c)"
  by (simp add: set_PC_if_def ccb_set_PC_def)

text \<open>The array of a response with the given fragments.\<close>

definition rsp_of :: "fmBytes list \<Rightarrow> fmBytes_array" where
  "rsp_of fs = \<lparr>fa_size = int (length fs), fa_cnt = int (length fs), fa_array = map Some fs\<rparr>"

definition args2 :: "fmBytes \<Rightarrow> fmBytes \<Rightarrow> fmBytes_array" where
  "args2 a b = \<lparr>fa_size = 2, fa_cnt = 2, fa_array = [Some a, Some b]\<rparr>"

lemma arg_at_args2 [simp]: "arg_at (args2 a b) 0 = Inr (Some a)" "arg_at (args2 a b) 1 = Inr (Some b)"
    "fa_size (args2 a b) = 2"
  by (simp_all add: arg_at_def args2_def rd_def)

definition ends_with :: "u8 list \<Rightarrow> u8 list \<Rightarrow> bool" where
  "ends_with xs ys \<longleftrightarrow> length ys \<le> length xs \<and> drop (length xs - length ys) xs = ys"

definition starts_with :: "u8 list \<Rightarrow> u8 list \<Rightarrow> bool" where
  "starts_with xs ys \<longleftrightarrow> take (length ys) xs = ys"

lemma compare_tail:
  assumes "fb_ok f" and "fb_ok e" and "length (fb_bytes e) \<le> length (fb_bytes f)"
  shows "fmBytes_compare (Some f) (fb_leng f - fb_leng e) (Some e) 0 (fb_leng e)
     = Inr (ends_with (fb_bytes f) (fb_bytes e))"
proof -
  have l: "fb_leng f = int (length (fb_bytes f))" "fb_leng e = int (length (fb_bytes e))"
    using fb_bytes_length assms by simp_all
  have n: "nat (fb_leng f - int (length (fb_bytes e))) = length (fb_bytes f) - length (fb_bytes e)"
    using assms(3) l by simp
  have "fmBytes_compare (Some f) (fb_leng f - fb_leng e) (Some e) 0 (fb_leng e)
     = Inr (take (nat (fb_leng e)) (drop (nat (fb_leng f - fb_leng e)) (fb_bytes f))
            = take (nat (fb_leng e)) (drop 0 (fb_bytes e)))"
    using fmBytes_compare_correct [OF assms(1,2), of "fb_leng f - fb_leng e" 0 "fb_leng e"] assms(3) l by simp
  then show ?thesis
    using assms(3) by (simp add: n l(2) ends_with_def)
qed

lemma compare_head:
  assumes "fb_ok f" and "fb_ok e"
  shows "fmBytes_compare (Some f) 0 (Some e) 0 (fb_leng e)
     = Inr (starts_with (fb_bytes f) (fb_bytes e))"
proof -
  have l: "fb_leng f = int (length (fb_bytes f))" "fb_leng e = int (length (fb_bytes e))"
    using fb_bytes_length assms by simp_all
  have "take (length (fb_bytes e)) (fb_bytes f) = fb_bytes e \<Longrightarrow> length (fb_bytes e) \<le> length (fb_bytes f)"
    by (metis length_take min.cobounded1)
  then show ?thesis
    using fmBytes_compare_correct [OF assms, of 0 0 "fb_leng e"] l
    by (auto simp: starts_with_def)
qed

lemma test_tail_loop_ok:
  assumes "\<forall>f\<in>set fs. fb_ok f \<and> length (fb_bytes e) \<le> length (fb_bytes f)" and "fb_ok e"
  shows "test_tail_loop (pre @ map Some fs) (Some e) (int (length pre)) (length fs)
     = Inr (\<forall>f\<in>set fs. ends_with (fb_bytes f) (fb_bytes e))"
  using assms(1)
proof (induction fs arbitrary: pre)
  case (Cons f fs)
  have "test_tail_loop ((pre @ [Some f]) @ map Some fs) (Some e) (int (length (pre @ [Some f]))) (length fs)
      = Inr (\<forall>f\<in>set fs. ends_with (fb_bytes f) (fb_bytes e))"
    using Cons.prems by (intro Cons.IH) auto
  then show ?case
    using Cons.prems compare_tail [OF _ assms(2), of f]
    by (simp add: rd_def nth_append add.commute)
qed simp

lemma test_head_loop_ok:
  assumes "\<forall>f\<in>set fs. fb_ok f" and "fb_ok e"
  shows "test_head_loop (pre @ map Some fs) (Some e) (int (length pre)) (length fs)
     = Inr (\<forall>f\<in>set fs. starts_with (fb_bytes f) (fb_bytes e))"
  using assms(1)
proof (induction fs arbitrary: pre)
  case (Cons f fs)
  have "test_head_loop ((pre @ [Some f]) @ map Some fs) (Some e) (int (length (pre @ [Some f]))) (length fs)
      = Inr (\<forall>f\<in>set fs. starts_with (fb_bytes f) (fb_bytes e))"
    using Cons.prems by (intro Cons.IH) auto
  then show ?case
    using Cons.prems compare_head [OF _ assms(2), of f]
    by (simp add: rd_def nth_append add.commute)
qed simp

section \<open>Properties\<close>

text \<open>
  C33. \<open>rsp_test_tail_jne\<close> jumps to its address exactly when some response fragment does not
  end with the expected bytes (every fragment being at least that long), and changes nothing
  else.
\<close>

theorem rsp_test_tail_jne_jumps:
  assumes "\<forall>f\<in>set fs. fb_ok f \<and> length (fb_bytes e) \<le> length (fb_bytes f)" and "fb_ok e"
    and "fmBytes2intBE ret (Some a) = Inr addr"
  shows "rsp_test_tail_jne ret c (Some (rsp_of fs)) (args2 e a)
     = Inr (0, if \<forall>f\<in>set fs. ends_with (fb_bytes f) (fb_bytes e) then c else c\<lparr>cc_PC := sint addr\<rparr>)"
  using test_tail_loop_ok [OF assms(1,2), of "[]"] assms(3)
  by (simp add: rsp_test_tail_jne_def rsp_test_tail_raw_def rsp_of_def)

theorem rsp_test_tail_jne_jumps_witness:
  "rsp_test_tail_jne 0 (demo_ccb (fb_of [])) (Some (rsp_of [fb_of [0x6F, 0x90, 0], fb_of [0x6A, 0x82]]))
     (args2 (fb_of [0x90, 0]) (fb_of [7])) = Inr (0, (demo_ccb (fb_of []))\<lparr>cc_PC := 7\<rparr>)"
proof -
  have "fmBytes2intBE 0 (Some (fb_of [7])) = Inr 7" by (simp add: fmBytes2intBE_def rd_def)
  from rsp_test_tail_jne_jumps [OF _ _ this, of "[fb_of [0x6F, 0x90, 0], fb_of [0x6A, 0x82]]" "fb_of [0x90, 0]"]
  show ?thesis by (simp add: ends_with_def)
qed

text \<open>
  A fragment shorter than the expected bytes passes the length test of the comparison with a
  negative offset: the tail tests then read before the fragment's buffer.
\<close>

theorem rsp_test_tail_short:
  assumes "fb_ok f" and "fb_ok e" and "length (fb_bytes f) < length (fb_bytes e)"
  shows "rsp_test_tail_raw (Some (rsp_of (f # fs))) (Some e) = Inl Out_Of_Bounds"
proof -
  have l: "fb_leng f = int (length (fb_bytes f))" "fb_leng e = int (length (fb_bytes e))"
    using fb_bytes_length assms by simp_all
  obtain bf be where b: "fb_buf f = Some bf" "fb_buf e = Some be"
    using assms by (auto elim!: fb_okE)
  have "fmBytes_compare (Some f) (fb_leng f - fb_leng e) (Some e) 0 (fb_leng e) = Inl Out_Of_Bounds"
    using assms(3) b l by (simp add: fmBytes_compare_def rdn_def)
  then show ?thesis
    by (simp add: rsp_test_tail_raw_def rsp_of_def rd_def nat_add_distrib)
qed

theorem rsp_test_tail_short_example:
  "rsp_test_tail_raw (Some (rsp_of [fb_of [0x90]])) (Some (fb_of [0x90, 0])) = Inl Out_Of_Bounds"
  using rsp_test_tail_short [of "fb_of [0x90]" "fb_of [0x90, 0]" "[]"] by simp

text \<open>
  The head tests are swapped: \<open>rsp_test_head_jne\<close>, the counterpart of \<open>rsp_test_tail_jne\<close>,
  jumps exactly when every fragment does start with the expected bytes.
\<close>

theorem rsp_test_head_jne_swapped:
  assumes "\<forall>f\<in>set fs. fb_ok f" and "fb_ok e" and "fmBytes2intBE ret (Some a) = Inr addr"
  shows "rsp_test_head_jne ret c (Some (rsp_of fs)) (args2 e a)
     = Inr (0, if \<forall>f\<in>set fs. starts_with (fb_bytes f) (fb_bytes e) then c\<lparr>cc_PC := sint addr\<rparr> else c)"
  using test_head_loop_ok [OF assms(1,2), of "[]"] assms(3)
  by (simp add: rsp_test_head_jne_def rsp_test_head_raw_def rsp_of_def)

theorem rsp_test_head_jne_swapped_example:
  "rsp_test_head_jne 0 (demo_ccb (fb_of [])) (Some (rsp_of [fb_of [0x6F, 0x10]]))
     (args2 (fb_of [0x6F]) (fb_of [7])) = Inr (0, (demo_ccb (fb_of []))\<lparr>cc_PC := 7\<rparr>)"
proof -
  have "fmBytes2intBE 0 (Some (fb_of [7])) = Inr 7" by (simp add: fmBytes2intBE_def rd_def)
  from rsp_test_head_jne_swapped [OF _ _ this, of "[fb_of [0x6F, 0x10]]" "fb_of [0x6F]"]
  show ?thesis by (simp add: starts_with_def)
qed

text \<open>
  The other branches: \<open>rsp_test_tail_je\<close> is the complement of \<open>rsp_test_tail_jne\<close>, and so are the
  head tests of each other.
\<close>

lemma rsp_test_tail_je_jumps:
  assumes "\<forall>f\<in>set fs. fb_ok f \<and> length (fb_bytes e) \<le> length (fb_bytes f)" and "fb_ok e"
    and "fmBytes2intBE ret (Some a) = Inr addr"
  shows "rsp_test_tail_je ret c (Some (rsp_of fs)) (args2 e a)
     = Inr (0, if \<forall>f\<in>set fs. ends_with (fb_bytes f) (fb_bytes e) then c\<lparr>cc_PC := sint addr\<rparr> else c)"
  using test_tail_loop_ok [OF assms(1,2), of "[]"] assms(3)
  by (simp add: rsp_test_tail_je_def rsp_test_tail_raw_def rsp_of_def)

lemma rsp_test_head_je_swapped:
  assumes "\<forall>f\<in>set fs. fb_ok f" and "fb_ok e" and "fmBytes2intBE ret (Some a) = Inr addr"
  shows "rsp_test_head_je ret c (Some (rsp_of fs)) (args2 e a)
     = Inr (0, if \<forall>f\<in>set fs. starts_with (fb_bytes f) (fb_bytes e) then c else c\<lparr>cc_PC := sint addr\<rparr>)"
  using test_head_loop_ok [OF assms(1,2), of "[]"] assms(3)
  by (simp add: rsp_test_head_je_def rsp_test_head_raw_def rsp_of_def)

definition card_key :: "u8 list" where "card_key = cstring_of ''card cryptogram''"
definition calc_key :: "u8 list" where "calc_key = cstring_of ''calc cryptogram''"

lemma no_zero_keys: "0 \<notin> set card_key" "0 \<notin> set calc_key"
  by (simp_all add: card_key_def calc_key_def cstring_of_def of_char_def)

text \<open>
  \<open>rsp_is_scp02_ok\<close> goes on to the next address when the stored card cryptogram starts with
  the calculated one, and jumps to its argument otherwise.
\<close>

theorem rsp_is_scp02_ok_jumps:
  assumes "vars_ok c" and "vars c card_key = Some (Some cd)" and "vars c calc_key = Some (Some calc)"
    and "fb_ok cd" and "fb_ok calc" and "fmBytes2intBE ret (Some a) = Inr addr"
  shows "rsp_is_scp02_ok ret c rsp \<lparr>fa_size = n, fa_cnt = 1, fa_array = [Some a]\<rparr>
     = Inr (0, if starts_with (fb_bytes cd) (fb_bytes calc) then c else c\<lparr>cc_PC := sint addr\<rparr>)"
proof -
  have "data_get_by_name (Some c) (cstring_of ''card cryptogram'' @ [0]) = Inr (Some cd)"
    using data_get_by_name_ok [OF assms(1), of "card_key @ [0]"] assms(2) no_zero_keys
    by (simp add: terminated_def card_key_def [symmetric])
  moreover have "data_get_by_name (Some c) (cstring_of ''calc cryptogram'' @ [0]) = Inr (Some calc)"
    using data_get_by_name_ok [OF assms(1), of "calc_key @ [0]"] assms(3) no_zero_keys
    by (simp add: terminated_def calc_key_def [symmetric])
  ultimately show ?thesis
    using compare_head [OF assms(4,5)] assms(6)
    by (simp add: rsp_is_scp02_ok_def arg_at_def rd_def)
qed

text \<open>A control block with both cryptograms, for the witness.\<close>

definition scp02_ccb :: tsm_ccb where
  "scp02_ccb = projr (bindR (put_var (card_key @ [0]) (Some (fb_of [1, 2])) (demo_ccb (fb_of [])))
     (put_var (calc_key @ [0]) (Some (fb_of [1, 3]))))"

lemma scp02_ccb: "vars_ok scp02_ccb" "vars scp02_ccb card_key = Some (Some (fb_of [1, 2]))"
    "vars scp02_ccb calc_key = Some (Some (fb_of [1, 3]))"
proof -
  have t: "terminated (card_key @ [0])" "terminated (calc_key @ [0])" by (simp_all add: terminated_def)
  have ne: "card_key \<noteq> calc_key" by (simp add: card_key_def calc_key_def cstring_of_def of_char_def)
  obtain c1 where 1: "put_var (card_key @ [0]) (Some (fb_of [1, 2])) (demo_ccb (fb_of [])) = Inr c1" "vars_ok c1"
      "vars c1 card_key = Some (Some (fb_of [1, 2]))"
    using put_var_ok [OF demo_ccb(1) t(1), of "Some (fb_of [1, 2])" "fb_of []"] no_zero_keys by auto
  obtain c2 where "put_var (calc_key @ [0]) (Some (fb_of [1, 3])) c1 = Inr c2" "vars_ok c2"
      "vars c2 = (vars c1)(calc_key \<mapsto> Some (fb_of [1, 3]))"
    using put_var_ok [OF 1(2) t(2), of "Some (fb_of [1, 3])"] no_zero_keys by auto
  then show "vars_ok scp02_ccb" "vars scp02_ccb card_key = Some (Some (fb_of [1, 2]))"
    "vars scp02_ccb calc_key = Some (Some (fb_of [1, 3]))"
    using 1 ne by (simp_all add: scp02_ccb_def)
qed

theorem rsp_is_scp02_ok_jumps_example:
  "rsp_is_scp02_ok 0 scp02_ccb None \<lparr>fa_size = 1, fa_cnt = 1, fa_array = [Some (fb_of [7])]\<rparr>
     = Inr (0, scp02_ccb\<lparr>cc_PC := 7\<rparr>)"
proof -
  have "fmBytes2intBE 0 (Some (fb_of [7])) = Inr 7" by (simp add: fmBytes2intBE_def rd_def)
  from rsp_is_scp02_ok_jumps [OF scp02_ccb fb_of_ok fb_of_ok this, of None 1]
  show ?thesis by (simp add: starts_with_def)
qed

text \<open>
  \<open>rsp_is_card_active_je\<close> jumps when the two bytes of its acknowledgement do not start at any
  position of the response (with one byte after it, which the search may look at).
\<close>

lemma rsp_is_card_active_je_jumps:
  assumes "fb_buf f = Some b" and "fb_leng f + 1 \<le> int (length b)" and "fmBytes2intBE ret (Some a) = Inr addr"
  shows "rsp_is_card_active_je ret c (Some (rsp_of (f # fs))) \<lparr>fa_size = n, fa_cnt = 1, fa_array = [Some a]\<rparr>
     = Inr (0, if find (\<lambda>k. take (length [0x66, 0x10 :: u8]) (drop k b) = [0x66, 0x10]) [0..<nat (fb_leng f)] = None
               then c\<lparr>cc_PC := sint addr\<rparr> else c)"
  using strstr_outer_ok [of "[0x66, 0x10]" "fb_leng f" b 0] assms
  by (simp add: rsp_is_card_active_je_def rsp_first_def rsp_of_def arg_at_def rd_def fm_strstr_def blk_def)

end
