(* ===== verification/Bc_Gp.thy ===== *)
theory Bc_Gp
  imports Bc_Data
begin

text \<open>
  \<open>bc_gp.c\<close>: the byte codes that build GlobalPlatform commands. Each packet is a fresh
  \<open>sk_buff\<close>, tagged with its agent, with room for the \<open>A0\<close> header in front. Commands that need no
  message code go to \<open>cmdQ\<close>, the others to \<open>apduQ\<close>. Allocations succeed here; what the code reads
  without having set it is the environment \<open>gp_env\<close>: the contents of a fresh structure, of the
  stack buffer used for a packet, the low byte of the address of the data given to a packet (all by
  the packet's index), the value of an unset \<open>ret\<close>, and what a missing argument holds. A byte code returns its code, the control
  block and the global packet counter.
\<close>

section \<open>Constants\<close>

definition CLA_7816 :: u8 where "CLA_7816 = 0x00"
definition CLA_GP :: u8 where "CLA_GP = 0x80"
definition GP_INS_SEL :: u8 where "GP_INS_SEL = 0xA4"
definition GP_INS_INIT_UPDATE :: u8 where "GP_INS_INIT_UPDATE = 0x50"
definition GP_INS_EXT_AUTH :: u8 where "GP_INS_EXT_AUTH = 0x82"
definition GP_INS_INSTALL :: u8 where "GP_INS_INSTALL = 0xE6"
definition GP_INS_LOAD :: u8 where "GP_INS_LOAD = 0xE8"
definition GP_INS_STORE_DATA :: u8 where "GP_INS_STORE_DATA = 0xE2"
definition GP_INS_GET_DATA :: u8 where "GP_INS_GET_DATA = 0xCA"
definition GP_INS_GET_STS :: u8 where "GP_INS_GET_STS = 0xF2"
definition GP_INS_SET_STS :: u8 where "GP_INS_SET_STS = 0xF0"
definition GP_INS_DELETE :: u8 where "GP_INS_DELETE = 0xE4"
definition GP_INS_PUT_KEY :: u8 where "GP_INS_PUT_KEY = 0xD8"

definition INSTALL_FOR_INSTALL :: u8 where "INSTALL_FOR_INSTALL = 0x04"
definition INSTALL_FOR_SELECT :: u8 where "INSTALL_FOR_SELECT = 0x08"
definition INSTALL_FOR_EXTRA :: u8 where "INSTALL_FOR_EXTRA = 0x10"
definition INSTALL_FOR_PERSONIZE :: u8 where "INSTALL_FOR_PERSONIZE = 0x20"

definition MAX_APDU_LEN :: u32 where "MAX_APDU_LEN = 300"
definition MAX_LOAD_DATA_SIZE :: int where "MAX_LOAD_DATA_SIZE = 232"
definition TAG_A0_HEAD_ROOM :: int where "TAG_A0_HEAD_ROOM = 3"

definition FM_OK :: int where "FM_OK = 0"
definition FM_SYS_ERR_NULL_POINTER :: int where "FM_SYS_ERR_NULL_POINTER = 0x80000000 - 2 ^ 32"
definition FM_GEN_ERR_INVALID_LEN :: int where "FM_GEN_ERR_INVALID_LEN = 0x80000100 - 2 ^ 32"

lemmas gp_consts = CLA_7816_def CLA_GP_def GP_INS_SEL_def GP_INS_INIT_UPDATE_def GP_INS_EXT_AUTH_def
  GP_INS_INSTALL_def GP_INS_LOAD_def GP_INS_STORE_DATA_def GP_INS_GET_DATA_def GP_INS_GET_STS_def
  GP_INS_SET_STS_def GP_INS_DELETE_def GP_INS_PUT_KEY_def INSTALL_FOR_INSTALL_def
  INSTALL_FOR_SELECT_def INSTALL_FOR_EXTRA_def INSTALL_FOR_PERSONIZE_def FM_OK_def

section \<open>One command\<close>

record gp_env =
  ge_raw :: "int \<Rightarrow> sk_buff"
  ge_stack :: "int \<Rightarrow> u8 list"
  ge_low :: "int \<Rightarrow> u8"
  ge_ret :: int
  ge_junk :: int

text \<open>
  The source keeps the data pointer in \<open>u8 *outbuf,buf;\<close>, that is in one byte. Only the low byte
  of the address is left of it; comparing it with NULL tests that byte, and copying from it reads
  memory that belongs to no object.
\<close>

definition gp_make_apdu ::
  "gp_env \<Rightarrow> u8 \<Rightarrow> u8 \<Rightarrow> u8 \<Rightarrow> u8 \<Rightarrow> fmBytes option \<Rightarrow> sk_buff option \<Rightarrow> (int \<times> sk_buff option) res"
where
  "gp_make_apdu e cla ins p1 p2 data out =
     (case out of
        None \<Rightarrow> Inr (FM_SYS_ERR_NULL_POINTER, out)
      | Some skb \<Rightarrow>
          if sk_data_len skb = 0 then Inr (FM_SYS_ERR_NULL_POINTER, out)
          else bindR (case data of None \<Rightarrow> Inr (0 :: u8)
                        | Some _ \<Rightarrow> bindR (fmBytes_get_length data) (\<lambda>n. Inr (of_int n))) (\<lambda>len.
            let buf = (case fmBytes_get_buf data of None \<Rightarrow> 0 | Some _ \<Rightarrow> ge_low e (sk_index skb)) in
            if len \<noteq> 0 \<and> buf = 0 then Inr (FM_GEN_ERR_INVALID_LEN, out)
            else bindR (foldR skb_put_bytes [[cla], [ins], [p1], [p2], [len]] skb) (\<lambda>skb.
              if len \<noteq> 0 then bindR (skb_put skb (ucast len)) (\<lambda>(p, skb). Inl Wild_Pointer)
              else Inr (FM_OK, Some skb))))"

type_synonym gp_cmd = "fmBytes option \<Rightarrow> sk_buff option \<Rightarrow> (int \<times> sk_buff option) res"

definition gp_select_raw :: "gp_env \<Rightarrow> gp_cmd" where
  "gp_select_raw e aid skb = gp_make_apdu e CLA_7816 GP_INS_SEL 0x04 0x00 aid skb"

definition gp_init_update_raw :: "gp_env \<Rightarrow> u8 \<Rightarrow> gp_cmd" where
  "gp_init_update_raw e kv hc skb = gp_make_apdu e CLA_GP GP_INS_INIT_UPDATE kv 0x00 hc skb"

definition gp_ext_auth_raw :: "gp_env \<Rightarrow> u8 \<Rightarrow> gp_cmd" where
  "gp_ext_auth_raw e sl hc skb = gp_make_apdu e CLA_GP GP_INS_EXT_AUTH sl 0x00 hc skb"

definition gp_get_data_raw :: "gp_env \<Rightarrow> u8 \<Rightarrow> u8 \<Rightarrow> gp_cmd" where
  "gp_get_data_raw e tag_hi tag_lo tag_list skb =
     gp_make_apdu e CLA_GP GP_INS_GET_DATA tag_hi tag_lo tag_list skb"

definition gp_delete_raw :: "gp_env \<Rightarrow> u8 \<Rightarrow> u8 \<Rightarrow> gp_cmd" where
  "gp_delete_raw e mor opt tlvs skb = gp_make_apdu e CLA_GP GP_INS_DELETE mor opt tlvs skb"

definition gp_get_status_raw :: "gp_env \<Rightarrow> u8 \<Rightarrow> gp_cmd" where
  "gp_get_status_raw e subsets search_criteria skb =
     gp_make_apdu e CLA_GP GP_INS_GET_STS subsets 0x02 search_criteria skb"

definition gp_install_raw :: "gp_env \<Rightarrow> u8 \<Rightarrow> gp_cmd" where
  "gp_install_raw e p1 data skb = gp_make_apdu e CLA_GP GP_INS_INSTALL p1 0x00 data skb"

definition gp_load_raw :: "gp_env \<Rightarrow> u8 \<Rightarrow> u8 \<Rightarrow> gp_cmd" where
  "gp_load_raw e mor blk_num data skb = gp_make_apdu e CLA_GP GP_INS_LOAD mor blk_num data skb"

definition gp_put_key_raw :: "gp_env \<Rightarrow> u8 \<Rightarrow> u8 \<Rightarrow> gp_cmd" where
  "gp_put_key_raw e kv kid key_data skb = gp_make_apdu e CLA_GP GP_INS_PUT_KEY kv kid key_data skb"

definition gp_set_status_raw :: "gp_env \<Rightarrow> u8 \<Rightarrow> u8 \<Rightarrow> gp_cmd" where
  "gp_set_status_raw e domain status aid skb =
     gp_make_apdu e CLA_GP GP_INS_SET_STS domain status aid skb"

definition gp_store_data_raw :: "gp_env \<Rightarrow> u8 \<Rightarrow> u8 \<Rightarrow> gp_cmd" where
  "gp_store_data_raw e p1 blk_num data skb =
     gp_make_apdu e CLA_GP GP_INS_STORE_DATA p1 blk_num data skb"

section \<open>The data of the INSTALL commands\<close>

text \<open>
  \<open>pos += fmbytes_concat_with_len(buf+pos,src)\<close>, and the finished data: the local \<open>fmBytes\<close> over
  the stack buffer, with its size and length set.
\<close>

definition add_field :: "fmBytes option \<Rightarrow> int \<times> u8 list \<Rightarrow> (int \<times> u8 list) res" where
  "add_field src = (\<lambda>(pos, buf).
     bindR (fmbytes_concat_with_len buf pos src) (\<lambda>(n, buf). Inr (pos + n, buf)))"

definition skip_field :: "int \<Rightarrow> int \<times> u8 list \<Rightarrow> (int \<times> u8 list) res" where
  "skip_field n = (\<lambda>(pos, buf). Inr (pos + n, buf))"

definition apdu_data :: "int \<times> u8 list \<Rightarrow> fmBytes" where
  "apdu_data = (\<lambda>(pos, buf). \<lparr>fb_size = uint MAX_APDU_LEN, fb_leng = pos, fb_buf = Some buf\<rparr>)"

text \<open>The functions discard the result of \<open>_gp_install\<close> and return 0.\<close>

definition gp_install_with ::
  "gp_env \<Rightarrow> u8 \<Rightarrow> (int \<times> u8 list) res \<Rightarrow> sk_buff option \<Rightarrow> (int \<times> sk_buff option) res"
where
  "gp_install_with e p1 flds skb =
     bindR flds (\<lambda>pb. bindR (gp_install_raw e p1 (Some (apdu_data pb)) skb) (\<lambda>(rc, skb). Inr (0, skb)))"

definition skb_stack :: "gp_env \<Rightarrow> sk_buff option \<Rightarrow> u8 list" where
  "skb_stack e skb = (case skb of None \<Rightarrow> replicate 300 0 | Some s \<Rightarrow> ge_stack e (sk_index s))"

definition install_selectable_data ::
  "u8 list \<Rightarrow> fmBytes option \<Rightarrow> fmBytes option \<Rightarrow> fmBytes option \<Rightarrow> fmBytes option \<Rightarrow> fmBytes option
     \<Rightarrow> fmBytes option \<Rightarrow> (int \<times> u8 list) res"
where
  "install_selectable_data buf pkg_aid app_aid ins_aid priv install_parm token =
     foldR add_field [pkg_aid, app_aid, ins_aid, priv, install_parm, token] (0, buf)"

definition gp_install_for_install_selectable_raw ::
  "gp_env \<Rightarrow> fmBytes option \<Rightarrow> fmBytes option \<Rightarrow> fmBytes option \<Rightarrow> fmBytes option \<Rightarrow> fmBytes option
     \<Rightarrow> gp_cmd"
where
  "gp_install_for_install_selectable_raw e pkg_aid app_aid ins_aid priv install_parm token skb =
     gp_install_with e (INSTALL_FOR_INSTALL OR INSTALL_FOR_SELECT)
       (install_selectable_data (skb_stack e skb) pkg_aid app_aid ins_aid priv install_parm token) skb"

definition install_personalize_data :: "u8 list \<Rightarrow> fmBytes option \<Rightarrow> (int \<times> u8 list) res" where
  "install_personalize_data buf aid = bindR (add_field aid (2, buf)) (skip_field 3)"

definition gp_install_for_personalize_raw :: "gp_env \<Rightarrow> gp_cmd" where
  "gp_install_for_personalize_raw e aid skb =
     gp_install_with e INSTALL_FOR_PERSONIZE (install_personalize_data (skb_stack e skb) aid) skb"

definition gp_install_for_load_raw ::
  "gp_env \<Rightarrow> fmBytes option \<Rightarrow> fmBytes option \<Rightarrow> fmBytes option \<Rightarrow> fmBytes option \<Rightarrow> gp_cmd"
where
  "gp_install_for_load_raw e pkg_aid sd_aid hash load_parm load_token skb =
     gp_install_with e INSTALL_FOR_PERSONIZE
       (foldR add_field [pkg_aid, sd_aid, hash, load_parm, load_token] (0, skb_stack e skb)) skb"

definition gp_install_for_extradition_raw ::
  "gp_env \<Rightarrow> fmBytes option \<Rightarrow> fmBytes option \<Rightarrow> fmBytes option \<Rightarrow> gp_cmd"
where
  "gp_install_for_extradition_raw e dest_aid app_aid parm token skb =
     gp_install_with e INSTALL_FOR_EXTRA
       (bindR (add_field dest_aid (0, skb_stack e skb)) (\<lambda>pb. bindR (skip_field 1 pb) (\<lambda>pb.
        bindR (add_field app_aid pb) (\<lambda>pb. bindR (skip_field 1 pb) (\<lambda>pb.
        bindR (add_field parm pb) (add_field token)))))) skb"

section \<open>Preparing and closing a packet\<close>

text \<open>The status word 9000 goes behind every packet of the queue.\<close>

definition gp_padding_sw :: "sk_buff list \<Rightarrow> sk_buff list res" where
  "gp_padding_sw apdus =
     foldR (\<lambda>pos q. bindR (foldR skb_put_bytes [[0x90], [0x00]] pos) (\<lambda>pos. Inr (q @ [pos]))) apdus []"

definition apdu_preprocess :: "gp_env \<Rightarrow> int \<Rightarrow> fmBytes option \<Rightarrow> (sk_buff \<times> int) res" where
  "apdu_preprocess e glb_skb_index agent =
     (case alloc_skb (ge_raw e glb_skb_index) glb_skb_index True True MAX_APDU_LEN of (p, glb) \<Rightarrow>
        bindR (fmBytes_get_length agent) (\<lambda>len.
        bindR (deref p) (\<lambda>skb.
        bindR (fmBytes_copy (fmBytes_alloc True True len) 0 agent 0 len) (\<lambda>(rc, a).
          Inr (skb_reserve (skb\<lparr>sk_agent := a\<rparr>) TAG_A0_HEAD_ROOM, glb)))))"

text \<open>
  The calls \<open>ccb_set_write_back(fm_true)\<close> are made without a declaration in sight and lack
  the control block: the function takes the flag for its pointer, and whatever the place of its
  second argument holds, \<open>junk\<close>, for the flag. An integer taken for a pointer is NULL when it is 0 and
  otherwise an address that is no structure.
\<close>

definition fm_true :: int where "fm_true = 1"

definition int_as_ccb :: "int \<Rightarrow> tsm_ccb option res" where
  "int_as_ccb n = (if n = 0 then Inr None else Inl Wild_Pointer)"

definition ccb_set_write_back_only_flag :: "int \<Rightarrow> tsm_ccb \<Rightarrow> tsm_ccb res" where
  "ccb_set_write_back_only_flag junk CCB =
     bindR (int_as_ccb fm_true) (\<lambda>ccb. bindR (ccb_set_write_back ccb junk) (\<lambda>c. Inr CCB))"

lemma write_back_only_flag [simp]: "ccb_set_write_back_only_flag junk CCB = Inl Wild_Pointer"
  by (simp add: ccb_set_write_back_only_flag_def int_as_ccb_def fm_true_def)

section \<open>Byte codes\<close>

type_synonym gp_bytecode =
  "gp_env \<Rightarrow> tsm_ccb \<Rightarrow> int \<Rightarrow> fmBytes_array option \<Rightarrow> fmBytes_array \<Rightarrow> (int \<times> tsm_ccb \<times> int) res"

definition arg_byte :: "fmBytes option \<Rightarrow> u8 res" where
  "arg_byte p = bindR (deref p) (\<lambda>q. bindR (deref (fb_buf q)) (\<lambda>b. rd b 0))"

definition cname :: "string \<Rightarrow> u8 list" where
  "cname s = cstring_of s @ [0]"

text \<open>Preparing one packet, filling it with a command, and putting it behind a queue.\<close>

definition gp_packet ::
  "gp_env \<Rightarrow> int \<Rightarrow> fmBytes option \<Rightarrow> (sk_buff option \<Rightarrow> (int \<times> sk_buff option) res) \<Rightarrow> sk_buff list
     \<Rightarrow> (sk_buff list \<times> int) res"
where
  "gp_packet e glb agent cmd q =
     bindR (apdu_preprocess e glb agent) (\<lambda>(skb, glb).
     bindR (cmd (Some skb)) (\<lambda>(rc, out). bindR (deref out) (\<lambda>skb. Inr (q @ [skb], glb))))"

definition gp_select :: gp_bytecode where
  "gp_select e CCB glb rsp arg =
     bindR (arg_at arg 0) (\<lambda>agent. bindR (arg_at arg 1) (\<lambda>aid.
     bindR (gp_packet e glb agent (gp_select_raw e aid) []) (\<lambda>(q, glb).
     bindR (gp_padding_sw q) (\<lambda>q.
     bindR (ccb_set_write_back_only_flag (ge_junk e) (CCB\<lparr>cc_cmdQ := q\<rparr>)) (\<lambda>c. Inr (ge_ret e, c, glb))))))"

definition gp_init_update :: gp_bytecode where
  "gp_init_update e CCB glb rsp arg =
     bindR (arg_at arg 0) (\<lambda>agent. bindR (arg_at arg 1) (\<lambda>kv.
     bindR (data_get_by_name (Some CCB) (cname ''host challenge'')) (\<lambda>hc.
     bindR (gp_packet e glb agent (\<lambda>skb. bindR (arg_byte kv) (\<lambda>k. gp_init_update_raw e k hc skb)) [])
       (\<lambda>(q, glb).
     bindR (gp_padding_sw q) (\<lambda>q.
     bindR (ccb_set_write_back_only_flag (ge_junk e) (CCB\<lparr>cc_cmdQ := q\<rparr>)) (\<lambda>c. Inr (ge_ret e, c, glb)))))))"

text \<open>The end of a command that still needs its message code.\<close>

definition to_bootstrap :: "int \<Rightarrow> tsm_ccb \<Rightarrow> sk_buff list \<times> int \<Rightarrow> (int \<times> tsm_ccb \<times> int) res" where
  "to_bootstrap ret CCB = (\<lambda>(q, glb).
     bindR (ccb_set_bootstrap (Some (CCB\<lparr>cc_apduQ := q\<rparr>)) 1) (\<lambda>c. Inr (ret, c, glb)))"

definition gp_ext_auth :: gp_bytecode where
  "gp_ext_auth e CCB glb rsp arg =
     bindR (arg_at arg 0) (\<lambda>agent. bindR (arg_at arg 1) (\<lambda>sl.
     bindR (data_get_by_name (Some CCB) (cname ''new host challenge'')) (\<lambda>nhc.
     bindR (gp_packet e glb agent (\<lambda>skb. bindR (arg_byte sl) (\<lambda>s. gp_ext_auth_raw e s nhc skb)) [])
       (to_bootstrap (ge_ret e) CCB))))"

definition gp_get_status :: gp_bytecode where
  "gp_get_status e CCB glb rsp arg =
     bindR (arg_at arg 0) (\<lambda>agent. bindR (arg_at arg 1) (\<lambda>subset. bindR (arg_at arg 2) (\<lambda>crit.
     bindR (gp_packet e glb agent (\<lambda>skb. bindR (arg_byte subset) (\<lambda>s. gp_get_status_raw e s crit skb)) [])
       (to_bootstrap (ge_ret e) CCB))))"

definition gp_install_for_install_make_selectable :: gp_bytecode where
  "gp_install_for_install_make_selectable e CCB glb rsp arg =
     bindR (arg_at arg 0) (\<lambda>agent. bindR (arg_at arg 1) (\<lambda>pkg_aid. bindR (arg_at arg 2) (\<lambda>app_aid.
     bindR (arg_at arg 3) (\<lambda>ins_aid. bindR (arg_at arg 4) (\<lambda>priv.
     bindR (data_get_by_name (Some CCB) (cname ''parameter'')) (\<lambda>install_parm.
     bindR (data_get_by_name (Some CCB) (cname ''token'')) (\<lambda>token.
     bindR (gp_packet e glb agent
         (gp_install_for_install_selectable_raw e pkg_aid app_aid ins_aid priv install_parm token) [])
       (to_bootstrap (ge_ret e) CCB))))))))"

definition gp_install_for_personalize :: gp_bytecode where
  "gp_install_for_personalize e CCB glb rsp arg =
     bindR (arg_at arg 0) (\<lambda>agent. bindR (arg_at arg 1) (\<lambda>aid.
     bindR (gp_packet e glb agent (gp_install_for_personalize_raw e aid) [])
       (to_bootstrap (ge_ret e) CCB)))"

definition gp_put_key :: gp_bytecode where
  "gp_put_key e CCB glb rsp arg =
     bindR (arg_at arg 0) (\<lambda>agent. bindR (arg_at arg 1) (\<lambda>kv.
     bindR (gp_packet e glb agent (\<lambda>skb. bindR (arg_byte kv) (\<lambda>k. gp_put_key_raw e k 0x81 None skb)) [])
       (to_bootstrap (ge_ret e) CCB)))"

text \<open>The first LOAD block: the tag C4, the length of the file, and at most 288 bytes of it.
  \<open>pos\<close> is a \<open>u8\<close>.\<close>

definition load_chunk :: "int \<Rightarrow> int" where
  "load_chunk cap_len = (if cap_len < 288 then cap_len else 288)"

definition gp_first_block :: "u8 list \<Rightarrow> fmBytes option \<Rightarrow> int \<Rightarrow> fmBytes res" where
  "gp_first_block buf content cap_len =
     bindR (deref content) (\<lambda>ct.
     bindR (get_BERLen (of_int (fb_leng ct)) (replicate 10 0)) (\<lambda>(berlen_len, berlen).
     bindR (wr buf 0 0xC4) (\<lambda>buf.
     bindR (rdn berlen 0 berlen_len) (\<lambda>xs. bindR (wrn buf 1 xs) (\<lambda>buf.
     let pos = (1 :: u8) + of_int berlen_len in
     bindR (deref (fb_buf ct)) (\<lambda>cb. bindR (rdn cb 0 (load_chunk cap_len)) (\<lambda>xs.
     bindR (wrn buf (uint pos) xs) (\<lambda>buf.
       Inr \<lparr>fb_size = uint MAX_APDU_LEN, fb_leng = uint (pos + of_int (load_chunk cap_len)),
            fb_buf = Some buf\<rparr>))))))))"

text \<open>
  The loop over the rest of the file. The data pointer of a block is the start of the file plus
  \<open>pos\<close>, and the remaining length shrinks by \<open>pos\<close>, not by the size of the block.
\<close>

function load_loop ::
  "gp_env \<Rightarrow> fmBytes option \<Rightarrow> u8 list \<Rightarrow> int \<Rightarrow> u8 \<Rightarrow> u8 \<Rightarrow> sk_buff list \<Rightarrow> int \<Rightarrow> (sk_buff list \<times> int) res"
where
  "load_loop e agent cb cap_len pos block_num q glb =
     (if cap_len > 0
      then let (n, p1) = (if cap_len > MAX_LOAD_DATA_SIZE then (MAX_LOAD_DATA_SIZE, 0x80) else (cap_len, 0x00));
               data = \<lparr>fb_size = uint MAX_APDU_LEN, fb_leng = n, fb_buf = Some (drop (unat pos) cb)\<rparr>;
               pos' = pos + of_int n
           in bindR (gp_packet e glb agent (gp_load_raw e p1 block_num (Some data)) q) (\<lambda>(q, glb).
                load_loop e agent cb (cap_len - uint pos') pos' (block_num + 1) q glb)
      else Inr (q, glb))"
  by pat_completeness auto

lemma load_loop_step:
  fixes pos :: u8
  assumes "0 < n" and "n \<le> 232" and "n \<le> cap_len"
  shows "2 * nat (cap_len - uint (pos + of_int n)) + (if pos + of_int n = 0 then 0 else 1)
    < 2 * nat cap_len + (if pos = 0 then 0 else (1 :: nat))"
proof (cases "pos + of_int n = 0")
  case True
  have "(of_int n :: u8) \<noteq> 0"
  proof
    assume "(of_int n :: u8) = 0"
    then have "n mod 256 = 0" by (simp add: of_int_eq_0_iff word_of_int_eq_0_iff take_bit_eq_mod)
    then show False using assms by simp
  qed
  then have "pos \<noteq> 0" using True by auto
  then show ?thesis using True by simp
next
  case False
  then have "0 < uint (pos + of_int n)"
    by (simp add: word_neq_0_conv [symmetric] word_greater_zero_iff [symmetric] word_less_def)
  then show ?thesis using False assms by auto
qed

termination load_loop
proof (relation "measure (\<lambda>(e, agent, cb, cap_len, pos, bn, q, glb).
    2 * nat cap_len + (if pos = 0 then 0 else 1))", goal_cases)
  case 1
  then show ?case by simp
next
  case (2 e agent cb cap_len pos block_num q glb x n p1 data pos' y q' glb')
  then have "0 < n" "n \<le> 232" "n \<le> cap_len" "pos' = pos + of_int n"
    by (auto simp: MAX_LOAD_DATA_SIZE_def split: if_splits)
  then show ?case using load_loop_step [of n cap_len pos] by simp
qed

declare load_loop.simps [simp del]

definition gp_install_for_load_and_load :: gp_bytecode where
  "gp_install_for_load_and_load e CCB glb rsp arg =
     bindR (arg_at arg 0) (\<lambda>agent. bindR (arg_at arg 1) (\<lambda>sd_aid.
     bindR (data_get_by_name (Some CCB) (cname ''cap pkg aid'')) (\<lambda>pkg_aid.
     bindR (data_get_by_name (Some CCB) (cname ''cap hash'')) (\<lambda>hash.
     bindR (data_get_by_name (Some CCB) (cname ''load parameter'')) (\<lambda>load_parm.
     bindR (data_get_by_name (Some CCB) (cname ''cap content'')) (\<lambda>content.
     bindR (data_get_by_name (Some CCB) (cname ''token'')) (\<lambda>load_token.
     bindR (fmBytes_get_length content) (\<lambda>cap_len.
     bindR (gp_packet e glb agent (gp_install_for_load_raw e pkg_aid sd_aid hash load_parm load_token) [])
       (\<lambda>(q, glb).
     bindR (gp_packet e glb agent (\<lambda>skb.
         bindR (gp_first_block (skb_stack e skb) content cap_len) (\<lambda>data.
           gp_load_raw e (if cap_len < 288 then 0x80 else 0) 0 (Some data) skb)) q) (\<lambda>(q, glb).
     bindR (deref (fmBytes_get_buf content)) (\<lambda>cb.
     let pos = of_int (load_chunk cap_len) :: u8 in
     bindR (load_loop e agent cb (cap_len - uint pos) pos 1 q glb) (to_bootstrap 0 CCB))))))))))))"

definition gp_install_for_extradition :: gp_bytecode where
  "gp_install_for_extradition e CCB glb rsp arg =
     bindR (arg_at arg 0) (\<lambda>agent. bindR (arg_at arg 1) (\<lambda>dest_aid. bindR (arg_at arg 2) (\<lambda>app_aid.
     bindR (arg_at arg 3) (\<lambda>parm.
     bindR (data_get_by_name (Some CCB) (cname ''token'')) (\<lambda>token.
     bindR (gp_packet e glb agent (gp_install_for_extradition_raw e dest_aid app_aid parm token) [])
       (to_bootstrap (ge_ret e) CCB))))))"

text \<open>One STORE DATA packet for argument \<open>i\<close>; the variable is looked up by the structure.\<close>

definition store_block ::
  "gp_env \<Rightarrow> tsm_ccb \<Rightarrow> fmBytes_array \<Rightarrow> fmBytes option \<Rightarrow> int \<Rightarrow> sk_buff list \<times> u8 \<times> int
     \<Rightarrow> (sk_buff list \<times> u8 \<times> int) res"
where
  "store_block e CCB arg agent i = (\<lambda>(q, blk_num, glb).
     bindR (gp_packet e glb agent (\<lambda>skb.
         bindR (arg_struct arg i) (\<lambda>key. bindR (data_get_by_name (Some CCB) key) (\<lambda>parm.
           gp_store_data_raw e (if i = fa_size arg - 1 then 0x80 else 0x00) blk_num parm skb))) q)
       (\<lambda>(q, glb). Inr (q, blk_num + 1, glb)))"

definition gp_store_data :: gp_bytecode where
  "gp_store_data e CCB glb rsp arg =
     bindR (arg_at arg 0) (\<lambda>agent.
     bindR (foldR (store_block e CCB arg agent) [1..fa_size arg - 1] ([], 0, glb)) (\<lambda>(q, blk_num, glb).
       to_bootstrap 0 CCB (q, glb)))"

text \<open>One forwarded command: its bytes, and the status word behind every packet so far.\<close>

definition traverse_one ::
  "gp_env \<Rightarrow> fmBytes option \<Rightarrow> fmBytes option \<Rightarrow> sk_buff list \<times> int \<Rightarrow> (sk_buff list \<times> int) res"
where
  "traverse_one e agent item = (\<lambda>(q, glb).
     bindR (fmBytes_get_length item) (\<lambda>len.
     bindR (apdu_preprocess e glb agent) (\<lambda>(skb, glb).
     bindR (skb_put skb (of_int len)) (\<lambda>(p, skb).
     bindR (deref (fmBytes_get_buf item)) (\<lambda>buf. bindR (rdn buf 0 len) (\<lambda>xs.
     bindR (skb_store skb p xs) (\<lambda>skb.
     bindR (gp_padding_sw (q @ [skb])) (\<lambda>q. Inr (q, glb)))))))))"

definition gp_traverse :: gp_bytecode where
  "gp_traverse e CCB glb rsp arg =
     bindR (arg_at arg 0) (\<lambda>agent.
     bindR (foldR (\<lambda>i s. bindR (arg_at arg i) (\<lambda>item. traverse_one e agent item s)) [1..fa_size arg - 1]
       ([], glb)) (\<lambda>(q, glb).
     bindR (ccb_set_write_back_only_flag (ge_junk e) (CCB\<lparr>cc_cmdQ := q\<rparr>)) (\<lambda>c. Inr (0, c, glb))))"

definition gp_msg_macing :: gp_bytecode where
  "gp_msg_macing e CCB glb rsp arg =
     bindR (ccb_set_write_back_only_flag (ge_junk e) CCB) (\<lambda>c. Inr (0, c, glb))"

section \<open>Lemmas\<close>

lemma skb_put_bytes_frame:
  "skb_put_bytes xs s = Inr s' \<Longrightarrow> sk_index s' = sk_index s \<and> sk_agent s' = sk_agent s"
  by (auto simp: skb_put_bytes_def skb_put_def skb_store_def bindR_Inr_iff Let_def split: if_splits)

lemma put_all_frame:
  "foldR skb_put_bytes xss s = Inr s' \<Longrightarrow> sk_index s' = sk_index s \<and> sk_agent s' = sk_agent s"
proof (induction xss arbitrary: s)
  case (Cons xs xss)
  then obtain s1 where "skb_put_bytes xs s = Inr s1" "foldR skb_put_bytes xss s1 = Inr s'"
    by (auto simp: bindR_Inr_iff)
  then show ?case using Cons.IH [of s1] skb_put_bytes_frame [of xs s s1] by simp
qed simp

lemma put_all_ok:
  assumes "skb_ok s" and "sum_list (map length xss) \<le> skb_rear s"
  obtains s' where "foldR skb_put_bytes xss s = Inr s'" "skb_ok s'"
    "skb_body s' = skb_body s @ concat xss" "skb_front s' = skb_front s"
    "skb_rear s' = skb_rear s - sum_list (map length xss)" "sk_index s' = sk_index s"
    "sk_agent s' = sk_agent s"
  using skb.append_all [OF assms] put_all_frame by blast

lemma put_all_Hang:
  "skb_ok s \<Longrightarrow> foldR skb_put_bytes xss s \<in> insert (Inl Hang) (Inr ` {s'. skb_ok s'}) \<or>
     (\<exists>xs\<in>set xss. 2 ^ 32 \<le> length xs)"
proof (induction xss arbitrary: s)
  case (Cons xs xss)
  show ?case
  proof (cases "length xs \<le> skb_rear s")
    case True
    then obtain s' where "skb_put_bytes xs s = Inr s'" "skb_ok s'"
      using skb.append_ok [OF Cons.prems] by blast
    then show ?thesis using Cons.IH [of s'] by auto
  next
    case False
    then show ?thesis using skb.append_full [OF Cons.prems, of xs] by force
  qed
qed simp

text \<open>A packet that was just prepared for an agent.\<close>

definition fresh_apdu :: "fmBytes \<Rightarrow> int \<Rightarrow> sk_buff \<Rightarrow> bool" where
  "fresh_apdu agent i s \<longleftrightarrow> skb_ok s \<and> skb_body s = [] \<and> skb_front s = 3 \<and> skb_rear s = 297
     \<and> sk_index s = i \<and> (\<exists>a. sk_agent s = Some a \<and> fb_bytes a = fb_bytes agent)"

lemma apdu_preprocess_ok:
  assumes "fb_ok agent"
  obtains s where "apdu_preprocess e i (Some agent) = Inr (s, i + 1)" "fresh_apdu agent i s"
proof -
  obtain s where s: "alloc_skb (ge_raw e i) i True True MAX_APDU_LEN = (Some s, i + 1)" "sk_index s = i"
    by (simp add: alloc_skb_def)
  have "0 < MAX_APDU_LEN" by (simp add: MAX_APDU_LEN_def)
  note a = alloc_skb_ok [OF this s(1)]
  have len: "0 \<le> fb_leng agent" using assms by (auto elim!: fb_okE)
  then obtain d where d: "fmBytes_alloc True True (fb_leng agent) = Some d" "fb_ok d"
      "fb_size d = fb_leng agent" "fb_leng d = 0" "fb_bytes d = []"
    by (simp add: fmBytes_alloc_def fb_ok_def fb_bytes_def)
  obtain d' where d': "fmBytes_copy (Some d) 0 (Some agent) 0 (fb_leng agent) = Inr (0, Some d')"
      "fb_bytes d' = fb_bytes agent"
    using fmBytes_copy_append [OF d(2) assms, of 0 "fb_leng agent"] d len
      fb_bytes_length [OF assms] by auto
  define t where "t = skb_reserve (s\<lparr>sk_agent := Some d'\<rparr>) TAG_A0_HEAD_ROOM"
  have r: "t = (skb_reserve s (int 3))\<lparr>sk_agent := Some d'\<rparr>"
    by (simp add: t_def skb_reserve_def TAG_A0_HEAD_ROOM_def)
  have room: "3 \<le> skb_rear s" using a by (simp add: MAX_APDU_LEN_def)
  note q = skb_reserve_ok [OF a(1,2) room]
  have "fresh_apdu agent i t"
    using q a s d' unfolding fresh_apdu_def r
    by (simp add: skb_ok_def skb_body_def skb_front_def skb_rear_def MAX_APDU_LEN_def skb_reserve_def)
  moreover have "apdu_preprocess e i (Some agent) = Inr (t, i + 1)"
    using s d d' by (simp add: apdu_preprocess_def t_def)
  ultimately show ?thesis by (rule that [rotated])
qed

lemma make_apdu_empty:
  assumes "skb_ok s" and "5 \<le> skb_rear s" and "case data of None \<Rightarrow> True | Some d \<Rightarrow> of_int (fb_leng d) = (0 :: u8)"
  obtains s' where "gp_make_apdu e cla ins p1 p2 data (Some s) = Inr (FM_OK, Some s')" "skb_ok s'"
    "skb_body s' = skb_body s @ [cla, ins, p1, p2, 0]" "skb_front s' = skb_front s"
    "skb_rear s' = skb_rear s - 5" "sk_index s' = sk_index s" "sk_agent s' = sk_agent s"
proof -
  have dl: "sk_data_len s \<noteq> 0" using assms(1) by (auto simp: skb_ok_def)
  define hs :: "u8 list list" where "hs = [[cla], [ins], [p1], [p2], [0]]"
  have hs: "sum_list (map length hs) = 5" "concat hs = [cla, ins, p1, p2, 0]" by (simp_all add: hs_def)
  obtain s' where
    s': "foldR skb_put_bytes hs s = Inr s'" "skb_ok s'"
      "skb_body s' = skb_body s @ [cla, ins, p1, p2, 0]" "skb_front s' = skb_front s"
      "skb_rear s' = skb_rear s - 5" "sk_index s' = sk_index s" "sk_agent s' = sk_agent s"
    using put_all_ok [OF assms(1), of hs] assms(2) unfolding hs by blast
  have "gp_make_apdu e cla ins p1 p2 data (Some s) = Inr (FM_OK, Some s')"
    using s'(1) dl assms(3) unfolding hs_def
    by (cases data) (simp_all add: gp_make_apdu_def del: foldR.simps)
  then show ?thesis using s' that by blast
qed

text \<open>Preparing a packet and giving it a command without data.\<close>

lemma gp_packet_empty:
  assumes "fb_ok agent"
    and "\<And>s. cmd (Some s) = gp_make_apdu e cla ins p1 p2 data (Some s)"
    and "case data of None \<Rightarrow> True | Some d \<Rightarrow> of_int (fb_leng d) = (0 :: u8)"
  shows "\<exists>s. gp_packet e i (Some agent) cmd q = Inr (q @ [s], i + 1) \<and> skb_ok s
    \<and> skb_body s = [cla, ins, p1, p2, 0] \<and> skb_front s = 3 \<and> skb_rear s = 292
    \<and> map_option fb_bytes (sk_agent s) = Some (fb_bytes agent)"
proof -
  obtain s0 where s0: "apdu_preprocess e i (Some agent) = Inr (s0, i + 1)" "fresh_apdu agent i s0"
    by (rule apdu_preprocess_ok [OF assms(1)])
  then have f: "skb_ok s0" "skb_body s0 = []" "skb_front s0 = 3" "skb_rear s0 = 297"
      "map_option fb_bytes (sk_agent s0) = Some (fb_bytes agent)"
    by (auto simp: fresh_apdu_def)
  have room: "5 \<le> skb_rear s0" using f(4) by simp
  obtain s where s: "gp_make_apdu e cla ins p1 p2 data (Some s0) = Inr (FM_OK, Some s)" "skb_ok s"
      "skb_body s = skb_body s0 @ [cla, ins, p1, p2, 0]" "skb_front s = skb_front s0"
      "skb_rear s = skb_rear s0 - 5" "sk_agent s = sk_agent s0"
    by (rule make_apdu_empty [OF f(1) room assms(3)])
  have "gp_packet e i (Some agent) cmd q = Inr (q @ [s], i + 1)"
    by (simp add: gp_packet_def s0(1) assms(2) s(1))
  then show ?thesis using f s by (intro exI [of _ s]) auto
qed

lemma arg_byte_ok:
  assumes "fb_ok p" and "fb_bytes p = k # ks"
  shows "arg_byte (Some p) = Inr k"
proof -
  obtain b where "fb_buf p = Some b" "fb_bytes p = take (nat (fb_leng p)) b"
    using assms(1) by (auto elim!: fb_okE)
  with assms(2) show ?thesis by (cases b) (auto simp: arg_byte_def rd_def take_Cons' split: if_splits)
qed

lemma to_bootstrap_ok [simp]:
  "to_bootstrap r c (q, i) = Inr (r, c\<lparr>cc_apduQ := q, cc_bootstrap := 1\<rparr>, i)"
  by (simp add: to_bootstrap_def ccb_set_bootstrap_def)

text \<open>An environment for the witnesses.\<close>

definition demo_env :: gp_env where
  "demo_env = \<lparr>ge_raw = \<lambda>_. raw_skb, ge_stack = \<lambda>_. replicate 300 0xCC, ge_low = \<lambda>_. 8, ge_ret = 7, ge_junk = 0\<rparr>"

definition demo_args :: "fmBytes list \<Rightarrow> fmBytes_array" where
  "demo_args ps = \<lparr>fa_size = int (length ps), fa_cnt = int (length ps), fa_array = map Some ps\<rparr>"

lemma demo_args_at [simp]:
  "i < length ps \<Longrightarrow> arg_at (demo_args ps) (int i) = Inr (Some (ps ! i))"
  "ps \<noteq> [] \<Longrightarrow> arg_at (demo_args ps) 0 = Inr (Some (ps ! 0))"
  "fa_size (demo_args ps) = int (length ps)"
  by (simp_all add: arg_at_def demo_args_def rd_def)

section \<open>Properties\<close>

text \<open>
  C31. \<open>gp_put_key\<close> discards the waiting commands, queues exactly the command PUT KEY for the key
  version it is given, tagged with a copy of the agent and with headroom for its \<open>A0\<close> header, and
  asks for the message code.
\<close>

theorem gp_put_key_queues:
  assumes "arg_at arg 0 = Inr (Some agent)" and "arg_at arg 1 = Inr (Some kv)"
    and "fb_ok agent" and "fb_ok kv" and "fb_bytes kv = k # ks"
  shows "\<exists>s. gp_put_key e c i rsp arg = Inr (ge_ret e, c\<lparr>cc_apduQ := [s], cc_bootstrap := 1\<rparr>, i + 1)
    \<and> skb_body s = [0x80, 0xD8, k, 0x81, 0x00] \<and> skb_front s = 3
    \<and> map_option fb_bytes (sk_agent s) = Some (fb_bytes agent)"
proof -
  let ?cmd = "\<lambda>skb. bindR (arg_byte (Some kv)) (\<lambda>k. gp_put_key_raw e k 0x81 None skb)"
  have "?cmd (Some s) = gp_make_apdu e 0x80 0xD8 k 0x81 None (Some s)" for s
    by (simp add: arg_byte_ok [OF assms(4,5)] gp_put_key_raw_def gp_consts)
  from gp_packet_empty [where cmd = ?cmd and q = "[]" and i = i, OF assms(3) this]
  show ?thesis by (auto simp: gp_put_key_def assms(1,2))
qed

theorem gp_put_key_queues_witness:
  "\<exists>r. gp_put_key demo_env (demo_ccb (fb_of [])) 4 None (demo_args [fb_of [0x73, 0x65], fb_of [0x20]]) = Inr r
     \<and> map skb_body (cc_apduQ (fst (snd r))) = [[0x80, 0xD8, 0x20, 0x81, 0x00]]"
  using gp_put_key_queues [of "demo_args [fb_of [0x73, 0x65], fb_of [0x20]]" "fb_of [0x73, 0x65]" "fb_of [0x20]" "0x20" "[]"
      demo_env "demo_ccb (fb_of [])" 4 None] demo_args_at(1) [of 1 "[fb_of [0x73, 0x65], fb_of [0x20]]"]
  by auto

text \<open>
  C32. No command with data is ever built: for data whose length is no multiple of 256,
  \<open>_gp_make_apdu\<close> either refuses with \<open>FM_GEN_ERR_INVALID_LEN\<close> and an unchanged packet (when the
  address of the data happens to end in a zero byte), or copies from a wild pointer, or hangs for
  lack of room.
\<close>

theorem gp_make_apdu_data_lost:
  assumes "skb_ok s" and "of_int (fb_leng d) \<noteq> (0 :: u8)" and "fb_buf d = Some b"
  shows "gp_make_apdu e cla ins p1 p2 (Some d) (Some s) \<in>
    (if ge_low e (sk_index s) = 0 then {Inr (FM_GEN_ERR_INVALID_LEN, Some s)}
     else {Inl Wild_Pointer, Inl Hang})"
proof -
  define l where "l = (of_int (fb_leng d) :: u8)"
  define hs where "hs = [[cla], [ins], [p1], [p2], [l]]"
  have dl: "sk_data_len s \<noteq> 0" using assms(1) by (auto simp: skb_ok_def)
  have l: "l \<noteq> 0" using assms(2) by (simp add: l_def)
  show ?thesis
  proof (cases "ge_low e (sk_index s) = 0")
    case True
    then show ?thesis using dl l assms(3) by (simp add: gp_make_apdu_def flip: l_def)
  next
    case False
    have "gp_make_apdu e cla ins p1 p2 (Some d) (Some s) = bindR (foldR skb_put_bytes hs s)
        (\<lambda>s. bindR (skb_put s (ucast l)) (\<lambda>(p, skb). Inl Wild_Pointer))"
      using False dl l assms(3) by (simp add: gp_make_apdu_def hs_def flip: l_def)
    moreover have "foldR skb_put_bytes hs s \<in> insert (Inl Hang) (Inr ` {s'. skb_ok s'})"
      using put_all_Hang [OF assms(1), of hs] by (simp add: hs_def del: foldR.simps)
    moreover have "bindR (skb_put s' (ucast l)) (\<lambda>(p, skb). Inl Wild_Pointer)
        \<in> {Inl Wild_Pointer, Inl Hang :: (int \<times> sk_buff option) res}" for s'
      by (simp add: skb_put_def Let_def)
    ultimately show ?thesis using False by (cases "foldR skb_put_bytes hs s") auto
  qed
qed

theorem gp_make_apdu_data_lost_witness:
  "gp_make_apdu demo_env 0 0xA4 4 0 (Some (fb_of [0xA0, 1])) (fst (alloc_skb raw_skb 0 True True 300))
     \<in> {Inl Wild_Pointer, Inl Hang}"
proof -
  obtain s where s: "alloc_skb raw_skb 0 True True 300 = (Some s, 1)" by (simp add: alloc_skb_def)
  have "skb_ok s" by (rule alloc_skb_ok(1) [OF _ s]) simp
  from gp_make_apdu_data_lost [OF this, of "fb_of [0xA0, 1]" "[0xA0, 1]" demo_env 0 "0xA4" 4 0]
  show ?thesis by (simp add: s demo_env_def)
qed

text \<open>The STORE DATA packets of the first \<open>m\<close> arguments, when none of them names a variable.\<close>

definition store_header :: "nat \<Rightarrow> nat \<Rightarrow> u8 list" where
  "store_header n k = [0x80, 0xE2, if Suc k = n then 0x80 else 0x00, of_nat k, 0x00]"

definition unset_arg :: "tsm_ccb \<Rightarrow> fmBytes_array \<Rightarrow> int \<Rightarrow> bool" where
  "unset_arg c arg i \<longleftrightarrow> (\<exists>key. arg_struct arg i = Inr key \<and> data_get_by_name (Some c) key = Inr None)"

lemma store_blocks:
  assumes "fb_ok agent" and "fa_size arg = int n + 1"
  shows "m \<le> n \<Longrightarrow> \<forall>k\<in>{1..m}. unset_arg c arg (int k) \<Longrightarrow>
    \<exists>q. foldR (store_block e c arg (Some agent)) [1..int m] ([], 0, i) = Inr (q, of_nat m, i + int m)
      \<and> map skb_body q = map (store_header n) [0..<m]"
proof (induction m)
  case (Suc m)
  then obtain q where q: "foldR (store_block e c arg (Some agent)) [1..int m] ([], 0, i)
        = Inr (q, of_nat m, i + int m)" "map skb_body q = map (store_header n) [0..<m]"
    by auto
  obtain key where key: "arg_struct arg (int (Suc m)) = Inr key" "data_get_by_name (Some c) key = Inr None"
    using bspec [OF Suc.prems(2), of "Suc m"] unfolding unset_arg_def by auto
  let ?p1 = "if Suc m = n then 0x80 else 0x00 :: u8"
  define cmd where "cmd = (\<lambda>skb. bindR (arg_struct arg (int (Suc m))) (\<lambda>key.
      bindR (data_get_by_name (Some c) key) (\<lambda>parm.
        gp_store_data_raw e (if int (Suc m) = fa_size arg - 1 then 0x80 else 0x00) (of_nat m) parm skb)))"
  have "cmd (Some s) = gp_make_apdu e 0x80 0xE2 ?p1 (of_nat m) None (Some s)" for s
    using key assms(2) by (auto simp: cmd_def gp_store_data_raw_def gp_consts)
  from gp_packet_empty [where cmd = cmd and q = q and i = "i + int m", OF assms(1) this]
  obtain s where s: "gp_packet e (i + int m) (Some agent) cmd q = Inr (q @ [s], i + int m + 1)"
      "skb_body s = [0x80, 0xE2, ?p1, of_nat m, 0]"
    by auto
  have "store_block e c arg (Some agent) (int (Suc m)) (q, of_nat m, i + int m)
      = Inr (q @ [s], of_nat (Suc m), i + int (Suc m))"
    unfolding store_block_def prod.case cmd_def [symmetric] s(1) by simp
  moreover have "[1..int (Suc m)] = [1..int m] @ [int (Suc m)]" by (simp add: upto_rec2)
  ultimately show ?case
    using q s(2) by (simp only: foldR_append bindR_simps foldR.simps) (simp add: store_header_def)
qed simp

text \<open>
  When none of the arguments names a variable, \<open>gp_store_data\<close> queues one STORE DATA header
  per argument, numbered from 0 and with the last-block flag on the last one only.
\<close>

theorem gp_store_data_blocks:
  assumes "arg_at arg 0 = Inr (Some agent)" and "fb_ok agent" and "fa_size arg = int n + 1"
    and "\<forall>k\<in>{1..n}. unset_arg c arg (int k)"
  shows "\<exists>q. gp_store_data e c i rsp arg = Inr (0, c\<lparr>cc_apduQ := q, cc_bootstrap := 1\<rparr>, i + int n)
    \<and> map skb_body q = map (\<lambda>k. [0x80, 0xE2, if Suc k = n then 0x80 else 0, of_nat k, 0]) [0..<n]"
  using store_blocks [OF assms(2,3) order_refl assms(4), of e i] assms(1,3)
  unfolding store_header_def by (auto simp: gp_store_data_def)

lemma demo_unset:
  assumes "of_int (fb_size p) \<noteq> (97 :: u8)" and "0 < fb_size p" and "fb_size p < 256"
    and "arg_at arg j = Inr (Some p)"
  shows "unset_arg (demo_ccb v) arg j"
proof -
  note k = fb_struct_key [OF assms(2,3)]
  have "data_get_by_name (Some (demo_ccb v)) (fb_struct p) = Inr None"
    using data_get_by_name_ok [OF demo_ccb(1) k(1), of v] k(2) assms(1) by (simp add: demo_ccb(2))
  then show ?thesis using assms(4) by (simp add: unset_arg_def arg_struct_def)
qed

theorem gp_store_data_blocks_example:
  "\<exists>r. gp_store_data demo_env (demo_ccb (fb_of [])) 4 None (demo_args [fb_of [1], fb_of [2, 3], fb_of [4]]) = Inr r
     \<and> map skb_body (cc_apduQ (fst (snd r))) = [[0x80, 0xE2, 0, 0, 0], [0x80, 0xE2, 0x80, 1, 0]]"
proof -
  let ?arg = "demo_args [fb_of [1], fb_of [2, 3], fb_of [4]]"
  have at: "arg_at ?arg 1 = Inr (Some (fb_of [2, 3]))" "arg_at ?arg 2 = Inr (Some (fb_of [4]))"
    by (simp_all add: arg_at_def demo_args_def rd_def)
  have "{1..2} = {1, 2 :: nat}" by auto
  then have "\<forall>k\<in>{1..2}. unset_arg (demo_ccb (fb_of [])) ?arg (int k)"
    using demo_unset [OF _ _ _ at(1)] demo_unset [OF _ _ _ at(2)] by simp
  from gp_store_data_blocks [of ?arg "fb_of [1]" 2, OF _ _ _ this, of demo_env 4 None]
  show ?thesis by (auto simp: numeral_2_eq_2)
qed
section \<open>Data fields and forwarded commands\<close>

text \<open>A field with its length in front; a missing field is the length 0.\<close>

definition field_lv :: "fmBytes option \<Rightarrow> u8 list" where
  "field_lv f = (case f of None \<Rightarrow> [0] | Some s \<Rightarrow> of_nat (length (fb_bytes s)) # fb_bytes s)"

definition field_ok :: "fmBytes option \<Rightarrow> bool" where
  "field_ok f \<longleftrightarrow> (case f of None \<Rightarrow> True | Some s \<Rightarrow> fb_ok s \<and> length (fb_bytes s) \<le> 255)"

lemma add_field_ok:
  assumes "field_ok f" and "length pre + length (field_lv f) \<le> length b" and "take (length pre) b = pre"
  shows "\<exists>b'. add_field f (int (length pre), b) = Inr (int (length (pre @ field_lv f)), b')
    \<and> length b' = length b \<and> take (length (pre @ field_lv f)) b' = pre @ field_lv f
    \<and> drop (length (pre @ field_lv f)) b' = drop (length (pre @ field_lv f)) b"
proof (cases f)
  case None
  have "length pre < length b" using assms(2) None by (simp add: field_lv_def)
  then show ?thesis
    using None assms(3)
    by (simp add: add_field_def fmbytes_concat_with_len_def field_lv_def wr_nat take_update_last)
next
  case (Some s)
  let ?xs = "fb_bytes s" and ?l = "of_nat (length (fb_bytes s)) :: u8"
  let ?i = "length pre"
  have s: "fb_ok s" "length ?xs \<le> 255" "?i + Suc (length ?xs) \<le> length b"
    using assms(1,2) Some by (auto simp: field_ok_def field_lv_def)
  obtain r where r: "fb_buf s = Some (?xs @ r)" "fb_leng s = int (length ?xs)"
    using fb_ok_read [OF s(1) refl] by blast
  have i: "?i < length b" using s(3) by simp
  let ?b1 = "b[?i := ?l]"
  let ?b2 = "take (Suc ?i) ?b1 @ ?xs @ drop (Suc ?i + length ?xs) ?b1"
  have t: "take (Suc ?i) ?b1 = pre @ [?l]" using i assms(3) by (simp add: take_update_last)
  have "wr b (int ?i) ?l = Inr ?b1" using i by (rule wr_nat)
  moreover have "rdn (?xs @ r) 0 (int (length ?xs)) = Inr ?xs" by (simp add: rdn_def)
  moreover have "wrn ?b1 (int (Suc ?i)) ?xs = Inr ?b2" using s(3) by (intro wrn_nat) simp
  moreover have "rd ?b2 (int ?i) = Inr ?l" using i assms(3) unfolding t by (simp add: rd_def)
  moreover have "uint ?l = int (length ?xs)"
    using s(2) by (simp add: unsigned_of_nat take_bit_nat_eq_self)
  ultimately have "add_field f (int ?i, b) = Inr (int ?i + (int (length ?xs) + 1), ?b2)"
    using Some by (simp add: add_field_def fmbytes_concat_with_len_def r add.commute)
  moreover have "length ?b2 = length b" using s(3) i by simp
  moreover have "take (?i + Suc (length ?xs)) ?b2 = pre @ ?l # ?xs" unfolding t by simp
  moreover have "drop (?i + Suc (length ?xs)) ?b2 = drop (?i + Suc (length ?xs)) b"
    unfolding t by (simp add: drop_update_cancel)
  ultimately show ?thesis using Some by (simp add: field_lv_def)
qed

lemma add_fields_ok:
  "\<forall>f\<in>set fs. field_ok f \<Longrightarrow> length pre + length (concat (map field_lv fs)) \<le> length b \<Longrightarrow>
   take (length pre) b = pre \<Longrightarrow>
   \<exists>b'. foldR add_field fs (int (length pre), b) = Inr (int (length (pre @ concat (map field_lv fs))), b')
     \<and> length b' = length b
     \<and> take (length (pre @ concat (map field_lv fs))) b' = pre @ concat (map field_lv fs)"
proof (induction fs arbitrary: pre b)
  case (Cons f fs)
  have "field_ok f" "length pre + length (field_lv f) \<le> length b" using Cons.prems by simp_all
  from add_field_ok [OF this Cons.prems(3)] obtain b1 where
    b1: "add_field f (int (length pre), b) = Inr (int (length (pre @ field_lv f)), b1)"
      "length b1 = length b" "take (length (pre @ field_lv f)) b1 = pre @ field_lv f"
    by blast
  have "\<forall>f\<in>set fs. field_ok f" "length (pre @ field_lv f) + length (concat (map field_lv fs)) \<le> length b1"
    using Cons.prems b1(2) by simp_all
  from Cons.IH [OF this b1(3)] show ?case by (simp add: b1(1,2) add.assoc del: of_nat_add)
qed simp

text \<open>
  The data of INSTALL [for install and make selectable] is the six fields in order, each
  with its length in front and a missing one as the length 0, and nothing else, as long as they
  fit the 300 bytes on the stack.
\<close>

theorem install_selectable_layout:
  assumes "\<forall>f\<in>{pkg, app, ins, priv, parm, token}. field_ok f"
    and "length (concat (map field_lv [pkg, app, ins, priv, parm, token])) \<le> length stack"
  shows "\<exists>pb. install_selectable_data stack pkg app ins priv parm token = Inr pb
    \<and> fb_bytes (apdu_data pb) = concat (map field_lv [pkg, app, ins, priv, parm, token])"
proof -
  define fs where "fs = [pkg, app, ins, priv, parm, token]"
  have "\<forall>f\<in>set fs. field_ok f" using assms(1) by (simp add: fs_def)
  from add_fields_ok [OF this, of "[]" stack] show ?thesis
    using assms(2) unfolding install_selectable_data_def fs_def [symmetric]
    by (auto simp: apdu_data_def fb_bytes_def)
qed

theorem install_selectable_layout_example:
  "\<exists>pb. install_selectable_data (replicate 300 0) (Some (fb_of [0xA0, 1])) None (Some (fb_of [7])) None None None
       = Inr pb \<and> fb_bytes (apdu_data pb) = [2, 0xA0, 1, 0, 1, 7, 0, 0, 0]"
  using install_selectable_layout [of "Some (fb_of [0xA0, 1])" None "Some (fb_of [7])" None None None "replicate 300 0"]
  by (simp add: field_ok_def field_lv_def)

text \<open>
  The data of INSTALL [for personalization] has five bytes that were never set: two before
  the length-prefixed identifier and three after it are what the stack happened to hold.
\<close>

theorem install_personalize_leaks:
  assumes "field_ok (Some aid)" and "length (fb_bytes aid) + 6 \<le> length stack"
  shows "\<exists>pb. install_personalize_data stack (Some aid) = Inr pb
    \<and> fb_bytes (apdu_data pb) = take 2 stack @ field_lv (Some aid)
         @ take 3 (drop (length (fb_bytes aid) + 3) stack)"
proof -
  have pre: "length (take 2 stack) = 2" "take (length (take 2 stack)) stack = take 2 stack"
    using assms(2) by simp_all
  let ?n = "length (fb_bytes aid)"
  have lv: "length (field_lv (Some aid)) = Suc ?n" by (simp add: field_lv_def)
  obtain b' where b': "add_field (Some aid) (2, stack) = Inr (int (3 + ?n), b')" "length b' = length stack"
      "take (3 + ?n) b' = take 2 stack @ field_lv (Some aid)" "drop (3 + ?n) b' = drop (3 + ?n) stack"
    using add_field_ok [OF assms(1), of "take 2 stack" stack] pre assms(2) lv
    by (auto simp: numeral_3_eq_3)
  have "take (3 + ?n + 3) b' = take 2 stack @ field_lv (Some aid) @ take 3 (drop (3 + ?n) stack)"
    by (simp only: take_add [of "3 + ?n" 3 b'] b'(3,4) append_assoc)
  moreover have "nat (int (3 + ?n) + 3) = 3 + ?n + 3" by simp
  ultimately show ?thesis
    by (simp add: install_personalize_data_def b'(1) skip_field_def apdu_data_def fb_bytes_def add.commute del: of_nat_add)
qed

theorem install_personalize_leaks_example:
  "\<exists>pb. install_personalize_data [91, 92, 93, 94, 95, 96, 97, 98] (Some (fb_of [0xA0])) = Inr pb
     \<and> fb_bytes (apdu_data pb) = [91, 92, 1, 0xA0, 95, 96, 97]"
  using install_personalize_leaks [of "fb_of [0xA0]" "[91, 92, 93, 94, 95, 96, 97, 98]"]
  by (simp add: field_ok_def field_lv_def numeral_eq_Suc)

section \<open>Forwarding commands\<close>

definition sw :: "u8 list" where "sw = [0x90, 0x00]"

definition padded :: "sk_buff \<Rightarrow> sk_buff \<Rightarrow> bool" where
  "padded s s' \<longleftrightarrow> skb_ok s' \<and> skb_body s' = skb_body s @ sw \<and> skb_rear s' = skb_rear s - 2"

lemma padding_one:
  assumes "skb_ok s" and "2 \<le> skb_rear s"
  obtains s' where "foldR skb_put_bytes [[0x90], [0x00]] s = Inr s'" "padded s s'"
proof -
  define hs :: "u8 list list" where "hs = [[0x90], [0x00]]"
  have "sum_list (map length hs) = 2" "concat hs = sw" by (simp_all add: hs_def sw_def)
  then show ?thesis
    using put_all_ok [OF assms(1), of hs] assms(2) that unfolding padded_def hs_def [symmetric] by metis
qed

lemma padding_sw_ok:
  assumes "\<forall>s\<in>set q. skb_ok s \<and> 2 \<le> skb_rear s"
  obtains q' where "gp_padding_sw q = Inr q'" "list_all2 padded q q'"
proof -
  have "\<exists>q'. foldR (\<lambda>pos q. bindR (foldR skb_put_bytes [[0x90], [0x00]] pos) (\<lambda>pos. Inr (q @ [pos]))) q acc
      = Inr (acc @ q') \<and> list_all2 padded q q'" for acc
    using assms
  proof (induction q arbitrary: acc)
    case (Cons s q)
    obtain s' where s': "foldR skb_put_bytes [[0x90], [0x00]] s = Inr s'" "padded s s'"
      using padding_one Cons.prems by auto
    obtain q' where "foldR (\<lambda>pos q. bindR (foldR skb_put_bytes [[0x90], [0x00]] pos) (\<lambda>pos. Inr (q @ [pos]))) q
        (acc @ [s']) = Inr ((acc @ [s']) @ q')" "list_all2 padded q q'"
      using Cons.IH [of "acc @ [s']"] Cons.prems by auto
    then show ?case using s' by (subst foldR.simps) (auto simp del: foldR.simps)
  qed simp
  from this [of "[]"] show ?thesis using that unfolding gp_padding_sw_def by auto
qed

text \<open>The bodies of the packets after forwarding the given commands, with \<open>n\<close> more to come.\<close>

fun forwarded :: "u8 list list \<Rightarrow> u8 list list" where
  "forwarded [] = []"
| "forwarded (x # xs) = (x @ concat (replicate (Suc (length xs)) sw)) # forwarded xs"

lemma list_all2_padded:
  assumes "list_all2 padded q q'"
  shows "map skb_body q' = map (\<lambda>b. b @ sw) (map skb_body q)" and "map skb_rear q' = map (\<lambda>n. n - 2) (map skb_rear q)"
    and "\<forall>s\<in>set q'. skb_ok s"
  using assms by (induction rule: list_all2_induct) (auto simp: padded_def)

lemma traverse_one_ok:
  assumes "fb_ok agent" and "fb_ok x" and "length (fb_bytes x) + 2 \<le> 297"
    and "\<forall>s\<in>set q. skb_ok s \<and> 2 \<le> skb_rear s"
  obtains q' where "traverse_one e (Some agent) (Some x) (q, i) = Inr (q', i + 1)"
    "map skb_body q' = map (\<lambda>b. b @ sw) (map skb_body q @ [fb_bytes x])"
    "map skb_rear q' = map (\<lambda>n. n - 2) (map skb_rear q @ [297 - length (fb_bytes x)])"
    "\<forall>s\<in>set q'. skb_ok s"
proof -
  obtain s0 where s0: "apdu_preprocess e i (Some agent) = Inr (s0, i + 1)" "fresh_apdu agent i s0"
    by (rule apdu_preprocess_ok [OF assms(1)])
  then have f: "skb_ok s0" "skb_body s0 = []" "skb_rear s0 = 297"
    by (auto simp: fresh_apdu_def)
  have "length (fb_bytes x) \<le> skb_rear s0" using f assms(3) by simp
  from skb_put_bytes_ok [OF f(1) this] obtain s1 where s1: "skb_put_bytes (fb_bytes x) s0 = Inr s1"
      "skb_ok s1" "skb_body s1 = fb_bytes x" "skb_rear s1 = 297 - length (fb_bytes x)"
    using f by auto
  obtain r where r: "fb_buf x = Some (fb_bytes x @ r)" "fb_leng x = int (length (fb_bytes x))"
    using fb_ok_read [OF assms(2) refl] by blast
  have ok: "\<forall>s\<in>set (q @ [s1]). skb_ok s \<and> 2 \<le> skb_rear s"
    using assms(3,4) s1 by auto
  obtain q' where q': "gp_padding_sw (q @ [s1]) = Inr q'" "list_all2 padded (q @ [s1]) q'"
    by (rule padding_sw_ok [OF ok])
  have "traverse_one e (Some agent) (Some x) (q, i) = Inr (q', i + 1)"
    using s1(1) q'(1)
    by (simp add: traverse_one_def s0(1) r rdn_def skb_put_bytes_def split_beta bindR_assoc)
      (auto simp: bindR_Inr_iff)
  then show ?thesis using list_all2_padded [OF q'(2)] s1 by (intro that) auto
qed

lemma traverse_all_ok:
  assumes "fb_ok agent"
  shows "\<forall>x\<in>set xs. fb_ok x \<and> length (fb_bytes x) + 2 * length xs \<le> 297 \<Longrightarrow>
    \<forall>s\<in>set q. skb_ok s \<and> 2 * length xs \<le> skb_rear s \<Longrightarrow>
    \<exists>q'. foldR (\<lambda>x. traverse_one e (Some agent) (Some x)) xs (q, i) = Inr (q', i + int (length xs))
      \<and> map skb_body q' = map (\<lambda>b. b @ concat (replicate (length xs) sw)) (map skb_body q)
          @ forwarded (map fb_bytes xs)"
proof (induction xs arbitrary: q i)
  case (Cons x xs)
  have a: "fb_ok x" "length (fb_bytes x) + 2 \<le> 297" "\<forall>s\<in>set q. skb_ok s \<and> 2 \<le> skb_rear s"
    using Cons.prems by auto
  obtain q1 where q1: "traverse_one e (Some agent) (Some x) (q, i) = Inr (q1, i + 1)"
    "map skb_body q1 = map (\<lambda>b. b @ sw) (map skb_body q @ [fb_bytes x])"
    "map skb_rear q1 = map (\<lambda>n. n - 2) (map skb_rear q @ [297 - length (fb_bytes x)])"
    "\<forall>s\<in>set q1. skb_ok s"
    by (rule traverse_one_ok [OF assms a])
  have "\<forall>n\<in>set (map skb_rear q1). 2 * length xs \<le> n"
    unfolding q1(3) using Cons.prems by auto
  then have "\<forall>s\<in>set q1. skb_ok s \<and> 2 * length xs \<le> skb_rear s" using q1(4) by simp
  from Cons.IH [OF _ this, of "i + 1"] obtain q' where
    "foldR (\<lambda>x. traverse_one e (Some agent) (Some x)) xs (q1, i + 1) = Inr (q', i + 1 + int (length xs))"
    "map skb_body q' = map (\<lambda>b. b @ concat (replicate (length xs) sw)) (map skb_body q1)
          @ forwarded (map fb_bytes xs)"
    using Cons.prems by fastforce
  then show ?case unfolding q1(2) by (simp add: q1(1) algebra_simps)
qed simp

text \<open>
  Forwarding \<open>n\<close> commands puts the status word behind the \<open>k\<close>-th packet \<open>n - k + 1\<close> times,
  because every round of the loop pads all packets queued so far: only the last is right.
\<close>

theorem gp_traverse_pads:
  assumes "fb_ok agent" and "\<forall>x\<in>set xs. fb_ok x \<and> length (fb_bytes x) + 2 * length xs \<le> 297"
  shows "\<exists>q. foldR (\<lambda>x. traverse_one e (Some agent) (Some x)) xs ([], i) = Inr (q, i + int (length xs))
    \<and> map skb_body q = forwarded (map fb_bytes xs)"
  using traverse_all_ok [OF assms, of "[]" e i] by simp

theorem gp_traverse_pads_example:
  "\<exists>q. foldR (\<lambda>x. traverse_one demo_env (Some (fb_of [1])) (Some x)) [fb_of [0x00, 0x84], fb_of [0x80]] ([], 0)
     = Inr (q, 2) \<and> map skb_body q = [[0x00, 0x84, 0x90, 0x00, 0x90, 0x00], [0x80, 0x90, 0x00]]"
  using gp_traverse_pads [of "fb_of [1]" "[fb_of [0x00, 0x84], fb_of [0x80]]" demo_env 0]
  by (simp add: sw_def del: foldR.simps)

end
