(* ===== verification/Tsm_System.thy ===== *)
theory Tsm_System
  imports Tsm_Router Bc_Rsp Bc_Gp
begin

text \<open>
  The byte codes of the three libraries as the functions the interpreter calls. A library lists its
  functions in the order of its header; \<open>addr\<close> is the address the linker gives a name. Reading
  indeterminate memory is the environment of the byte codes.
\<close>

section \<open>The linked libraries\<close>

record bc_env =
  be_ret :: u32
  be_rets :: "int \<Rightarrow> u32"
  be_gp :: gp_env
  be_glb :: int

definition tsm_reserve :: bytecode where
  "tsm_reserve CCB rsp arg = Inr (0, CCB)"

text \<open>A GlobalPlatform byte code as a function of the interpreter; \<open>be_glb\<close> is the index its first
  packet gets.\<close>

definition gp_code :: "bc_env \<Rightarrow> gp_bytecode \<Rightarrow> bytecode" where
  "gp_code e f CCB rsp arg = bindR (f (be_gp e) CCB (be_glb e) rsp arg) (\<lambda>(rc, c, glb). Inr (rc, c))"

definition libbc_gp :: "bc_env \<Rightarrow> (string \<times> bytecode) list" where
  "libbc_gp e = map (\<lambda>(n, f). (n, gp_code e f))
     [(''gp_select'', gp_select), (''gp_init_update'', gp_init_update), (''gp_ext_auth'', gp_ext_auth),
      (''gp_get_status'', gp_get_status),
      (''gp_install_for_install_make_selectable'', gp_install_for_install_make_selectable),
      (''gp_install_for_personalize'', gp_install_for_personalize), (''gp_put_key'', gp_put_key),
      (''gp_install_for_load_and_load'', gp_install_for_load_and_load),
      (''gp_install_for_extradition'', gp_install_for_extradition), (''gp_store_data'', gp_store_data),
      (''gp_traverse'', gp_traverse), (''gp_msg_macing'', gp_msg_macing)]"

definition libbc_rsp :: "bc_env \<Rightarrow> (string \<times> bytecode) list" where
  "libbc_rsp e =
     [(''rsp_test_tail_jne'', rsp_test_tail_jne (be_ret e)), (''rsp_test_tail_je'', rsp_test_tail_je (be_ret e)),
      (''rsp_test_head_jne'', rsp_test_head_jne (be_ret e)), (''rsp_test_head_je'', rsp_test_head_je (be_ret e)),
      (''rsp_is_scp02_ok'', rsp_is_scp02_ok (be_ret e)), (''rsp_is_app_exsit_je'', rsp_is_app_exsit_je (be_ret e)),
      (''rsp_is_personalized_je'', rsp_is_personalized_je (be_ret e)),
      (''rsp_is_card_active_je'', rsp_is_card_active_je (be_ret e))]"

definition libbc_data :: "bc_env \<Rightarrow> (string \<times> bytecode) list" where
  "libbc_data e =
     [(''data_set'', data_set), (''data_extract_rsp'', data_extract_rsp (be_rets e)),
      (''data_extract'', data_extract (be_rets e)), (''data_add_len'', data_add_len),
      (''data_concat'', data_concat), (''data_reverse'', data_reverse)]"

definition linked :: "bc_env \<Rightarrow> (string \<times> bytecode) list" where
  "linked e = (''tsm_reserve'', tsm_reserve) # libbc_gp e @ libbc_rsp e @ libbc_data e"

definition run_linked :: "bc_env \<Rightarrow> (string \<Rightarrow> u32) \<Rightarrow> bytecode_run" where
  "run_linked e addr f c fba arg =
     (case find (\<lambda>(n, b). addr n = f) (linked e) of
        None \<Rightarrow> Inl Wild_Pointer
      | Some (n, b) \<Rightarrow> bindR (b c fba arg) (\<lambda>(rc, c). Inr c))"

section \<open>What a byte code leaves alone\<close>

text \<open>The session, the script and the byte code table of a control block.\<close>

definition same_code :: "tsm_ccb \<Rightarrow> tsm_ccb \<Rightarrow> bool" where
  "same_code c d \<longleftrightarrow> cc_session c = cc_session d \<and> cc_se c = cc_se d \<and> cc_bc c = cc_bc d"

definition same_PC :: "tsm_ccb \<Rightarrow> tsm_ccb \<Rightarrow> bool" where
  "same_PC c d \<longleftrightarrow> same_code c d \<and> cc_PC c = cc_PC d"

lemma same_refl [simp]: "same_code c c" "same_PC c c"
  by (simp_all add: same_code_def same_PC_def)

lemma same_PC_trans: "same_PC c d \<Longrightarrow> same_PC d e \<Longrightarrow> same_PC c e"
  by (simp add: same_PC_def same_code_def)

lemma foldR_invariant:
  assumes "\<And>x s s'. f x s = Inr s' \<Longrightarrow> P s \<Longrightarrow> P s'"
  shows "foldR f xs s = Inr s' \<Longrightarrow> P s \<Longrightarrow> P s'"
  using assms by (induction xs arbitrary: s) (auto simp: bindR_Inr_iff)

lemma put_var_keeps: "put_var key d c = Inr c' \<Longrightarrow> same_PC c' c"
  by (auto simp: put_var_def bindR_Inr_iff ccb_get_bre_def same_PC_def same_code_def)

lemma fold_keeps:
  assumes "foldR f xs c = Inr c'" and "\<And>x s s'. f x s = Inr s' \<Longrightarrow> same_PC s' s"
  shows "same_PC c' c"
  by (rule foldR_invariant [where f = f and P = "\<lambda>s. same_PC s c", OF _ assms(1)])
    (auto intro: assms(2) same_PC_trans)

lemma data_keeps:
  assumes "(n, b) \<in> set (libbc_data e)" and "b c rsp arg = Inr (rc, c')"
  shows "same_PC c' c"
proof -
  have "data_set c rsp arg = Inr (rc, c') \<Longrightarrow> same_PC c' c"
    by (auto simp: data_set_def bindR_Inr_iff split: if_splits)
      (erule fold_keeps, auto simp: bindR_Inr_iff Let_def split: if_splits intro: put_var_keeps)
  moreover have "data_extract_rsp r c rsp arg = Inr (rc, c') \<Longrightarrow> same_PC c' c" for r
    by (auto simp: data_extract_rsp_def bindR_Inr_iff split: if_splits)
      (erule fold_keeps, auto simp: bindR_Inr_iff Let_def split: if_splits intro: put_var_keeps)
  moreover have "data_extract r c rsp arg = Inr (rc, c') \<Longrightarrow> same_PC c' c" for r
    by (auto simp: data_extract_def bindR_Inr_iff split: if_splits)
      (erule fold_keeps, auto simp: bindR_Inr_iff Let_def split: if_splits intro: put_var_keeps)
  moreover have "data_concat c rsp arg = Inr (rc, c') \<Longrightarrow> same_PC c' c"
    by (auto simp: data_concat_def bindR_Inr_iff intro: put_var_keeps)
  moreover have "data_reverse c rsp arg = Inr (rc, c') \<Longrightarrow> same_PC c' c"
    by (auto simp: data_reverse_def bindR_Inr_iff split: if_splits)
      (erule fold_keeps, auto simp: bindR_Inr_iff Let_def split: if_splits intro: put_var_keeps)
  moreover have "data_add_len c rsp arg = Inr (rc, c') \<Longrightarrow> same_PC c' c"
    by (simp add: data_add_len_def)
  ultimately show ?thesis using assms by (auto simp: libbc_data_def)
qed

lemmas gp_defs = gp_select_def gp_init_update_def gp_ext_auth_def gp_get_status_def
  gp_install_for_install_make_selectable_def gp_install_for_personalize_def gp_put_key_def
  gp_install_for_load_and_load_def gp_install_for_extradition_def gp_store_data_def gp_traverse_def
  gp_msg_macing_def

definition gp_funs :: "gp_bytecode set" where
  "gp_funs = {gp_select, gp_init_update, gp_ext_auth, gp_get_status, gp_install_for_install_make_selectable,
     gp_install_for_personalize, gp_put_key, gp_install_for_load_and_load, gp_install_for_extradition,
     gp_store_data, gp_traverse, gp_msg_macing}"

lemma ensures_to_bootstrap:
  "ensures (\<lambda>(rc, c', g). same_PC c' c \<and> cc_bre c' = cc_bre c) (to_bootstrap r c x)"
  by (auto simp: ensures_def to_bootstrap_def bindR_Inr_iff ccb_set_bootstrap_def same_PC_def same_code_def
      split: prod.splits)

lemma gp_fun_ensures:
  "f \<in> gp_funs \<Longrightarrow> ensures (\<lambda>(rc, c', g). same_PC c' c \<and> cc_bre c' = cc_bre c) (f ge c g rsp arg)"
  unfolding gp_funs_def
  by (elim insertE emptyE; simp only: gp_defs; intro ensures_intros ensures_to_bootstrap; simp)

lemma gp_fun_keeps: "f \<in> gp_funs \<Longrightarrow> f ge c g rsp arg = Inr (rc, c', g') \<Longrightarrow> same_PC c' c \<and> cc_bre c' = cc_bre c"
  using ensuresD [OF gp_fun_ensures] by fastforce

lemma gp_keeps:
  assumes "(n, b) \<in> set (libbc_gp e)" and "b c rsp arg = Inr (rc, c')"
  shows "same_PC c' c"
proof -
  obtain f where f: "b = gp_code e f" "f \<in> gp_funs" using assms(1) by (auto simp: libbc_gp_def gp_funs_def)
  obtain g where "f (be_gp e) c (be_glb e) rsp arg = Inr (rc, c', g)"
    using assms(2) by (auto simp: f(1) gp_code_def bindR_Inr_iff)
  then show ?thesis using gp_fun_keeps [OF f(2)] by blast
qed

lemmas rsp_defs = rsp_test_tail_jne_def rsp_test_tail_je_def rsp_test_head_jne_def rsp_test_head_je_def
  rsp_is_scp02_ok_def rsp_is_app_exsit_je_def rsp_is_personalized_je_def rsp_is_card_active_je_def

lemma rsp_keeps: "(n, b) \<in> set (libbc_rsp e) \<Longrightarrow> b c rsp arg = Inr (rc, c') \<Longrightarrow> same_code c' c"
  by (auto simp: libbc_rsp_def rsp_defs bindR_Inr_iff Let_def same_code_def split: if_splits)

lemma find_SomeD: "find P xs = Some x \<Longrightarrow> x \<in> set xs \<and> P x"
  by (metis find_Some_iff nth_mem)

lemma run_linked_cases:
  assumes "run_linked e addr f c fba arg = Inr c'"
  obtains n b rc where "addr n = f" "b c fba arg = Inr (rc, c')" "(n, b) \<in> set (linked e)"
proof -
  obtain n b where find: "find (\<lambda>(n, b). addr n = f) (linked e) = Some (n, b)"
    using assms unfolding run_linked_def by (auto split: option.splits)
  then obtain rc where "b c fba arg = Inr (rc, c')"
    using assms unfolding run_linked_def by (auto simp: bindR_Inr_iff)
  then show ?thesis using find_SomeD [OF find] by (intro that [of n b rc]) simp_all
qed

lemma run_linked_code: "run_linked e addr f c fba arg = Inr c' \<Longrightarrow> same_code c' c"
  by (erule run_linked_cases)
    (auto simp: linked_def tsm_reserve_def dest: gp_keeps [unfolded same_PC_def] rsp_keeps data_keeps [unfolded same_PC_def])

lemma run_linked_keeps:
  "run_linked e addr f c fba arg = Inr c' \<Longrightarrow> f \<notin> addr ` fst ` set (libbc_rsp e) \<Longrightarrow> same_PC c' c"
  by (erule run_linked_cases) (force simp: linked_def tsm_reserve_def dest: gp_keeps data_keeps)

section \<open>The instruction a session stands at\<close>

definition code_at :: "tsm_ccb \<Rightarrow> (u32 \<times> code_entry) res" where
  "code_at c =
     bindR (deref (cc_se c)) (\<lambda>se. bindR (rd (se_ces se) (cc_PC c)) (\<lambda>p.
     bindR (deref (cc_bc c)) (\<lambda>bc. bindR (deref p) (\<lambda>ce.
     bindR (bc_slot (bc_bc bc) (ce_code ce)) (\<lambda>f. Inr (f, ce))))))"

lemma run_bytecode_code:
  "run_bytecode run view c fba
    = bindR (code_at c) (\<lambda>(f, ce). if f = 0 then Inl Null_Deref else run f c fba (view ce))"
  by (simp add: run_bytecode_def code_at_def bindR_assoc ccb_get_script_def ccb_get_PC_def ccb_get_bytecode_def)

lemma code_at_same: "same_PC c d \<Longrightarrow> code_at c = code_at d"
  by (simp add: same_PC_def same_code_def code_at_def)

text \<open>What the interpreter itself changes in a control block, around the byte code it calls.\<close>

definition vm_frame :: "tsm_ccb \<Rightarrow> tsm_ccb \<Rightarrow> bool" where
  "vm_frame c' c \<longleftrightarrow> same_PC c' c \<and> cc_bre c' = cc_bre c \<and> cc_apduQ c' = cc_apduQ c"

lemma vm_body_ccbs:
  assumes "tsm_vm_body run view lf raw st = Inr st'"
  obtains i fba c c' where "i < length (vm_ccbs st)" "run_bytecode run view (vm_ccbs st ! i) fba = Inr c"
    "vm_ccbs st' = (vm_ccbs st)[i := c']" "vm_frame c' c"
proof -
  obtain skb rpkg where q: "vm_rpkg st = skb # rpkg"
    using assms by (cases "vm_rpkg st") (auto simp: tsm_vm_body_def)
  show ?thesis
    using assms q
    by (auto simp: tsm_vm_body_def bindR_Inr_iff Let_def split_beta ccb_set_bootstrap_def ccb_set_write_back_def
        vm_frame_def same_PC_def same_code_def split: option.splits if_splits dest!: fetch_ccb_Some intro: that)
qed

section \<open>What the interpreter asks of the byte codes\<close>

text \<open>
  The contract between the interpreter and the byte codes it calls: a relation between a control
  block and what an instruction makes of it, that composes and allows for what the interpreter
  changes itself. The interpreter carries such a relation from single instructions to all the
  control blocks of every reachable state of the system.
\<close>

locale run_contract =
  fixes run :: bytecode_run
    and view :: "code_entry \<Rightarrow> fmBytes_array"
    and R :: "tsm_ccb \<Rightarrow> tsm_ccb \<Rightarrow> bool"
  assumes run_R: "run_bytecode run view c fba = Inr c' \<Longrightarrow> R c' c"
    and R_refl: "R c c"
    and R_trans: "R c2 c1 \<Longrightarrow> R c1 c0 \<Longrightarrow> R c2 c0"
    and R_frame: "vm_frame c' c \<Longrightarrow> R c' c"
begin

lemma body: "tsm_vm_body run view lf raw st = Inr st' \<Longrightarrow> list_all2 R (vm_ccbs st') (vm_ccbs st)"
  by (erule vm_body_ccbs)
    (auto simp: list_all2_conv_all_nth nth_list_update R_refl intro: R_trans [OF R_frame run_R])

lemma step_R:
  "system_step run view lf raw os_write (st, ag, w) (st', ag', w') \<Longrightarrow> list_all2 R (vm_ccbs st') (vm_ccbs st)"
  by (auto elim!: system_stepE vm_stepE dest!: body simp: list_all2_refl R_refl)

lemma reachable:
  "(system_step run view lf raw os_write)\<^sup>*\<^sup>* (st0, ag0, w0) (st, ag, w) \<Longrightarrow>
   list_all2 R (vm_ccbs st) (vm_ccbs st0)"
proof (induction "(st, ag, w)" arbitrary: st ag w rule: rtranclp_induct)
  case base
  then show ?case by (simp add: list_all2_refl R_refl)
next
  case (step y)
  obtain st1 ag1 w1 where y: "y = (st1, ag1, w1)" by (cases y)
  from step.hyps(2) have "list_all2 R (vm_ccbs st) (vm_ccbs st1)" unfolding y by (rule step_R)
  then show ?case using step.hyps(3) [OF y] by (rule list_all2_trans [rotated]) (rule R_trans)
qed

end

text \<open>The linked byte codes keep the code of a session, and its place unless that is a branch.\<close>

definition at_branch :: "bc_env \<Rightarrow> (string \<Rightarrow> u32) \<Rightarrow> tsm_ccb \<Rightarrow> bool" where
  "at_branch e addr c \<longleftrightarrow> (\<forall>f ce. code_at c = Inr (f, ce) \<longrightarrow> f \<in> addr ` fst ` set (libbc_rsp e))"

definition keeps_place :: "bc_env \<Rightarrow> (string \<Rightarrow> u32) \<Rightarrow> tsm_ccb \<Rightarrow> tsm_ccb \<Rightarrow> bool" where
  "keeps_place e addr c' c \<longleftrightarrow> same_code c' c \<and> (\<not> at_branch e addr c \<longrightarrow> same_PC c' c)"

lemma at_branch_same: "same_PC c d \<Longrightarrow> at_branch e addr c = at_branch e addr d"
  using code_at_same [of c d] by (simp add: at_branch_def)

interpretation place: run_contract "run_linked e addr" view "keeps_place e addr" for e addr view
proof unfold_locales
  show "run_bytecode (run_linked e addr) view c fba = Inr c' \<Longrightarrow> keeps_place e addr c' c" for c fba c'
    by (auto simp: run_bytecode_code bindR_Inr_iff keeps_place_def at_branch_def split: if_splits
        dest: run_linked_code run_linked_keeps)
  show "keeps_place e addr c2 c1 \<Longrightarrow> keeps_place e addr c1 c0 \<Longrightarrow> keeps_place e addr c2 c0" for c2 c1 c0
    using at_branch_same [of c1 c0 e addr] same_PC_trans [of c2 c1 c0]
    by (auto simp: keeps_place_def same_code_def)
  show "vm_frame c' c \<Longrightarrow> keeps_place e addr c' c" for c' c
    by (auto simp: vm_frame_def keeps_place_def same_PC_def)
qed (simp add: keeps_place_def)

section \<open>Properties\<close>

text \<open>
  C1. In the whole system - interpreter, linked byte codes, sending thread - no byte code changes
  the session, the script or the byte code table of any control block, and a session whose current
  instruction is not a branch of the response library stays at that instruction for ever: nothing
  advances the program counter.
\<close>

theorem script_never_advances:
  assumes "(system_step (run_linked e addr) view lf raw os_write)\<^sup>*\<^sup>* (st0, ag0, w0) (st, ag, w)"
    and "i < length (vm_ccbs st0)"
  shows "same_code (vm_ccbs st ! i) (vm_ccbs st0 ! i)
    \<and> (\<forall>f ce. code_at (vm_ccbs st0 ! i) = Inr (f, ce) \<and> f \<notin> addr ` fst ` set (libbc_rsp e) \<longrightarrow>
         same_PC (vm_ccbs st ! i) (vm_ccbs st0 ! i))"
  using list_all2_nthD2 [OF place.reachable [OF assms(1)] assms(2)]
  by (auto simp: keeps_place_def at_branch_def)

definition demo_ccb :: tsm_ccb where
  "demo_ccb = \<lparr>cc_PC = 0, cc_write_back = 0, cc_bootstrap = 0, cc_session = 7, cc_cmdQ = [], cc_apduQ = [],
     cc_bc = Some \<lparr>bc_cnt = 1, bc_bc = [5, 0, 0, 0]\<rparr>,
     cc_se = Some \<lparr>se_name = None, se_size = 1, se_code_num = 1,
       se_ces = [Some \<lparr>ce_addr = 0, ce_code = 0, ce_parameters = None\<rparr>]\<rparr>, cc_bre = None\<rparr>"

theorem script_never_advances_witness:
  "\<forall>e. \<exists>st. (system_step (run_linked e (\<lambda>n. if n = ''tsm_reserve'' then 5 else 6))
         (\<lambda>ce. \<lparr>fa_size = 0, fa_cnt = 0, fa_array = []\<rparr>) True raw_skb (\<lambda>fd xs w. (0, 0, w)))\<^sup>*\<^sup>*
      (\<lparr>vm_ccbs = [demo_ccb], vm_rpkg = [], vm_wpkg = [], vm_sem_vm = 0, vm_sem_router_w = 0, vm_glb = 0, vm_fba = None\<rparr>,
       \<lparr>ag_list = \<lparr>lt_head = 1, lt_lock = False\<rparr>, ag_entries = []\<rparr>, ()) (st,
       \<lparr>ag_list = \<lparr>lt_head = 1, lt_lock = False\<rparr>, ag_entries = []\<rparr>, ())
    \<and> vm_sem_vm st = 1 \<and> cc_PC (vm_ccbs st ! 0) = 0"
proof
  fix e
  let ?addr = "\<lambda>n. if n = ''tsm_reserve'' then 5 else (6 :: u32)"
  let ?view = "\<lambda>ce :: code_entry. \<lparr>fa_size = 0, fa_cnt = 0, fa_array = []\<rparr>"
  let ?wr = "\<lambda>(fd :: int) (xs :: u8 list) (w :: unit). (0 :: int, 0 :: int, w)"
  let ?s0 = "\<lparr>vm_ccbs = [demo_ccb], vm_rpkg = [], vm_wpkg = [], vm_sem_vm = 0, vm_sem_router_w = 0, vm_glb = 0, vm_fba = None\<rparr>"
  let ?s1 = "?s0\<lparr>vm_rpkg := vm_rpkg ?s0 @ [raw_skb], vm_sem_vm := vm_sem_vm ?s0 + 1\<rparr>"
  let ?ag = "\<lparr>ag_list = \<lparr>lt_head = 1, lt_lock = False\<rparr>, ag_entries = []\<rparr>"
  have r: "(system_step (run_linked e ?addr) ?view True raw_skb ?wr)\<^sup>*\<^sup>* (?s0, ?ag, ()) (?s1, ?ag, ())"
    by (rule r_into_rtranclp, rule system_step.interpret_step, rule vm_step.receive)
  have c: "code_at (vm_ccbs ?s0 ! 0) = Inr (5, \<lparr>ce_addr = 0, ce_code = 0, ce_parameters = None\<rparr>)"
    by (simp add: code_at_def demo_ccb_def rd_def bc_slot_def rdn_def)
  have "same_PC (vm_ccbs ?s1 ! 0) (vm_ccbs ?s0 ! 0)"
    using script_never_advances [OF r, of 0] c by (simp add: libbc_rsp_def)
  then show "\<exists>st. (system_step (run_linked e ?addr) ?view True raw_skb ?wr)\<^sup>*\<^sup>* (?s0, ?ag, ()) (st, ?ag, ())
      \<and> vm_sem_vm st = 1 \<and> cc_PC (vm_ccbs st ! 0) = 0"
    using r by (intro exI [of _ ?s1]) (simp add: same_PC_def demo_ccb_def)
qed

end
