(* ===== verification/Tsm_Types.thy ===== *)
theory Tsm_Types
  imports Tsm_System
begin

text \<open>
  The types the program keeps to but C does not check: the variable table of a session is a
  well-formed table with terminated names, and every variable is NULL or a buffer whose length
  fits its block. A key is the string its pointer points to, which stays what it is for the keys of
  every byte code but \<open>data_concat\<close> (\<open>Bc_Keys\<close>). The other byte codes keep the types, so
  they hold in every reachable state of a system whose scripts do not run \<open>data_concat\<close>.
\<close>

section \<open>Typed variables\<close>

definition val_ok :: "fmBytes option \<Rightarrow> bool" where
  "val_ok v = (case v of None \<Rightarrow> True | Some p \<Rightarrow> fb_ok p)"

definition vars_typed :: "tsm_ccb \<Rightarrow> bool" where
  "vars_typed c = (case cc_bre c of
     None \<Rightarrow> True
   | Some t \<Rightarrow> str_ht_ok t \<and> (\<forall>k v. ht_map cstr t k = Some v \<longrightarrow> val_ok v))"

lemma val_ok_simps [simp]: "val_ok None" "val_ok (Some p) = fb_ok p"
  by (simp_all add: val_ok_def)

lemma str_hash_terminated: "zc_hashtable_str_hash k = Inr h \<Longrightarrow> terminated k"
proof -
  have "str_hash_loop k g = Inr h \<Longrightarrow> 0 \<in> set k" for g
    by (induction k arbitrary: g) (auto split: if_splits)
  then show "zc_hashtable_str_hash k = Inr h \<Longrightarrow> terminated k"
    by (simp add: zc_hashtable_str_hash_def terminated_def)
qed

lemma find_terminated: "str_ht_ok t \<Longrightarrow> ht_find t k = Inr r \<Longrightarrow> terminated k"
  by (auto simp: str_ht_ok_def ht_ok_def ht_find_def bindR_Inr_iff dest: str_hash_terminated)

lemma get_typed:
  assumes "vars_typed c" and "data_get_by_name (Some c) k = Inr v"
  shows "val_ok v"
proof -
  obtain t where t: "cc_bre c = Some t" "zc_hashtable_get t k = Inr v"
    using assms(2) by (auto simp: data_get_by_name_def ccb_get_bre_def deref_def bindR_Inr_iff split: option.splits)
  have ok: "str_ht_ok t" "\<forall>k v. ht_map cstr t k = Some v \<longrightarrow> val_ok v"
    using assms(1) t(1) by (simp_all add: vars_typed_def)
  have "terminated k"
    using t(2) by (auto simp: zc_hashtable_get_def bindR_Inr_iff dest: find_terminated [OF ok(1)])
  then show ?thesis using str_get_ok [OF ok(1)] t(2) ok(2) by (auto split: option.splits)
qed

lemma put_typed:
  assumes "put_var k d c = Inr c'" and "vars_typed c" and "val_ok d"
  shows "vars_typed c'"
proof -
  obtain t rc t' where t: "cc_bre c = Some t" "zc_hashtable_put True True t k d = Inr (rc, t')"
      "c' = c\<lparr>cc_bre := Some t'\<rparr>"
    using assms(1) by (auto simp: put_var_def ccb_get_bre_def deref_def bindR_Inr_iff split: option.splits)
  have ok: "str_ht_ok t" "\<forall>k v. ht_map cstr t k = Some v \<longrightarrow> val_ok v"
    using assms(2) t(1) by (simp_all add: vars_typed_def)
  have "terminated k"
    using t(2) by (auto simp: zc_hashtable_put_def bindR_Inr_iff dest: find_terminated [OF ok(1)])
  then have "str_ht_ok t' \<and> ht_map cstr t' = (ht_map cstr t)(cstr k \<mapsto> d)"
    using strkeys.put_ok [of t k True True d] ok(1) t(2) unfolding str_ht_ok_def by auto
  then show ?thesis using ok(2) assms(3) t(3) by (auto simp: vars_typed_def)
qed

section \<open>What the byte codes store\<close>

lemma alloc_typed: "val_ok (fmBytes_alloc ok1 ok2 n)"
  by (cases "fmBytes_alloc ok1 ok2 n") (auto dest: fmBytes_alloc_ok)

lemma hex_loop_length: "hex_loop ib ob n i = Inr ob' \<Longrightarrow> length ob' = length ob"
  by (induction ib ob n i rule: hex_loop.induct)
    (subst (asm) hex_loop.simps, auto simp: bindR_Inr_iff split: if_splits dest: wr_Inr_length)

lemma hex_typed:
  assumes "fmBytes_get_length a = Inr n" and "hexstr_to_hex a (fmBytes_alloc True True (half n)) = Inr (rc, hex)"
  shows "val_ok hex"
proof -
  obtain p where p: "fmBytes_alloc True True (half n) = Some p"
    using assms(2) by (cases "fmBytes_alloc True True (half n)")
      (auto simp: hexstr_to_hex_def bindR_Inr_iff fmBytes_get_size_def)
  have ok: "fb_ok p" "fb_size p = half n" and h: "0 \<le> half n"
    using fmBytes_alloc_ok [OF p] p by (auto simp: fmBytes_alloc_def split: if_splits)
  then obtain b where b: "fb_buf p = Some b" "fb_size p = int (length b)" by (auto elim: fb_okE)
  show ?thesis
    using assms ok h b
    by (auto simp: p hexstr_to_hex_def bindR_Inr_iff fmBytes_get_size_def fmBytes_set_length_def
        fmBytes_set_buf_def fb_ok_def split: if_splits dest!: hex_loop_length)
qed

lemma copy_typed:
  assumes "fmBytes_copy d off s off2 n = Inr (rc, d')" and "val_ok d" and "0 \<le> n"
    and "\<And>p. d = Some p \<Longrightarrow> fb_leng p \<le> off"
  shows "val_ok d' \<and> (\<forall>p. d' = Some p \<longrightarrow> fb_leng p \<le> off + n)"
  using assms
  by (auto simp: fmBytes_copy_def bindR_Inr_iff fb_ok_def split: option.splits if_splits dest!: wrn_Inr_length)

lemma extract_typed:
  assumes "fmBytes_copy (fmBytes_alloc True True n) 0 raw st n = Inr (rc, d)"
  shows "val_ok d"
proof (cases "fmBytes_alloc True True n")
  case None
  then show ?thesis using assms by (auto simp: fmBytes_copy_def split: option.splits)
next
  case (Some p)
  then have "0 \<le> n" "fb_leng p = 0" "fb_ok p"
    using fmBytes_alloc_ok [OF Some] fb_bytes_length [of p] Some by (auto simp: fmBytes_alloc_def split: if_splits)
  then show ?thesis using copy_typed [OF assms] Some by simp
qed

lemma not_loop_length: "not_loop a b j n = Inr b' \<Longrightarrow> length b' = length b"
  by (induction a b j n rule: not_loop.induct) (auto simp: bindR_Inr_iff dest: wr_Inr_length)

section \<open>Every byte code keeps the types\<close>

lemma fold_typed:
  assumes "foldR f xs c = Inr c'" and "vars_typed c" and "\<And>x s s'. f x s = Inr s' \<Longrightarrow> vars_typed s \<Longrightarrow> vars_typed s'"
  shows "vars_typed c'"
  by (rule foldR_invariant [where f = f and P = vars_typed, OF assms(3) assms(1,2)])

lemma arg_var_typed: "vars_typed c \<Longrightarrow> arg_var c arg i = Inr v \<Longrightarrow> val_ok v"
  by (auto simp: arg_var_def bindR_Inr_iff intro: get_typed)

lemma reverse_value_typed:
  assumes "(if len \<le> 0 then Inr d
     else bindR (deref (fmBytes_get_buf src)) (\<lambda>str0. bindR (deref (fmBytes_get_buf d)) (\<lambda>str1.
          bindR (not_loop str0 str1 0 (nat len)) (\<lambda>str1. Inr (fmBytes_set_buf d (Some str1)))))) = Inr d'"
    and "val_ok d"
  shows "val_ok d'"
proof (cases "len \<le> 0")
  case False
  then obtain a b b' where b: "fmBytes_get_buf d = Some b" "not_loop a b 0 (nat len) = Inr b'"
      "d' = fmBytes_set_buf d (Some b')"
    using assms(1) by (auto simp: bindR_Inr_iff deref_def split: option.splits)
  then show ?thesis
    using assms(2) by (cases d) (auto simp: fmBytes_set_buf_def fb_ok_def dest!: not_loop_length)
qed (use assms in simp)

lemma reverse_typed:
  assumes "data_reverse c rsp arg = Inr (rc, c')" and "vars_typed c"
  shows "vars_typed c'"
  using assms
  by (auto simp: data_reverse_def bindR_Inr_iff split: if_splits)
    (erule fold_typed, assumption,
     auto simp only: bindR_Inr_iff Let_def intro: put_typed reverse_value_typed alloc_typed)

lemma set_typed:
  assumes "data_set c rsp arg = Inr (rc, c')" and "vars_typed c"
  shows "vars_typed c'"
  using assms
  by (auto simp: data_set_def bindR_Inr_iff split: if_splits)
    (erule fold_typed, assumption, auto simp: bindR_Inr_iff intro: put_typed hex_typed)

lemma extract_rsp_typed:
  assumes "data_extract_rsp r c rsp arg = Inr (rc, c')" and "vars_typed c"
  shows "vars_typed c'"
  using assms
  by (auto simp: data_extract_rsp_def bindR_Inr_iff split: if_splits)
    (erule fold_typed, assumption, auto simp: bindR_Inr_iff Let_def intro: put_typed extract_typed)

lemma extract_var_typed:
  assumes "data_extract r c rsp arg = Inr (rc, c')" and "vars_typed c"
  shows "vars_typed c'"
  using assms
  by (auto simp: data_extract_def bindR_Inr_iff split: if_splits)
    (erule fold_typed, assumption, auto simp: bindR_Inr_iff Let_def intro: put_typed extract_typed)

lemmas data_typed = set_typed extract_rsp_typed extract_var_typed reverse_typed

lemma typed_cong: "cc_bre c' = cc_bre c \<Longrightarrow> vars_typed c' = vars_typed c"
  by (simp add: vars_typed_def)

lemma gp_typed:
  assumes "(n, b) \<in> set (libbc_gp e)" and "b c rsp arg = Inr (rc, c')" and "vars_typed c"
  shows "vars_typed c'"
proof -
  obtain f where f: "b = gp_code e f" "f \<in> gp_funs" using assms(1) by (auto simp: libbc_gp_def gp_funs_def)
  obtain g where "f (be_gp e) c (be_glb e) rsp arg = Inr (rc, c', g)"
    using assms(2) by (auto simp: f(1) gp_code_def bindR_Inr_iff)
  then show ?thesis using gp_fun_keeps [OF f(2)] assms(3) typed_cong by blast
qed

lemma rsp_bre: "(n, b) \<in> set (libbc_rsp e) \<Longrightarrow> b c rsp arg = Inr (rc, c') \<Longrightarrow> cc_bre c' = cc_bre c"
  by (auto simp: libbc_rsp_def rsp_defs bindR_Inr_iff Let_def split: if_splits)

text \<open>The linked byte codes without \<open>data_concat\<close>: at its address there is no code.\<close>

definition run_without_concat :: "bc_env \<Rightarrow> (string \<Rightarrow> u32) \<Rightarrow> bytecode_run" where
  "run_without_concat e addr f c fba arg =
     (if f = addr ''data_concat'' then Inl Wild_Pointer else run_linked e addr f c fba arg)"

lemma run_without_concat_typed:
  assumes "run_without_concat e addr f c fba arg = Inr c'" and "vars_typed c"
  shows "vars_typed c'"
proof -
  have f: "f \<noteq> addr ''data_concat''" "run_linked e addr f c fba arg = Inr c'"
    using assms(1) by (simp_all add: run_without_concat_def split: if_splits)
  obtain n b rc where b: "b c fba arg = Inr (rc, c')" "(n, b) \<in> set (linked e)" "addr n = f"
    by (rule run_linked_cases [OF f(2)])
  have "n \<noteq> ''data_concat''" using f(1) b(3) by blast
  then have "(n, b) \<in> set (libbc_data e) \<Longrightarrow> vars_typed c'"
    using b(1) assms(2) by (auto simp: libbc_data_def data_add_len_def intro: data_typed)
  moreover have "(n, b) \<in> set (libbc_gp e) \<Longrightarrow> vars_typed c'" by (rule gp_typed [where b = b, OF _ b(1) assms(2)])
  moreover have "(n, b) \<in> set (libbc_rsp e) \<Longrightarrow> vars_typed c'"
    using rsp_bre [where b = b, OF _ b(1)] assms(2) typed_cong by blast
  moreover have "b = tsm_reserve \<Longrightarrow> vars_typed c'" using b(1) assms(2) by (simp add: tsm_reserve_def)
  ultimately show ?thesis using b(2) by (auto simp: linked_def)
qed

section \<open>The whole system\<close>

definition keeps_types :: "tsm_ccb \<Rightarrow> tsm_ccb \<Rightarrow> bool" where
  "keeps_types c' c \<longleftrightarrow> (vars_typed c \<longrightarrow> vars_typed c')"

interpretation types: run_contract "run_without_concat e addr" view keeps_types for e addr view
proof unfold_locales
  show "run_bytecode (run_without_concat e addr) view c fba = Inr c' \<Longrightarrow> keeps_types c' c" for c fba c'
    by (auto simp: run_bytecode_code bindR_Inr_iff keeps_types_def split: if_splits intro: run_without_concat_typed)
  show "vm_frame c' c \<Longrightarrow> keeps_types c' c" for c' c
    using typed_cong [of c' c] by (simp add: vm_frame_def keeps_types_def)
qed (simp_all add: keeps_types_def)

lemma create_typed:
  assumes "ccb_create_ccb ok1 ok2 ok3 ok4 ok5 v load tlv = Inr (Some c)"
  shows "vars_typed c"
proof -
  have "cc_bre c = zc_hashtable_new ok2 ok3 HASH_TABLE_DEFAULT_SIZE zc_hashtable_str_hash
      zc_hashtable_str_equal False True"
    using assms by (auto simp: ccb_create_ccb_def bindR_Inr_iff Let_def split: if_splits)
  moreover obtain t :: "(u8 list, fmBytes) hashtable" where
    t: "zc_hashtable_new True True HASH_TABLE_DEFAULT_SIZE zc_hashtable_str_hash
      zc_hashtable_str_equal False True = Some t" "str_ht_ok t" "ht_map cstr t = Map.empty"
    using str_ht_new [of HASH_TABLE_DEFAULT_SIZE False True] by (auto simp: HASH_TABLE_DEFAULT_SIZE_def)
  ultimately have "cc_bre c = None \<or> cc_bre c = Some t"
    by (cases "ok2 \<and> ok3") (auto simp: zc_hashtable_new_def)
  then show ?thesis using t by (auto simp: vars_typed_def)
qed

text \<open>
  C6. The variables of every session stay well-typed in every reachable state of a system
  (interpreter, linked byte codes, sending thread) that does not run \<open>data_concat\<close>: each table keeps
  its invariant, and each variable is NULL or a buffer with a length within its block. The
  control block of a new session is well-typed, so a system whose sessions were created by
  \<open>ccb_create_ccb\<close> is well-typed for ever. \<open>data_concat\<close> is left out because its key is the
  buffer of another variable, with which it is released.
\<close>

theorem variables_stay_typed:
  assumes "(system_step (run_without_concat e addr) view lf raw os_write)\<^sup>*\<^sup>* (st0, ag0, w0) (st, ag, w)"
    and "\<forall>c\<in>set (vm_ccbs st0). \<exists>ok2 ok3 ok4 ok5 v load tlv d.
           ccb_create_ccb True ok2 ok3 ok4 ok5 v load tlv = Inr (Some d) \<and> cc_bre c = cc_bre d"
    and "c \<in> set (vm_ccbs st)" and "data_get_by_name (Some c) k = Inr v"
  shows "vars_typed c \<and> (case v of None \<Rightarrow> True | Some p \<Rightarrow> fb_ok p)"
proof -
  obtain i where i: "i < length (vm_ccbs st)" "c = vm_ccbs st ! i"
    using assms(3) by (auto simp: in_set_conv_nth)
  have r: "list_all2 keeps_types (vm_ccbs st) (vm_ccbs st0)" by (rule types.reachable [OF assms(1)])
  then have "vm_ccbs st0 ! i \<in> set (vm_ccbs st0)" using i(1) by (simp add: list_all2_lengthD)
  then have "vars_typed (vm_ccbs st0 ! i)" using assms(2) create_typed typed_cong by metis
  then have "vars_typed c" using list_all2_nthD [OF r i(1)] i(2) by (simp add: keeps_types_def)
  then show ?thesis using get_typed [OF _ assms(4)] by (simp add: val_ok_def)
qed

definition demo_table :: "(u8 list, fmBytes) hashtable option" where
  "demo_table = zc_hashtable_new True True HASH_TABLE_DEFAULT_SIZE zc_hashtable_str_hash
     zc_hashtable_str_equal False True"

lemma demo_created:
  "\<exists>ok2 ok3 ok4 ok5 v load tlv d. ccb_create_ccb True ok2 ok3 ok4 ok5 v load tlv = Inr (Some d)
     \<and> demo_table = cc_bre d"
  by (rule exI [of _ True], rule exI [of _ True], rule exI [of _ False], rule exI [of _ True],
      rule exI [of _ 0], rule exI [of _ "\<lambda>b. Inr None"], rule exI [of _ "[]"])
    (simp add: ccb_create_ccb_def ccb_alloc_bc_def demo_table_def)

theorem variables_stay_typed_witness:
  "\<forall>e. \<exists>st c v. (system_step (run_without_concat e (\<lambda>n. 5))
         (\<lambda>ce. \<lparr>fa_size = 0, fa_cnt = 0, fa_array = []\<rparr>) True raw_skb (\<lambda>fd xs w. (0, 0, w)))\<^sup>*\<^sup>*
      (\<lparr>vm_ccbs = [demo_ccb\<lparr>cc_bre := demo_table\<rparr>], vm_rpkg = [], vm_wpkg = [], vm_sem_vm = 0,
         vm_sem_router_w = 0, vm_glb = 0, vm_fba = None\<rparr>,
       \<lparr>ag_list = \<lparr>lt_head = 1, lt_lock = False\<rparr>, ag_entries = []\<rparr>, ()) (st,
       \<lparr>ag_list = \<lparr>lt_head = 1, lt_lock = False\<rparr>, ag_entries = []\<rparr>, ())
    \<and> vm_sem_vm st = 1 \<and> c \<in> set (vm_ccbs st) \<and> data_get_by_name (Some c) [97, 0] = Inr v
    \<and> vars_typed c"
proof
  fix e
  let ?view = "\<lambda>ce :: code_entry. \<lparr>fa_size = 0, fa_cnt = 0, fa_array = []\<rparr>"
  let ?wr = "\<lambda>(fd :: int) (xs :: u8 list) (w :: unit). (0 :: int, 0 :: int, w)"
  let ?c = "demo_ccb\<lparr>cc_bre := demo_table\<rparr>"
  let ?s0 = "\<lparr>vm_ccbs = [?c], vm_rpkg = [], vm_wpkg = [], vm_sem_vm = 0, vm_sem_router_w = 0, vm_glb = 0, vm_fba = None\<rparr>"
  let ?s1 = "?s0\<lparr>vm_rpkg := vm_rpkg ?s0 @ [raw_skb], vm_sem_vm := vm_sem_vm ?s0 + 1\<rparr>"
  let ?ag = "\<lparr>ag_list = \<lparr>lt_head = 1, lt_lock = False\<rparr>, ag_entries = []\<rparr>"
  have r: "(system_step (run_without_concat e (\<lambda>n. 5)) ?view True raw_skb ?wr)\<^sup>*\<^sup>* (?s0, ?ag, ()) (?s1, ?ag, ())"
    by (rule r_into_rtranclp, rule system_step.interpret_step, rule vm_step.receive)
  obtain t :: "(u8 list, fmBytes) hashtable" where t: "demo_table = Some t" "str_ht_ok t" "ht_map cstr t = Map.empty"
    using str_ht_new [of HASH_TABLE_DEFAULT_SIZE False True]
    by (auto simp: HASH_TABLE_DEFAULT_SIZE_def demo_table_def)
  have "terminated [97, 0]" by (simp add: terminated_def)
  then have g: "data_get_by_name (Some ?c) [97, 0] = Inr None"
    using str_get_ok [OF t(2), of "[97, 0]"] t(3) by (simp add: data_get_by_name_def ccb_get_bre_def t(1))
  have "vars_typed ?c"
    by (rule variables_stay_typed [OF r, THEN conjunct1]) (use demo_created g in simp_all)
  then show "\<exists>st c v. (system_step (run_without_concat e (\<lambda>n. 5)) ?view True raw_skb ?wr)\<^sup>*\<^sup>* (?s0, ?ag, ()) (st, ?ag, ())
      \<and> vm_sem_vm st = 1 \<and> c \<in> set (vm_ccbs st) \<and> data_get_by_name (Some c) [97, 0] = Inr v \<and> vars_typed c"
    using r g by (intro exI [of _ ?s1] exI [of _ ?c] exI [of _ None]) simp
qed


end
