(* ===== verification/Tsm_Ctrl.thy ===== *)
theory Tsm_Ctrl
  imports Tsm_Router
begin

text \<open>
  The control messages of \<open>router_aggregate_work\<close> in \<open>tsm_router.c\<close>: the instruction of a message,
  the elements behind it, the creation of a control block for a session and the registration of an
  agent. The instruction is read through the result of \<open>skb_pull\<close>, which points behind the byte
  that was pulled. Two calls have no defined meaning and are parameters of the model: the function
  passes the data pointer of the packet to \<open>skb_pull\<close> as if it were a packet, and the registration
  passes the structure \<open>ae->entry\<close> to \<open>list_add_entry\<close>, which takes a pointer.
\<close>

section \<open>Operations\<close>

text \<open>
  \<open>ct_ok\<close>: the list of elements can be allocated; \<open>ct_pull\<close>: the call of \<open>skb_pull\<close> on the bytes
  of the packet; \<open>ct_add\<close>: the call of \<open>list_add_entry\<close> for a new agent; \<open>ct_raw\<close>: what a fresh
  packet holds; \<open>ct_reserve\<close> and \<open>ct_load\<close>: the arguments of \<open>ccb_create_ccb\<close>.
\<close>

record ctrl_env =
  ct_ok :: bool
  ct_pull :: "sk_buff \<Rightarrow> sk_buff res"
  ct_add :: "agent_entry \<Rightarrow> agents \<Rightarrow> agents res"
  ct_raw :: sk_buff
  ct_reserve :: u32
  ct_load :: "u8 list \<Rightarrow> script_entry option res"

definition INS_CREATE_CCB :: u8 where "INS_CREATE_CCB = 0"
definition INS_REG_AGENT :: u8 where "INS_REG_AGENT = 2"
definition INS_UNREG_AGENT :: u8 where "INS_UNREG_AGENT = 4"
definition ACK_REG_AGENT :: u8 where "ACK_REG_AGENT = 3"
definition MSG_CTRL :: int where "MSG_CTRL = 1"

text \<open>A new control block, its session in the packet, and the packet to the interpreter.\<close>

definition ctrl_create :: "ctrl_env \<Rightarrow> router_tlv list option \<Rightarrow> sk_buff \<Rightarrow> vm_state \<Rightarrow> vm_state res" where
  "ctrl_create ct tlv skb st =
     bindR (deref tlv) (\<lambda>tlv.
     bindR (ccb_create_ccb True True True True True (ct_reserve ct) (ct_load ct) tlv) (\<lambda>CCB.
     bindR (ccb_get_session CCB) (\<lambda>session.
     bindR (deref CCB) (\<lambda>c.
       Inr (st\<lparr>vm_ccbs := vm_ccbs st @ [c], vm_rpkg := vm_rpkg st @ [skb\<lparr>sk_session := session\<rparr>],
               vm_sem_vm := vm_sem_vm st + 1\<rparr>)))))"

text \<open>The acknowledgement: two bytes with room for a head, addressed to the agent by its name.\<close>

definition register_ack :: "sk_buff \<Rightarrow> int \<Rightarrow> u8 list \<Rightarrow> (sk_buff \<times> int) res" where
  "register_ack raw glb name =
     bindR (strlen name) (\<lambda>name_len.
     case alloc_skb raw glb True True (2 + of_int MSG_HEAD_LEN) of (snd_skb, glb) \<Rightarrow>
       bindR (deref snd_skb) (\<lambda>s.
       bindR (skb_put_bytes [ACK_REG_AGENT] (skb_reserve s MSG_HEAD_LEN)) (\<lambda>s.
       bindR (skb_put_bytes [0] s) (\<lambda>s.
       bindR (deref (fmBytes_alloc True True (name_len + 1))) (\<lambda>a.
       bindR (deref (fmBytes_get_buf (Some a))) (\<lambda>buf.
       bindR (rdn name 0 name_len) (\<lambda>xs.
       bindR (wrn buf 0 xs) (\<lambda>buf.
         Inr (s\<lparr>sk_msg_type := of_int MSG_CTRL, sk_agent := Some (a\<lparr>fb_buf := Some buf\<rparr>)\<rparr>, glb)))))))))"

definition ctrl_register ::
  "ctrl_env \<Rightarrow> int \<Rightarrow> router_tlv list option \<Rightarrow> vm_state \<Rightarrow> agents \<Rightarrow> (vm_state \<times> agents) res"
where
  "ctrl_register ct fd tlv st ag =
     bindR (deref tlv) (\<lambda>tlv.
     bindR (router_register_agent True fd tlv) (\<lambda>ae.
     bindR (deref ae) (\<lambda>ae.
     bindR (ct_add ct ae ag) (\<lambda>ag.
     bindR (deref (ae_name ae)) (\<lambda>name.
     bindR (register_ack (ct_raw ct) (vm_glb st) name) (\<lambda>(snd_skb, glb).
       Inr (st\<lparr>vm_wpkg := vm_wpkg st @ [snd_skb], vm_sem_router_w := vm_sem_router_w st + 1, vm_glb := glb\<rparr>,
            ag)))))))"

definition aggregate_ctrl ::
  "ctrl_env \<Rightarrow> int \<Rightarrow> sk_buff \<Rightarrow> vm_state \<times> agents \<Rightarrow> (vm_state \<times> agents) res"
where
  "aggregate_ctrl ct fd skb = (\<lambda>(st, ag).
     case skb_pull skb 1 of (p, skb) \<Rightarrow>
       bindR (skb_load skb p) (\<lambda>ins.
       bindR (router_parse_tlv (ct_ok ct) (drop (nat (sk_data skb)) (sk_block skb)) (sint (sk_len skb))) (\<lambda>tlv.
       bindR (ct_pull ct skb) (\<lambda>skb.
         if ins = INS_CREATE_CCB then bindR (ctrl_create ct tlv skb st) (\<lambda>st. Inr (st, ag))
         else if ins = INS_REG_AGENT then ctrl_register ct fd tlv st ag
         else if ins = INS_UNREG_AGENT then Inr (st, ag)
         else Inr (st, ag)))))"

section \<open>Lemmas\<close>

text \<open>What a control message is to the code: its second byte is the instruction.\<close>

lemma ctrl_second_byte:
  assumes "skb_ok skb" and "skb_body skb = i # x # d"
  obtains s where "skb_ok s" and "skb_body s = x # d" and "sk_session s = sk_session skb"
    and "aggregate_ctrl ct fd skb (st, ag) =
      bindR (router_parse_tlv (ct_ok ct) (drop (nat (sk_data s)) (sk_block s)) (sint (sk_len s))) (\<lambda>tlv.
      bindR (ct_pull ct s) (\<lambda>s'.
        if x = INS_CREATE_CCB then bindR (ctrl_create ct tlv s' st) (\<lambda>st. Inr (st, ag))
        else if x = INS_REG_AGENT then ctrl_register ct fd tlv st ag else Inr (st, ag)))"
    and "skb_pull skb 1 = (Some (sk_data s), s)"
proof -
  from skb_pull_ok [of skb 1] assms obtain s where
    s: "skb_pull skb 1 = (Some (sk_data s), s)" "skb_ok s" "skb_body s = x # d"
    by auto
  have "skb_load s (Some (sk_data s)) = Inr x"
    using skb_body_first [OF s(2,3)] by (simp add: skb_load_def)
  moreover have "sk_session s = sk_session skb"
    using s(1) by (auto simp: skb_pull_def skb_pull_raw_def Let_def split: if_splits)
  ultimately show thesis
    using s by (intro that) (simp_all add: aggregate_ctrl_def INS_UNREG_AGENT_def)
qed

text \<open>A control block for the session the elements name, when they name no library.\<close>

lemma create_session:
  assumes "find (\<lambda>n. tlv_tag n = TAG_SESSION) tlv = Some n" and "tlv_val n = ds @ e # r"
    and "\<forall>c\<in>set ds. is_digit c" and "ds \<noteq> []" and "\<not> is_digit e" and "dec_val ds < 2 ^ 31"
    and "TAG_DLL \<notin> tlv_tag ` set tlv" and "\<forall>b. load b = Inr se"
  obtains c where "ccb_create_ccb True True True True True v load tlv = Inr (Some c)"
    and "cc_session c = of_int (dec_val ds)" and "cc_PC c = 0" and "cc_cmdQ c = []"
proof -
  obtain bc where bc: "ccb_alloc_bc True True v = Inr bc"
    using memset_int_table [of 512 v] by (simp add: ccb_alloc_bc_def BYTE_CODE_DEFAULT_SIZE_def)
  have "\<exists>s. (case find (\<lambda>n. tlv_tag n = TAG_SCRIPT) tlv of None \<Rightarrow> Inr None | Some n \<Rightarrow> load (tlv_val n)) = Inr s"
    using assms(8) by (auto split: option.split)
  moreover have "\<not> (\<exists>n\<in>set tlv. tlv_tag n = TAG_DLL)" using assms(7) by force
  ultimately show thesis
    using that assms(1,2) atoi_ok [OF assms(3,4,5,6), of r] by (auto simp: ccb_create_ccb_def bc Let_def)
qed

lemma fetch_ccb_append:
  "s \<notin> cc_session ` set cs \<Longrightarrow> cc_session c = s \<Longrightarrow> fetch_ccb (cs @ [c]) s = Some (length cs)"
  by (induction cs) auto

section \<open>Properties\<close>

text \<open>
  C21. The instruction of a control message is never obeyed: what is taken for it is the byte behind
  it, the tag of the first element. For a message whose first element has one of the tags of the
  protocol the function reads the elements and makes its misdirected call of \<open>skb_pull\<close>;
  when one of the two fails, its fault is the result, and otherwise the function returns and the
  control blocks, the queues, the semaphores and the table of agents are as before, whatever the
  instruction.
\<close>

theorem control_message_ignored:
  assumes "skb_ok skb" and "skb_body skb = ins # tag # d"
    and "tag \<in> {TAG_SESSION, TAG_DLL, TAG_SCRIPT, TAG_AG_NAME}"
    and "skb_pull skb 1 = (p, s)"
  shows "aggregate_ctrl ct fd skb (st, ag) =
    (case router_parse_tlv (ct_ok ct) (drop (nat (sk_data s)) (sk_block s)) (sint (sk_len s)) of
       Inl e \<Rightarrow> Inl e
     | Inr tlv \<Rightarrow> (case ct_pull ct s of Inl e \<Rightarrow> Inl e | Inr q \<Rightarrow> Inr (st, ag)))"
proof -
  obtain s' where s: "skb_pull skb 1 = (Some (sk_data s'), s')" and a: "aggregate_ctrl ct fd skb (st, ag) =
      bindR (router_parse_tlv (ct_ok ct) (drop (nat (sk_data s')) (sk_block s')) (sint (sk_len s'))) (\<lambda>tlv.
      bindR (ct_pull ct s') (\<lambda>q.
        if tag = INS_CREATE_CCB then bindR (ctrl_create ct tlv q st) (\<lambda>st. Inr (st, ag))
        else if tag = INS_REG_AGENT then ctrl_register ct fd tlv st ag else Inr (st, ag)))"
    by (rule ctrl_second_byte [OF assms(1,2)])
  moreover have "tag \<noteq> INS_CREATE_CCB" "tag \<noteq> INS_REG_AGENT"
    using assms(3) by (auto simp: TAG_SESSION_def TAG_DLL_def TAG_SCRIPT_def TAG_AG_NAME_def
        INS_CREATE_CCB_def INS_REG_AGENT_def)
  ultimately show ?thesis using assms(4) by (auto simp: bindR_def split: sum.split)
qed

text \<open>
  An environment in which the misdirected call does nothing and a new agent is appended, and a
  state without sessions and agents.
\<close>

definition demo_ctrl :: ctrl_env where
  "demo_ctrl = \<lparr>ct_ok = True, ct_pull = Inr, ct_add = \<lambda>ae ag. Inr (ag\<lparr>ag_entries := ag_entries ag @ [ae]\<rparr>),
     ct_raw = raw_skb, ct_reserve = 0, ct_load = \<lambda>b. Inr None\<rparr>"

definition demo_agents :: agents where
  "demo_agents = \<lparr>ag_list = \<lparr>lt_head = 1, lt_lock = False\<rparr>, ag_entries = []\<rparr>"

definition demo_idle :: vm_state where
  "demo_idle = \<lparr>vm_ccbs = [], vm_rpkg = [], vm_wpkg = [], vm_sem_vm = 0, vm_sem_router_w = 0, vm_glb = 0, vm_fba = None\<rparr>"

theorem control_message_ignored_witness:
  "aggregate_ctrl demo_ctrl 7 (demo_rsp [INS_CREATE_CCB, TAG_SESSION, 0, 4, 0x34, 0x10, 0, 3]) (demo_idle, demo_agents)
     = Inr (demo_idle, demo_agents)"
proof -
  let ?m = "demo_rsp [INS_CREATE_CCB, TAG_SESSION, 0, 4, 0x34, 0x10, 0, 3]"
  let ?s = "?m\<lparr>sk_len := 7, sk_data := 1\<rparr>"
  have p: "skb_pull ?m 1 = (Some 1, ?s)"
    by (simp add: skb_pull_def skb_pull_raw_def demo_rsp_def)
  have t: "\<exists>tlv. router_parse_tlv (ct_ok demo_ctrl) (drop (nat (sk_data ?s)) (sk_block ?s)) (sint (sk_len ?s)) = Inr tlv"
    by (simp add: demo_ctrl_def demo_rsp_def router_parse_tlv_def parse_tlv_loop.simps rd_def rdn_def
        INS_CREATE_CCB_def TAG_SESSION_def)
  have q: "ct_pull demo_ctrl ?s = Inr ?s" by (simp add: demo_ctrl_def)
  show ?thesis
    using control_message_ignored [OF _ _ _ p, of INS_CREATE_CCB TAG_SESSION _ demo_ctrl 7 demo_idle demo_agents] t q
    by (auto simp: demo_rsp)
qed

text \<open>
  C4. Where the byte is the number of the create instruction, a session is opened: the interpreter
  gets one more control block, for the session the elements name and with its program counter at
  0; the packet is queued with that session and its semaphore raised once; and when no earlier
  block has the session, the interpreter finds the new one for the packet.
\<close>

theorem create_opens_session:
  assumes "skb_ok skb" and "skb_body skb = i # INS_CREATE_CCB # d" and "skb_pull skb 1 = (p, s)"
    and "router_parse_tlv (ct_ok ct) (drop (nat (sk_data s)) (sk_block s)) (sint (sk_len s)) = Inr (Some tlv)"
    and "ct_pull ct s = Inr q"
    and "find (\<lambda>n. tlv_tag n = TAG_SESSION) tlv = Some n" and "tlv_val n = ds @ e # r"
    and "\<forall>c\<in>set ds. is_digit c" and "ds \<noteq> []" and "\<not> is_digit e" and "dec_val ds < 2 ^ 31"
    and "TAG_DLL \<notin> tlv_tag ` set tlv" and "\<forall>b. ct_load ct b = Inr se"
  shows "\<exists>c. cc_session c = of_int (dec_val ds) \<and> cc_PC c = 0 \<and> cc_cmdQ c = []
    \<and> aggregate_ctrl ct fd skb (st, ag) = Inr (st\<lparr>vm_ccbs := vm_ccbs st @ [c],
         vm_rpkg := vm_rpkg st @ [q\<lparr>sk_session := cc_session c\<rparr>], vm_sem_vm := vm_sem_vm st + 1\<rparr>, ag)
    \<and> (cc_session c \<notin> cc_session ` set (vm_ccbs st) \<longrightarrow>
         fetch_ccb (vm_ccbs st @ [c]) (sk_session (q\<lparr>sk_session := cc_session c\<rparr>)) = Some (length (vm_ccbs st)))"
proof -
  obtain c where c: "ccb_create_ccb True True True True True (ct_reserve ct) (ct_load ct) tlv = Inr (Some c)"
      "cc_session c = of_int (dec_val ds)" "cc_PC c = 0" "cc_cmdQ c = []"
    by (rule create_session [OF assms(6-13)])
  obtain s' where s: "skb_pull skb 1 = (Some (sk_data s'), s')" and a: "aggregate_ctrl ct fd skb (st, ag) =
      bindR (router_parse_tlv (ct_ok ct) (drop (nat (sk_data s')) (sk_block s')) (sint (sk_len s'))) (\<lambda>tlv.
      bindR (ct_pull ct s') (\<lambda>q. if INS_CREATE_CCB = INS_CREATE_CCB then bindR (ctrl_create ct tlv q st) (\<lambda>st. Inr (st, ag))
        else if INS_CREATE_CCB = INS_REG_AGENT then ctrl_register ct fd tlv st ag else Inr (st, ag)))"
    by (rule ctrl_second_byte [OF assms(1,2)])
  have "aggregate_ctrl ct fd skb (st, ag) = bindR (ctrl_create ct (Some tlv) q st) (\<lambda>st. Inr (st, ag))" using s a assms(3-5) by simp
  then show ?thesis
    using c by (intro exI [of _ c]) (simp add: ctrl_create_def ccb_get_session_def fetch_ccb_append)
qed

theorem create_opens_session_witness:
  "\<exists>st'. aggregate_ctrl demo_ctrl 7 (demo_rsp [9, INS_CREATE_CCB, 0, 4, 0x34, TAG_SESSION, 0, 3])
       (demo_idle, demo_agents) = Inr (st', demo_agents)
     \<and> length (vm_ccbs st') = 1 \<and> vm_sem_vm st' = 1 \<and> fetch_ccb (vm_ccbs st') 4 = Some 0"
proof -
  let ?m = "demo_rsp [9, INS_CREATE_CCB, 0, 4, 0x34, TAG_SESSION, 0, 3]"
  let ?s = "?m\<lparr>sk_len := 7, sk_data := 1\<rparr>"
  let ?n = "\<lparr>tlv_tag = TAG_SESSION, tlv_len = 3, tlv_val = [0x34, TAG_SESSION, 0]\<rparr>"
  let ?tlv = "[\<lparr>tlv_tag = 0, tlv_len = 4, tlv_val = [0x34, TAG_SESSION, 0, 3]\<rparr>, ?n]"
  have p: "skb_pull ?m 1 = (Some 1, ?s)"
    by (simp add: skb_pull_def skb_pull_raw_def demo_rsp_def)
  have t: "router_parse_tlv (ct_ok demo_ctrl) (drop (nat (sk_data ?s)) (sk_block ?s)) (sint (sk_len ?s)) = Inr (Some ?tlv)"
    by (simp add: demo_ctrl_def demo_rsp_def router_parse_tlv_def parse_tlv_loop.simps rd_def rdn_def
        INS_CREATE_CCB_def TAG_SESSION_def)
  have v: "tlv_val ?n = [0x34] @ TAG_SESSION # [0]" by simp
  have f: "find (\<lambda>n. tlv_tag n = TAG_SESSION) ?tlv = Some ?n" by (simp add: TAG_SESSION_def)
  have d: "dec_val [0x34] = 4" by (simp add: dec_val_def)
  have ex: "\<exists>c. cc_session c = of_int (dec_val [0x34]) \<and> cc_PC c = 0 \<and> cc_cmdQ c = []
    \<and> aggregate_ctrl demo_ctrl 7 ?m (demo_idle, demo_agents) = Inr (demo_idle\<lparr>vm_ccbs := vm_ccbs demo_idle @ [c],
         vm_rpkg := vm_rpkg demo_idle @ [?s\<lparr>sk_session := cc_session c\<rparr>], vm_sem_vm := vm_sem_vm demo_idle + 1\<rparr>, demo_agents)
    \<and> (cc_session c \<notin> cc_session ` set (vm_ccbs demo_idle) \<longrightarrow>
         fetch_ccb (vm_ccbs demo_idle @ [c]) (sk_session (?s\<lparr>sk_session := cc_session c\<rparr>)) = Some (length (vm_ccbs demo_idle)))"
    by (rule create_opens_session [OF _ _ p t _ f v, where i = 9 and se = None])
      (simp_all add: demo_rsp demo_ctrl_def is_digit_def TAG_SESSION_def TAG_DLL_def dec_val_def)
  then show ?thesis using d by (auto simp: demo_idle_def)
qed

section \<open>Registration and the sending thread\<close>

lemma agent_name_find:
  "find (\<lambda>n. tlv_tag n = TAG_AG_NAME) tlv = Some n \<Longrightarrow> rdn (tlv_val n) 0 (uint (tlv_len n)) = Inr xs \<Longrightarrow>
   agent_name tlv = Inr (Some (xs @ [0]))"
  by (induction tlv) (auto split: if_splits)

text \<open>The acknowledgement is well-formed, has room for its head, and carries the name.\<close>

lemma register_ack_ok:
  assumes "0 \<notin> set name"
  obtains s a where "register_ack raw glb (name @ [0]) = Inr (s, glb + 1)" and "skb_ok s"
    and "12 \<le> skb_front s" and "skb_body s = [ACK_REG_AGENT, 0]" and "sk_msg_type s = 1"
    and "sk_agent s = Some a" and "fb_buf a = Some (name @ [0])"
proof -
  obtain s0 where s0: "alloc_skb raw glb True True 14 = (Some s0, glb + 1)"
    by (simp add: alloc_skb_def)
  have z: "0 < (14 :: u32)" by simp
  note a = alloc_skb_ok [OF z s0]
  let ?s = "skb_reserve s0 12"
  have r: "skb_ok ?s" "skb_body ?s = []" "skb_front ?s = 12" "skb_rear ?s = 2"
    using skb_reserve_ok [OF a(1,2), of 12] a(3,4) by simp_all
  from skb_put_bytes_ok [OF r(1), of "[ACK_REG_AGENT]"] obtain s1 where
    s1: "skb_put_bytes [ACK_REG_AGENT] ?s = Inr s1" "skb_ok s1" "skb_body s1 = [ACK_REG_AGENT]"
      "skb_front s1 = 12" "skb_rear s1 = 1"
    using r by auto
  from skb_put_bytes_ok [OF s1(2), of "[0]"] obtain s2 where
    s2: "skb_put_bytes [0] s1 = Inr s2" "skb_ok s2" "skb_body s2 = [ACK_REG_AGENT, 0]" "skb_front s2 = 12"
    using s1 by auto
  let ?a = "\<lparr>fb_size = int (length name) + 1, fb_leng = 0, fb_buf = Some (name @ [0])\<rparr>"
  let ?t = "s2\<lparr>sk_msg_type := 1, sk_agent := Some ?a\<rparr>"
  have n: "nat (int (length name) + 1) = Suc (length name)"
      "drop (length name) (0 # replicate (length name) 0) = [0 :: u8]"
    by (simp_all add: drop_Cons' flip: replicate_append_same)
  have "register_ack raw glb (name @ [0]) = Inr (?t, glb + 1)"
    using assms s0 s1(1) s2(1) n
    by (simp add: register_ack_def MSG_HEAD_LEN_def MSG_CTRL_def fmBytes_alloc_def fmBytes_get_buf_def
        rdn_def wrn_def)
  moreover have "skb_ok ?t = skb_ok s2" "skb_front ?t = skb_front s2" "skb_body ?t = skb_body s2"
    by (simp_all add: skb_ok_def skb_front_def skb_body_def)
  ultimately show thesis using s2(2-4) by (intro that [of ?t ?a]) simp_all
qed


lemma pack_head_agent: "pack_head skb = Inr p \<Longrightarrow> sk_agent p = sk_agent skb"
  by (auto simp: pack_head_def push_int_bytes bindR_Inr_iff dest!: skb_push_bytes_keeps)

text \<open>
  C15. A registration is never acknowledged, whatever the ill-typed call of
  \<open>list_add_entry\<close> makes of the table of agents (\<open>ag'\<close>, unlocked, every entry with a
  name): the acknowledgement is queued for the agent and the semaphore of the sending thread
  raised, but the round of the sending thread for it ends without a write. When the table has an
  entry of that name, the thread finds it, locks the table a second time and waits for itself;
  when it has none, the acknowledgement is dropped.
\<close>

theorem registration_never_acknowledged:
  assumes "skb_ok skb" and "skb_body skb = i # INS_REG_AGENT # d" and "skb_pull skb 1 = (p, s)"
    and "router_parse_tlv (ct_ok ct) (drop (nat (sk_data s)) (sk_block s)) (sint (sk_len s)) = Inr (Some tlv)"
    and "ct_pull ct s = Inr q"
    and "find (\<lambda>n. tlv_tag n = TAG_AG_NAME) tlv = Some n"
    and "rdn (tlv_val n) 0 (uint (tlv_len n)) = Inr name" and "0 \<notin> set name"
    and "ct_add ct \<lparr>ae_name = Some (name @ [0]), ae_fd = fd\<rparr> ag = Inr ag'"
    and "\<not> lt_lock (ag_list ag')"
    and "\<forall>ae\<in>set (ag_entries ag'). \<exists>m. ae_name ae = Some (m @ [0]) \<and> 0 \<notin> set m"
    and "vm_wpkg st = []"
  shows "\<exists>k a. aggregate_ctrl ct fd skb (st, ag) = Inr (st\<lparr>vm_wpkg := [k],
        vm_sem_router_w := vm_sem_router_w st + 1, vm_glb := vm_glb st + 1\<rparr>, ag')
    \<and> skb_body k = [ACK_REG_AGENT, 0] \<and> sk_agent k = Some a \<and> fb_buf a = Some (name @ [0])
    \<and> router_disaggregate_body os_write ag' [k] w =
        Some (if \<exists>ae\<in>set (ag_entries ag'). ae_name ae = Some (name @ [0]) then Inl Deadlock
              else Inr (ag', [], w))"
proof -
  let ?ae = "\<lparr>ae_name = Some (name @ [0]), ae_fd = fd\<rparr>"
  obtain k a where k: "register_ack (ct_raw ct) (vm_glb st) (name @ [0]) = Inr (k, vm_glb st + 1)" "skb_ok k"
      "12 \<le> skb_front k" "skb_body k = [ACK_REG_AGENT, 0]" "sk_agent k = Some a" "fb_buf a = Some (name @ [0])"
    by (rule register_ack_ok [OF assms(8)])
  have ae: "router_register_agent True fd tlv = Inr (Some ?ae)"
    using agent_name_find [OF assms(6,7)] by (simp add: router_register_agent_def)
  obtain s' where s: "skb_pull skb 1 = (Some (sk_data s'), s')" and c: "aggregate_ctrl ct fd skb (st, ag) =
      bindR (router_parse_tlv (ct_ok ct) (drop (nat (sk_data s')) (sk_block s')) (sint (sk_len s'))) (\<lambda>tlv.
      bindR (ct_pull ct s') (\<lambda>q. if INS_REG_AGENT = INS_CREATE_CCB then bindR (ctrl_create ct tlv q st) (\<lambda>st. Inr (st, ag))
        else if INS_REG_AGENT = INS_REG_AGENT then ctrl_register ct fd tlv st ag else Inr (st, ag)))"
    by (rule ctrl_second_byte [OF assms(1,2)])
  have "aggregate_ctrl ct fd skb (st, ag) = ctrl_register ct fd (Some tlv) st ag"
    using s c assms(3-5) by (simp add: INS_REG_AGENT_def INS_CREATE_CCB_def)
  also have "\<dots> = Inr (st\<lparr>vm_wpkg := [k], vm_sem_router_w := vm_sem_router_w st + 1, vm_glb := vm_glb st + 1\<rparr>, ag')"
    using ae assms(9,12) k(1) by (simp add: ctrl_register_def)
  moreover have "router_disaggregate_body os_write ag' [k] w =
      Some (if \<exists>ae\<in>set (ag_entries ag'). ae_name ae = Some (name @ [0]) then Inl Deadlock else Inr (ag', [], w))"
  proof -
    obtain pk where pk: "pack_head k = Inr pk" using pack_head_layout [OF k(2,3)] by blast
    show ?thesis
      using pk pack_head_agent [OF pk] k(5,6) get_des_wfd_deadlock [OF assms(10,8,11)]
      by (simp add: router_disaggregate_body_def)
  qed
  ultimately show ?thesis using k(4-6) by (intro exI [of _ k] exI [of _ a]) simp
qed

theorem registration_never_acknowledged_witness:
  "\<exists>k. aggregate_ctrl demo_ctrl 7 (demo_rsp [9, INS_REG_AGENT, 0, 5, 0x61, 0x62, TAG_AG_NAME, 0, 3])
       (demo_idle, demo_agents) = Inr (demo_idle\<lparr>vm_wpkg := [k], vm_sem_router_w := 1, vm_glb := 1\<rparr>,
         demo_agents\<lparr>ag_entries := [\<lparr>ae_name = Some [0x61, 0x62, TAG_AG_NAME, 0], ae_fd = 7\<rparr>]\<rparr>)
     \<and> router_disaggregate_body (\<lambda>fd xs w. (int (length xs), 0, w @ xs))
         (demo_agents\<lparr>ag_entries := [\<lparr>ae_name = Some [0x61, 0x62, TAG_AG_NAME, 0], ae_fd = 7\<rparr>]\<rparr>) [k] [] = Some (Inl Deadlock)"
proof -
  let ?m = "demo_rsp [9, INS_REG_AGENT, 0, 5, 0x61, 0x62, TAG_AG_NAME, 0, 3]"
  let ?s = "?m\<lparr>sk_len := 8, sk_data := 1\<rparr>"
  let ?n = "\<lparr>tlv_tag = TAG_AG_NAME, tlv_len = 3, tlv_val = [0x61, 0x62, TAG_AG_NAME]\<rparr>"
  let ?tlv = "[\<lparr>tlv_tag = 2, tlv_len = 5, tlv_val = [0x61, 0x62, TAG_AG_NAME, 0, 3]\<rparr>, ?n]"
  let ?ag = "demo_agents\<lparr>ag_entries := [\<lparr>ae_name = Some [0x61, 0x62, TAG_AG_NAME, 0], ae_fd = 7\<rparr>]\<rparr>"
  have p: "skb_pull ?m 1 = (Some 1, ?s)"
    by (simp add: skb_pull_def skb_pull_raw_def demo_rsp_def)
  have t: "router_parse_tlv (ct_ok demo_ctrl) (drop (nat (sk_data ?s)) (sk_block ?s)) (sint (sk_len ?s)) = Inr (Some ?tlv)"
    by (simp add: demo_ctrl_def demo_rsp_def router_parse_tlv_def parse_tlv_loop.simps rd_def rdn_def
        INS_REG_AGENT_def TAG_AG_NAME_def)
  have f: "find (\<lambda>n. tlv_tag n = TAG_AG_NAME) ?tlv = Some ?n" by (simp add: TAG_AG_NAME_def)
  have r: "rdn (tlv_val ?n) 0 (uint (tlv_len ?n)) = Inr [0x61, 0x62, TAG_AG_NAME]" by (simp add: rdn_def)
  have z: "\<forall>ae\<in>set (ag_entries ?ag). \<exists>m. ae_name ae = Some (m @ [0]) \<and> 0 \<notin> set m"
    by (auto intro!: exI [of _ "[0x61, 0x62, TAG_AG_NAME]"] simp: TAG_AG_NAME_def)
  have "\<exists>k a. aggregate_ctrl demo_ctrl 7 ?m (demo_idle, demo_agents) = Inr (demo_idle\<lparr>vm_wpkg := [k],
        vm_sem_router_w := vm_sem_router_w demo_idle + 1, vm_glb := vm_glb demo_idle + 1\<rparr>, ?ag)
    \<and> skb_body k = [ACK_REG_AGENT, 0] \<and> sk_agent k = Some a \<and> fb_buf a = Some ([0x61, 0x62, TAG_AG_NAME] @ [0])
    \<and> router_disaggregate_body (\<lambda>fd xs w. (int (length xs), 0, w @ xs)) ?ag [k] [] =
        Some (if \<exists>ae\<in>set (ag_entries ?ag). ae_name ae = Some ([0x61, 0x62, TAG_AG_NAME] @ [0]) then Inl Deadlock
              else Inr (?ag, [], []))"
    by (rule registration_never_acknowledged [OF _ _ p t _ f r _ _ _ z, where i = 9])
      (simp_all add: demo_rsp demo_ctrl_def demo_agents_def demo_idle_def TAG_AG_NAME_def)
  then show ?thesis by (auto simp: demo_idle_def)
qed

end
