(* ===== verification/Tsm_Session.thy ===== *)
theory Tsm_Session
  imports Tsm_Ctrl Tsm_System
begin

text \<open>
  From the control message that opens a session to the first round of the interpreter for it: the
  message parser, the creation of the control block with its byte code table, the fetching of the
  block, the byte code at the first instruction.
\<close>

section \<open>Lemmas\<close>

text \<open>Splitting a packet leaves its session alone.\<close>

lemma skb_pull_session [simp]: "sk_session (snd (skb_pull skb n)) = sk_session skb"
  by (simp add: skb_pull_def skb_pull_raw_def Let_def)

lemma skip_tagAx_session: "skip_tagAx skb = Inr s \<Longrightarrow> sk_session s = sk_session skb"
  by (auto simp: skip_tagAx_def Let_def split_beta bindR_Inr_iff)

lemma next_frag_session: "next_frag ok1 ok2 skb = Inr (f, s) \<Longrightarrow> sk_session s = sk_session skb"
  by (auto simp: next_frag_def Let_def split_beta bindR_Inr_iff)

lemma frags_session: "frags_loop ok1 ok2 skb i fba = Inr (fba', s) \<Longrightarrow> sk_session s = sk_session skb"
proof (induction ok1 ok2 skb i fba rule: frags_loop.induct)
  case (1 ok1 ok2 skb i fba)
  show ?case
    using "1.prems" "1.IH"
    by (subst (asm) frags_loop.simps) (auto simp: bindR_Inr_iff split: if_splits dest: next_frag_session)
qed

lemma split_session: "tagA0s_to_fmBytesarray o1 o2 o3 o4 skb = Inr (fba, s) \<Longrightarrow> sk_session s = sk_session skb"
  by (auto simp: tagA0s_to_fmBytesarray_def bindR_Inr_iff split: option.splits dest: frags_session)

lemma vm_body_fetch:
  assumes "tsm_vm_body run view lf raw st = Inr st'" and "vm_rpkg st = skb # rest"
  obtains i fba c where "fetch_ccb (vm_ccbs st) (sk_session skb) = Some i"
    and "run_bytecode run view (vm_ccbs st ! i) fba = Inr c"
proof -
  obtain s1 fba s2 where s: "skip_tagAx skb = Inr s1"
      "(if sk_isNew s1
        then bindR (tagA0s_to_fmBytesarray True True True True s1) (\<lambda>(fba, skb). Inr (fba, skb\<lparr>sk_isNew := False\<rparr>))
        else Inr (vm_fba st, s1)) = Inr (fba, s2)"
    and r: "\<exists>i c. fetch_ccb (vm_ccbs st) (sk_session s2) = Some i \<and> run_bytecode run view (vm_ccbs st ! i) fba = Inr c"
    using assms by (auto simp: tsm_vm_body_def bindR_Inr_iff split: option.splits)
  have "sk_session s2 = sk_session skb"
    using s(2) split_session [of True True True True s1] skip_tagAx_session [OF s(1)]
    by (fastforce simp: bindR_Inr_iff split: if_splits)
  then show thesis using r that by auto
qed

text \<open>
  A byte code table as \<open>ccb_create_ccb\<close> makes it holds no address of a byte code: each slot is one
  byte four times, or three bytes of the address of \<open>tsm_reserve\<close>, or 0.
\<close>

definition code_address :: "u32 \<Rightarrow> u32 \<Rightarrow> bool" where
  "code_address reserve a \<longleftrightarrow> a \<noteq> 0 \<and> a \<noteq> drop_bit 8 reserve \<and> (\<forall>b :: u8. a \<noteq> ucast b * 0x01010101)"

lemma fresh_slot:
  assumes "ccb_alloc_bc True True v = Inr (Some t)" and "bc_slot (bc_bc t) j = Inr f"
  shows "\<not> code_address v f"
proof -
  have l: "length (bc_bc t) = 2048"
  proof -
    have "ccb_alloc_bc True True v = Inr (Some \<lparr>bc_cnt = 512,
        bc_bc = replicate 512 (ucast v :: u8) @ List.tl (le_bytes v) @ replicate 1533 0\<rparr>)"
      using memset_int_table [of 512 v] by (simp add: ccb_alloc_bc_def BYTE_CODE_DEFAULT_SIZE_def)
    then show ?thesis using assms(1) by (auto simp: le_bytes_def)
  qed
  then have j: "0 \<le> j" "j < 512"
    using assms(2) by (auto simp: bc_slot_def bindR_Inr_iff rdn_def split: if_splits)
  from ccb_alloc_bc_slots [OF j, of v] show ?thesis
    using assms by (auto simp: code_address_def split: if_splits)
qed

lemma create_fields:
  assumes "ccb_create_ccb True True True True True v load tlv = Inr (Some c)"
  obtains t where "cc_bc c = Some t" and "ccb_alloc_bc True True v = Inr (Some t)"
proof -
  obtain t where "ccb_alloc_bc True True v = Inr (Some t)"
    using memset_int_table [of 512 v] by (auto simp: ccb_alloc_bc_def BYTE_CODE_DEFAULT_SIZE_def)
  then show thesis
    using assms that by (auto simp: ccb_create_ccb_def bindR_Inr_iff Let_def split: if_splits)
qed

lemma run_linked_address: "run_linked e addr f c fba arg = Inr c' \<Longrightarrow> f \<in> addr ` fst ` set (linked e)"
  by (erule run_linked_cases) force

lemma fresh_never_runs:
  assumes "ccb_create_ccb True True True True True v load tlv = Inr (Some c)"
    and "\<forall>n\<in>fst ` set (linked e). code_address v (addr n)"
  shows "run_bytecode (run_linked e addr) view c fba \<noteq> Inr c'"
proof
  assume r: "run_bytecode (run_linked e addr) view c fba = Inr c'"
  obtain t where t: "cc_bc c = Some t" "ccb_alloc_bc True True v = Inr (Some t)"
    by (rule create_fields [OF assms(1)])
  from r obtain f ce where f: "code_at c = Inr (f, ce)" "run_linked e addr f c fba (view ce) = Inr c'"
    by (auto simp: run_bytecode_code bindR_Inr_iff split: if_splits)
  then have "bc_slot (bc_bc t) (ce_code ce) = Inr f"
    using t(1) by (auto simp: code_at_def bindR_Inr_iff)
  then show False using fresh_slot [OF t(2)] run_linked_address [OF f(2)] assms(2) by blast
qed

section \<open>Properties\<close>

text \<open>
  C5. No session that a control message opens survives its first round: when the interpreter has
  nothing else to do and the session is new, the round for the packet that opened it does not
  return, whatever the script of the session is, as long as no byte code has one of the odd
  addresses the fresh byte code table holds.
\<close>

theorem new_session_crashes:
  assumes "aggregate_ctrl ct fd skb (st, ag) = Inr (st', ag')" and "vm_ccbs st' = vm_ccbs st @ [c]"
    and "cc_session c \<notin> cc_session ` set (vm_ccbs st)" and "vm_rpkg st = []"
    and "\<forall>n\<in>fst ` set (linked e). code_address (ct_reserve ct) (addr n)"
  shows "\<exists>err. tsm_vm_body (run_linked e addr) view lf raw (st'\<lparr>vm_sem_vm := k\<rparr>) = Inl err"
proof (rule ccontr)
  assume "\<not> ?thesis"
  then obtain st'' where r: "tsm_vm_body (run_linked e addr) view lf raw (st'\<lparr>vm_sem_vm := k\<rparr>) = Inr st''"
    by (metis obj_sumE)
  obtain tlv q where c: "ctrl_create ct tlv q st = Inr st'"
    using assms(1,2)
    by (auto simp: aggregate_ctrl_def ctrl_register_def bindR_Inr_iff split_beta split: if_splits)
  then obtain tlv' where cr: "ccb_create_ccb True True True True True (ct_reserve ct) (ct_load ct) tlv' = Inr (Some c)"
      and q: "vm_rpkg st' = [q\<lparr>sk_session := cc_session c\<rparr>]"
    using assms(2,4) by (auto simp: ctrl_create_def bindR_Inr_iff deref_def ccb_get_session_def split: option.splits)
  obtain i fba c' where i: "fetch_ccb (vm_ccbs st') (cc_session c) = Some i"
      "run_bytecode (run_linked e addr) view (vm_ccbs st' ! i) fba = Inr c'"
    by (rule vm_body_fetch [OF r, of "q\<lparr>sk_session := cc_session c\<rparr>" "[]"]) (use q in simp_all)
  have "i = length (vm_ccbs st)" using i(1) fetch_ccb_append [OF assms(3) refl] assms(2) by simp
  then have "vm_ccbs st' ! i = c" using assms(2) by simp
  then show False using fresh_never_runs [OF cr assms(5)] i(2) by simp
qed

text \<open>The message of a session 4, an address like those of a linked program.\<close>

lemma demo_create:
  obtains st' c where "aggregate_ctrl demo_ctrl 7 (demo_rsp [9, INS_CREATE_CCB, 0, 4, 0x34, TAG_SESSION, 0, 3])
       (demo_idle, demo_agents) = Inr (st', demo_agents)"
    and "vm_ccbs st' = [c]"
proof -
  let ?m = "demo_rsp [9, INS_CREATE_CCB, 0, 4, 0x34, TAG_SESSION, 0, 3]"
  let ?n = "\<lparr>tlv_tag = TAG_SESSION, tlv_len = 3, tlv_val = [0x34, TAG_SESSION, 0]\<rparr>"
  let ?tlv = "[\<lparr>tlv_tag = 0, tlv_len = 4, tlv_val = [0x34, TAG_SESSION, 0, 3]\<rparr>, ?n]"
  obtain c where c: "ccb_create_ccb True True True True True 0 (\<lambda>b. Inr None) ?tlv = Inr (Some c)"
    by (rule create_session [of ?tlv ?n "[0x34]" TAG_SESSION "[0]" "\<lambda>b. Inr None" None 0])
      (simp_all add: TAG_SESSION_def TAG_DLL_def is_digit_def dec_val_def)
  have "aggregate_ctrl demo_ctrl 7 ?m (demo_idle, demo_agents)
      = bindR (ctrl_create demo_ctrl (Some ?tlv) (?m\<lparr>sk_len := 7, sk_data := 1\<rparr>) demo_idle) (\<lambda>st. Inr (st, demo_agents))"
    by (simp add: aggregate_ctrl_def demo_ctrl_def demo_rsp_def skb_pull_def skb_pull_raw_def skb_load_def rd_def
        router_parse_tlv_def parse_tlv_loop.simps rdn_def INS_CREATE_CCB_def TAG_SESSION_def)
  also have "\<dots> = Inr (demo_idle\<lparr>vm_ccbs := [c],
      vm_rpkg := [?m\<lparr>sk_len := 7, sk_data := 1, sk_session := cc_session c\<rparr>], vm_sem_vm := 1\<rparr>, demo_agents)"
    using c by (simp add: ctrl_create_def demo_ctrl_def ccb_get_session_def demo_idle_def)
  finally show thesis by (rule that) simp
qed

lemma demo_address: "code_address 0 0x08041234"
proof -
  have "0x08041234 \<noteq> ucast b * (0x01010101 :: u32)" for b :: u8
  proof
    assume a: "0x08041234 = ucast b * (0x01010101 :: u32)"
    have b: "uint b < 256" by (rule order_less_le_trans [OF unsigned_less]) simp
    have "uint (ucast b * (0x01010101 :: u32)) = uint b * 0x01010101"
      using b by (simp add: uint_word_ariths unsigned_ucast_eq take_bit_int_eq_self)
    then have "uint b * 0x01010101 = 0x08041234" unfolding a [symmetric] by simp
    then show False by (cases "uint b \<le> 7") linarith+
  qed
  then show ?thesis by (simp add: code_address_def)
qed

theorem new_session_crashes_witness:
  "\<forall>e. \<exists>st' c err. aggregate_ctrl demo_ctrl 7 (demo_rsp [9, INS_CREATE_CCB, 0, 4, 0x34, TAG_SESSION, 0, 3])
       (demo_idle, demo_agents) = Inr (st', demo_agents)
     \<and> vm_ccbs st' = [c]
     \<and> tsm_vm_body (run_linked e (\<lambda>n. 0x08041234)) (\<lambda>ce. \<lparr>fa_size = 0, fa_cnt = 0, fa_array = []\<rparr>) True raw_skb
         (st'\<lparr>vm_sem_vm := 0\<rparr>) = Inl err"
proof
  fix e
  obtain st' c where s: "aggregate_ctrl demo_ctrl 7 (demo_rsp [9, INS_CREATE_CCB, 0, 4, 0x34, TAG_SESSION, 0, 3])
       (demo_idle, demo_agents) = Inr (st', demo_agents)"
      "vm_ccbs st' = [c]"
    by (rule demo_create)
  have "\<exists>err. tsm_vm_body (run_linked e (\<lambda>n. 0x08041234)) (\<lambda>ce. \<lparr>fa_size = 0, fa_cnt = 0, fa_array = []\<rparr>) True raw_skb
         (st'\<lparr>vm_sem_vm := 0\<rparr>) = Inl err"
    by (rule new_session_crashes [OF s(1)])
      (use s(2) demo_address in \<open>simp_all add: demo_idle_def demo_ctrl_def\<close>)
  then show "\<exists>st' c err. aggregate_ctrl demo_ctrl 7 (demo_rsp [9, INS_CREATE_CCB, 0, 4, 0x34, TAG_SESSION, 0, 3])
       (demo_idle, demo_agents) = Inr (st', demo_agents)
     \<and> vm_ccbs st' = [c]
     \<and> tsm_vm_body (run_linked e (\<lambda>n. 0x08041234)) (\<lambda>ce. \<lparr>fa_size = 0, fa_cnt = 0, fa_array = []\<rparr>) True raw_skb
         (st'\<lparr>vm_sem_vm := 0\<rparr>) = Inl err"
    using s by blast
qed

end
