(* ===== verification/Fm_Net.thy ===== *)
theory Fm_Net
  imports Tsm_Prelude
begin

text \<open>
  \<open>common/fm_Monitor.c\<close>, \<open>common/fm_socket.c\<close>, \<open>agent/ag_socket.c\<close> and the two functions of
  \<open>common/fm_Util.c\<close> that call the operating system. The system calls are the fields of a record
  over a state of the operating system of any type \<open>'w\<close>; each returns the result the C library
  reports and the new state. An \<open>epoll_event\<close> is its descriptor and its event bits. Nothing is
  assumed of the system calls here but what a theorem names.
\<close>

unbundle bit_operations_syntax

section \<open>The operating system\<close>

type_synonym ep_event = "int \<times> u32"

datatype ep_ctl = EPOLL_CTL_ADD | EPOLL_CTL_DEL | EPOLL_CTL_MOD

datatype sock_opt = SO_REUSEADDR | SO_SNDBUF

record 'w sys =
  sy_socket :: "'w \<Rightarrow> int \<times> 'w"
  sy_setsockopt :: "int \<Rightarrow> sock_opt \<Rightarrow> int \<Rightarrow> 'w \<Rightarrow> int \<times> 'w"
  sy_bind :: "int \<Rightarrow> u16 \<Rightarrow> 'w \<Rightarrow> int \<times> 'w"
  sy_listen :: "int \<Rightarrow> int \<Rightarrow> 'w \<Rightarrow> int \<times> 'w"
  sy_accept :: "int \<Rightarrow> 'w \<Rightarrow> int \<times> 'w"
  sy_connect :: "int \<Rightarrow> u8 list \<Rightarrow> u16 \<Rightarrow> 'w \<Rightarrow> int \<times> 'w"
  sy_getfl :: "int \<Rightarrow> 'w \<Rightarrow> u32 \<times> 'w"
  sy_setfl :: "int \<Rightarrow> u32 \<Rightarrow> 'w \<Rightarrow> 'w"
  sy_epoll_create :: "'w \<Rightarrow> int \<times> 'w"
  sy_epoll_ctl :: "int \<Rightarrow> ep_ctl \<Rightarrow> int \<Rightarrow> ep_event \<Rightarrow> 'w \<Rightarrow> 'w"
  sy_epoll_wait :: "int \<Rightarrow> nat \<Rightarrow> int \<Rightarrow> 'w \<Rightarrow> (int \<times> ep_event list) \<times> 'w"
  sy_read :: "int \<Rightarrow> int \<Rightarrow> 'w \<Rightarrow> (int \<times> u8 list) \<times> 'w"
  sy_close :: "int \<Rightarrow> 'w \<Rightarrow> 'w"
  sy_thread :: "'w \<Rightarrow> int \<times> 'w"

text \<open>The bits of \<open>sys/epoll.h\<close> and \<open>fcntl.h\<close>.\<close>

definition EPOLLIN :: u32 where "EPOLLIN = 1"
definition EPOLLOUT :: u32 where "EPOLLOUT = 4"
definition EPOLLET :: u32 where "EPOLLET = 0x80000000"
definition O_NONBLOCK :: u32 where "O_NONBLOCK = 0x800"

section \<open>The event monitor\<close>

definition FMSH_TSM_MAX_EVENTS :: nat where "FMSH_TSM_MAX_EVENTS = 1024"

record epoll_monitor =
  em_epfd :: int
  em_events :: "ep_event list"

definition monitor_init :: "'w sys \<Rightarrow> epoll_monitor \<Rightarrow> 'w \<Rightarrow> int \<times> epoll_monitor \<times> 'w" where
  "monitor_init sy m w = (case sy_epoll_create sy w of (fd, w) \<Rightarrow> (0, m\<lparr>em_epfd := fd\<rparr>, w))"

definition monitor_add_event :: "'w sys \<Rightarrow> epoll_monitor \<Rightarrow> int \<Rightarrow> u32 \<Rightarrow> 'w \<Rightarrow> int \<times> 'w" where
  "monitor_add_event sy m fd ev w = (0, sy_epoll_ctl sy (em_epfd m) EPOLL_CTL_ADD fd (fd, ev) w)"

definition monitor_del_event :: "'w sys \<Rightarrow> epoll_monitor \<Rightarrow> int \<Rightarrow> u32 \<Rightarrow> 'w \<Rightarrow> int \<times> 'w" where
  "monitor_del_event sy m fd ev w = (0, sy_epoll_ctl sy (em_epfd m) EPOLL_CTL_DEL fd (fd, ev) w)"

definition monitor_modify_event :: "'w sys \<Rightarrow> epoll_monitor \<Rightarrow> int \<Rightarrow> u32 \<Rightarrow> 'w \<Rightarrow> int \<times> 'w" where
  "monitor_modify_event sy m fd ev w = (0, sy_epoll_ctl sy (em_epfd m) EPOLL_CTL_MOD fd (fd, ev) w)"

text \<open>The events the call reports are stored at the start of the array.\<close>

definition monitor_wait_event ::
  "'w sys \<Rightarrow> epoll_monitor \<Rightarrow> int \<Rightarrow> 'w \<Rightarrow> (int \<times> epoll_monitor \<times> 'w) res"
where
  "monitor_wait_event sy m timeout w =
     (case sy_epoll_wait sy (em_epfd m) FMSH_TSM_MAX_EVENTS timeout w of ((n, evs), w) \<Rightarrow>
        bindR (wrn (em_events m) 0 evs) (\<lambda>a. Inr (n, m\<lparr>em_events := a\<rparr>, w)))"

definition monitor_fd_at :: "epoll_monitor \<Rightarrow> int \<Rightarrow> int res" where
  "monitor_fd_at m index = bindR (rd (em_events m) index) (\<lambda>e. Inr (fst e))"

definition monitor_event_at :: "epoll_monitor \<Rightarrow> int \<Rightarrow> u32 res" where
  "monitor_event_at m index = bindR (rd (em_events m) index) (\<lambda>e. Inr (snd e))"

section \<open>Sockets\<close>

text \<open>\<open>set_nonblocking\<close> returns the flags from before.\<close>

definition set_nonblocking :: "'w sys \<Rightarrow> int \<Rightarrow> 'w \<Rightarrow> u32 \<times> 'w" where
  "set_nonblocking sy fd w =
     (case sy_getfl sy fd w of (fl, w) \<Rightarrow> (fl, sy_setfl sy fd (fl OR O_NONBLOCK) w))"

definition set_socket_reuseaddr :: "'w sys \<Rightarrow> int \<Rightarrow> 'w \<Rightarrow> int \<times> 'w" where
  "set_socket_reuseaddr sy skt w = sy_setsockopt sy skt SO_REUSEADDR 1 w"

text \<open>The result of \<open>socket\<close> is not checked, and a failed bind or listen leaves the socket open.\<close>

definition skt_server_init :: "'w sys \<Rightarrow> int \<Rightarrow> 'w \<Rightarrow> int \<times> 'w" where
  "skt_server_init sy port w =
     (case sy_socket sy w of (server, w) \<Rightarrow>
      case set_socket_reuseaddr sy server w of (_, w) \<Rightarrow>
      case sy_bind sy server (of_int port) w of (rc, w) \<Rightarrow>
        if rc \<noteq> 0 then (-1, w)
        else case sy_listen sy server 16 w of (rc, w) \<Rightarrow>
          if rc \<noteq> 0 then (-1, w)
          else (server, snd (set_nonblocking sy server w)))"

definition skt_server_accept :: "'w sys \<Rightarrow> int \<Rightarrow> 'w \<Rightarrow> int \<times> 'w" where
  "skt_server_accept sy server w = sy_accept sy server w"

definition nSendBuf :: int where "nSendBuf = 36 * 1024"

definition skt_do_accept :: "'w sys \<Rightarrow> epoll_monitor \<Rightarrow> int \<Rightarrow> 'w \<Rightarrow> 'w" where
  "skt_do_accept sy m server w =
     (case skt_server_accept sy server w of (chd_fd, w) \<Rightarrow>
      case set_nonblocking sy chd_fd w of (_, w) \<Rightarrow>
      case sy_setsockopt sy chd_fd SO_SNDBUF nSendBuf w of (_, w) \<Rightarrow>
        snd (monitor_add_event sy m chd_fd (EPOLLIN OR EPOLLET) w))"

section \<open>The sockets of the agents\<close>

definition FM_ROUTER_BIND_FAILED :: int where "FM_ROUTER_BIND_FAILED = 0x80000201 - 2 ^ 32"
definition FM_ROUTER_LISTEN_FAILED :: int where "FM_ROUTER_LISTEN_FAILED = 0x80000202 - 2 ^ 32"

definition ag_server_init :: "'w sys \<Rightarrow> int \<Rightarrow> 'w \<Rightarrow> int \<times> 'w" where
  "ag_server_init sy port w =
     (case sy_socket sy w of (server, w) \<Rightarrow>
      case set_socket_reuseaddr sy server w of (_, w) \<Rightarrow>
      case sy_bind sy server (of_int port) w of (rc, w) \<Rightarrow>
        if rc \<noteq> 0 then (FM_ROUTER_BIND_FAILED, w)
        else case sy_listen sy server 16 w of (rc, w) \<Rightarrow>
          if rc \<noteq> 0 then (FM_ROUTER_LISTEN_FAILED, w)
          else (server, snd (set_nonblocking sy server w)))"

definition ag_server_accept :: "'w sys \<Rightarrow> int \<Rightarrow> 'w \<Rightarrow> int \<times> 'w" where
  "ag_server_accept sy server w = sy_accept sy server w"

text \<open>A failed connection is reported as descriptor 0.\<close>

definition ag_client_connet :: "'w sys \<Rightarrow> u8 list \<Rightarrow> int \<Rightarrow> 'w \<Rightarrow> int \<times> 'w" where
  "ag_client_connet sy ip port w =
     (case sy_socket sy w of (fd, w) \<Rightarrow>
      case sy_connect sy fd ip (of_int port) w of (ret, w) \<Rightarrow>
        if ret \<noteq> 0 then (0, w) else (fd, w))"

section \<open>Threads\<close>

text \<open>
  A thread is the function it runs and the argument it gets, a pointer that may be NULL. The pool
  gives every thread a NULL argument; the threads that were started are added to a list.
\<close>

type_synonym ('f, 'a) thread = "'f \<times> 'a option"

fun thread_loop ::
  "'w sys \<Rightarrow> 'f \<Rightarrow> nat \<Rightarrow> ('f, 'a) thread list \<Rightarrow> 'w \<Rightarrow> int \<times> ('f, 'a) thread list \<times> 'w"
where
  "thread_loop sy func 0 ths w = (0, ths, w)"
| "thread_loop sy func (Suc n) ths w =
     (case sy_thread sy w of (ret, w) \<Rightarrow>
        if ret \<noteq> 0 then (-1, ths, w) else thread_loop sy func n (ths @ [(func, None)]) w)"

definition init_thread_pool ::
  "'w sys \<Rightarrow> int \<Rightarrow> 'f \<Rightarrow> ('f, 'a) thread list \<Rightarrow> 'w \<Rightarrow> int \<times> ('f, 'a) thread list \<times> 'w"
where
  "init_thread_pool sy num func ths w = thread_loop sy func (nat num) ths w"

end
