(* ===== verification/Tsm_Recv.thy ===== *)
theory Tsm_Recv
  imports Tsm_Ctrl Fm_Net
begin

text \<open>
  The receiving thread of \<open>tsm_router.c\<close> on the event monitor and the sockets of \<open>Fm_Net\<close>: the
  head and the body of a packet, its dispatch to the control messages of \<open>Tsm_Ctrl\<close>, to the
  probe or to the interpreter, the events of one round. With the thread of the interpreter and the
  sending thread this gives the whole router.
\<close>

section \<open>State\<close>

text \<open>
  What the receiving thread changes: the packets and the semaphore of the interpreter, the table
  of agents, the packets and the semaphore of the probe, its buffer \<open>len_buf\<close>.
\<close>

record 'w recv =
  rv_vm :: vm_state
  rv_agents :: agents
  rv_ppkg :: "sk_buff list"
  rv_sem_probe :: nat
  rv_len_buf :: "u8 list"
  rv_os :: 'w

section \<open>The body of a packet\<close>

text \<open>
  What \<open>router_do_read\<close> does once it has the two numbers of the head: a read that fails moves the
  position back by one, and one at the end of the stream does not move it.
\<close>

partial_function (option) read_loop ::
  "'w sys \<Rightarrow> int \<Rightarrow> int \<Rightarrow> int \<Rightarrow> sk_buff \<Rightarrow> 'w \<Rightarrow> (sk_buff \<times> 'w) res option"
where
  "read_loop sy fd pos left skb w =
     (if left > 0
      then case sy_read sy fd left w of ((nread, xs), w) \<Rightarrow>
             (case skb_store skb pos xs of
                Inl e \<Rightarrow> Some (Inl e)
              | Inr skb \<Rightarrow> read_loop sy fd (pos + nread) (left - nread) skb w)
      else Some (Inr (skb, w)))"

definition read_payload ::
  "'w sys \<Rightarrow> sk_buff \<Rightarrow> int \<Rightarrow> int \<Rightarrow> int \<Rightarrow> int \<times> int \<Rightarrow> 'w \<Rightarrow> (sk_buff \<times> 'w) res option"
where
  "read_payload sy raw glb fd len field w =
     bindO (Some (deref (fst (alloc_skb raw glb True True (of_int len))))) (\<lambda>skb.
     bindO (Some (skb_put skb (of_int len))) (\<lambda>(pos, skb).
       read_loop sy fd pos (len - 12)
         (skb\<lparr>sk_msg_type := of_int (fst field), sk_session := of_int (snd field),
              sk_reason := 0, sk_isNew := True\<rparr>) w))"

section \<open>Dispatching a packet\<close>

text \<open>\<open>tool\<close> is the comparison of the packet's agent, a pointer, with the number \<open>AG_TOOL\<close>.\<close>

definition aggregate_dispatch :: "ctrl_env \<Rightarrow> bool \<Rightarrow> int \<Rightarrow> sk_buff \<Rightarrow> 'w recv \<Rightarrow> 'w recv res" where
  "aggregate_dispatch ct tool fd skb st =
     (if sint (signed_drop_bit 24 (sk_msg_type skb)) = MSG_CTRL
      then bindR (aggregate_ctrl ct fd skb (rv_vm st, rv_agents st)) (\<lambda>(v, ag).
             Inr (st\<lparr>rv_vm := v, rv_agents := ag\<rparr>))
      else if tool
      then Inr (st\<lparr>rv_ppkg := rv_ppkg st @ [skb], rv_sem_probe := rv_sem_probe st + 1\<rparr>)
      else Inr (st\<lparr>rv_vm := (rv_vm st)\<lparr>vm_rpkg := vm_rpkg (rv_vm st) @ [skb],
                                      vm_sem_vm := vm_sem_vm (rv_vm st) + 1\<rparr>\<rparr>))"

section \<open>One event\<close>

text \<open>\<open>junk\<close> is the buffer of \<open>router_do_read\<close>, which nothing has set.\<close>

definition aggregate_event ::
  "'w sys \<Rightarrow> (int \<Rightarrow> int \<Rightarrow> int \<Rightarrow> 'w \<Rightarrow> int \<times> 'w) \<Rightarrow> u8 list \<Rightarrow> ctrl_env \<Rightarrow> bool \<Rightarrow> int \<Rightarrow> epoll_monitor
     \<Rightarrow> int \<Rightarrow> u32 \<Rightarrow> 'w recv \<Rightarrow> 'w recv res option"
where
  "aggregate_event sy read_at junk ct tool server m fd ev st =
     (if fd = server then Some (Inr (st\<lparr>rv_os := skt_do_accept sy m server (rv_os st)\<rparr>))
      else if ev AND EPOLLIN \<noteq> 0
      then case sy_read sy fd 4 (rv_os st) of ((nread, xs), w) \<Rightarrow>
           bindO (Some (wrn (rv_len_buf st) 0 xs)) (\<lambda>len_buf.
             let st = st\<lparr>rv_len_buf := len_buf, rv_os := w\<rparr> in
             if nread = -1 then Some (Inr st)
             else if nread = 0
             then bindO (Some (router_unregister_agent (sy_close sy) (\<lambda>fd w. snd (monitor_del_event sy m fd 0 w))
                      fd (rv_agents st) w)) (\<lambda>(ag, w).
                    Some (Inr (st\<lparr>rv_agents := ag, rv_os := w\<rparr>)))
             else bindO (Some (atoi len_buf)) (\<lambda>len.
                  bindO (router_do_read read_at (sy_read sy) junk fd w) (\<lambda>(skb, w).
                    let st = st\<lparr>rv_os := w\<rparr> in
                    case skb of None \<Rightarrow> Some (Inr st)
                    | Some skb \<Rightarrow> Some (aggregate_dispatch ct tool fd skb st))))
      else Some (Inr st))"

fun aggregate_events ::
  "'w sys \<Rightarrow> (int \<Rightarrow> int \<Rightarrow> int \<Rightarrow> 'w \<Rightarrow> int \<times> 'w) \<Rightarrow> u8 list \<Rightarrow> ctrl_env \<Rightarrow> bool \<Rightarrow> int \<Rightarrow> epoll_monitor
     \<Rightarrow> nat \<Rightarrow> nat \<Rightarrow> 'w recv \<Rightarrow> 'w recv res option"
where
  "aggregate_events sy read_at junk ct tool server m i 0 st = Some (Inr st)"
| "aggregate_events sy read_at junk ct tool server m i (Suc n) st =
     bindO (Some (monitor_fd_at m (int i))) (\<lambda>fd. bindO (Some (monitor_event_at m (int i))) (\<lambda>ev.
     bindO (aggregate_event sy read_at junk ct tool server m fd ev st) (\<lambda>st.
       aggregate_events sy read_at junk ct tool server m (i + 1) n st)))"

text \<open>One round of the endless loop: wait for events, handle each.\<close>

definition aggregate_round ::
  "'w sys \<Rightarrow> (int \<Rightarrow> int \<Rightarrow> int \<Rightarrow> 'w \<Rightarrow> int \<times> 'w) \<Rightarrow> u8 list \<Rightarrow> ctrl_env \<Rightarrow> bool \<Rightarrow> int \<Rightarrow> epoll_monitor \<times> 'w recv
     \<Rightarrow> (epoll_monitor \<times> 'w recv) res option"
where
  "aggregate_round sy read_at junk ct tool server = (\<lambda>(m, st).
     bindO (Some (monitor_wait_event sy m (-1) (rv_os st))) (\<lambda>(nfds, m, w).
     bindO (aggregate_events sy read_at junk ct tool server m 0 (nat nfds) (st\<lparr>rv_os := w\<rparr>)) (\<lambda>st.
       Some (Inr (m, st)))))"

section \<open>The whole router\<close>

text \<open>A step is a round of the receiving thread, of the interpreter, or of the sending thread.\<close>

inductive tsm_step ::
  "'w sys \<Rightarrow> (int \<Rightarrow> int \<Rightarrow> int \<Rightarrow> 'w \<Rightarrow> int \<times> 'w) \<Rightarrow> int \<Rightarrow> bytecode_run \<Rightarrow> (code_entry \<Rightarrow> fmBytes_array)
     \<Rightarrow> (int \<Rightarrow> u8 list \<Rightarrow> 'w \<Rightarrow> int \<times> int \<times> 'w)
     \<Rightarrow> epoll_monitor \<times> 'w recv \<Rightarrow> epoll_monitor \<times> 'w recv \<Rightarrow> bool"
  for sy read_at server run view os_write
where
  receive_round: "aggregate_round sy read_at junk ct tool server s = Some (Inr s') \<Longrightarrow>
     tsm_step sy read_at server run view os_write s s'"
| interpret_round: "0 < vm_sem_vm (rv_vm st) \<Longrightarrow>
     tsm_vm_body run view lf raw ((rv_vm st)\<lparr>vm_sem_vm := vm_sem_vm (rv_vm st) - 1\<rparr>) = Inr v' \<Longrightarrow>
     tsm_step sy read_at server run view os_write (m, st) (m, st\<lparr>rv_vm := v'\<rparr>)"
| send_round: "0 < vm_sem_router_w (rv_vm st) \<Longrightarrow>
     router_disaggregate_body os_write (rv_agents st) (vm_wpkg (rv_vm st)) (rv_os st) = Some (Inr (ag', wpkg', w')) \<Longrightarrow>
     tsm_step sy read_at server run view os_write (m, st) (m, st\<lparr>rv_agents := ag', rv_os := w',
       rv_vm := (rv_vm st)\<lparr>vm_wpkg := wpkg', vm_sem_router_w := vm_sem_router_w (rv_vm st) - 1\<rparr>\<rparr>)"

inductive_cases tsm_stepE: "tsm_step sy read_at server run view os_write s s'"

section \<open>Lemmas\<close>

lemma do_read_none: "router_do_read read_at os_read junk fd w = Some (Inr (skb, w')) \<Longrightarrow> skb = None"
proof -
  obtain n v where r: "read_at fd (uint (List.hd junk)) 4 w = (n, v)" by fastforce
  show "router_do_read read_at os_read junk fd w = Some (Inr (skb, w')) \<Longrightarrow> skb = None"
    by (cases junk) (use r in \<open>auto simp: router_do_read_def rd_def split: if_splits option.splits\<close>)
qed

lemma unregister_loop_locked:
  "lt_lock l \<Longrightarrow> unregister_loop fd l before aes = Inr ag \<Longrightarrow> ag_entries ag = before @ aes"
  by (induction fd l before aes rule: unregister_loop.induct) (auto simp: LOCK_def split: if_splits)

lemma unregister_keeps:
  "router_unregister_agent cl del fd ag w = Inr (ag', w') \<Longrightarrow> ag_entries ag' = ag_entries ag"
  by (auto simp: router_unregister_agent_def bindR_Inr_iff LOCK_def Let_def split: if_splits
      dest!: unregister_loop_locked [rotated])

text \<open>The part of the state that packets would change.\<close>

definition same_work :: "'w recv \<Rightarrow> 'w recv \<Rightarrow> bool" where
  "same_work a b \<longleftrightarrow> rv_vm a = rv_vm b \<and> rv_ppkg a = rv_ppkg b \<and> rv_sem_probe a = rv_sem_probe b
     \<and> ag_entries (rv_agents a) = ag_entries (rv_agents b)"

lemma same_work_simps [simp]:
  "same_work a a" "same_work (a\<lparr>rv_os := w\<rparr>) b = same_work a b"
  "same_work a (b\<lparr>rv_os := w\<rparr>) = same_work a b"
  "same_work (a\<lparr>rv_len_buf := l\<rparr>) b = same_work a b"
  by (simp_all add: same_work_def)

lemma same_work_trans: "same_work a b \<Longrightarrow> same_work b c \<Longrightarrow> same_work a c"
  by (simp add: same_work_def)

lemma aggregate_event_quiet:
  assumes "aggregate_event sy read_at junk ct tool server m fd ev st = Some (Inr st')"
  shows "same_work st' st"
proof -
  obtain n xs w where r: "sy_read sy fd 4 (rv_os st) = ((n, xs), w)" by (metis prod.collapse)
  show ?thesis
  proof (cases "fd = server \<or> ev AND EPOLLIN = 0 \<or> n = -1 \<or> n = 0")
    case True
    then show ?thesis
      using assms unregister_keeps
      by (auto simp: aggregate_event_def r bindO_Inr_iff Let_def same_work_def split: if_splits)
  next
    case False
    then show ?thesis
      using assms
      by (auto simp: aggregate_event_def r bindO_Inr_iff Let_def same_work_def dest!: do_read_none)
  qed
qed

lemma aggregate_events_quiet:
  "aggregate_events sy read_at junk ct tool server m i n st = Some (Inr st') \<Longrightarrow> same_work st' st"
  by (induction n arbitrary: i st)
    (auto simp: bindO_Inr_iff dest: aggregate_event_quiet intro: same_work_trans)

lemma aggregate_round_quiet:
  "aggregate_round sy read_at junk ct tool server (m, st) = Some (Inr (m', st')) \<Longrightarrow> same_work st' st"
  by (auto simp: aggregate_round_def bindO_Inr_iff dest!: aggregate_events_quiet)

text \<open>A stream that delivers at most \<open>k\<close> bytes at a time, for the witnesses.\<close>

definition demo_stream :: "nat \<Rightarrow> u8 list sys" where
  "demo_stream k = \<lparr>sy_socket = \<lambda>w. (3, w), sy_setsockopt = \<lambda>fd opt v w. (0, w), sy_bind = \<lambda>fd port w. (0, w),
     sy_listen = \<lambda>fd n w. (0, w), sy_accept = \<lambda>fd w. (7, w), sy_connect = \<lambda>fd ip port w. (0, w),
     sy_getfl = \<lambda>fd w. (2, w), sy_setfl = \<lambda>fd fl w. w, sy_epoll_create = \<lambda>w. (4, w),
     sy_epoll_ctl = \<lambda>ep c fd ev w. w, sy_epoll_wait = \<lambda>ep n timeout w. ((0, []), w),
     sy_read = \<lambda>fd n w. ((int (min (length w) (min k (nat n))), take (min k (nat n)) w), drop (min k (nat n)) w),
     sy_close = \<lambda>fd w. w, sy_thread = \<lambda>w. (0, w)\<rparr>"

lemma skb_store_take:
  assumes "int (length pre) = p" and "sk_block skb = pre @ old" and "length xs \<le> length old"
  shows "skb_store skb p xs = Inr (skb\<lparr>sk_block := (pre @ xs) @ drop (length xs) old\<rparr>)"
  using assms by (auto simp: skb_store_def wrn_def)

text \<open>A connection that delivers the bytes \<open>inp w\<close> in pieces: a read takes a non-empty prefix.\<close>

definition delivers :: "'w sys \<Rightarrow> int \<Rightarrow> ('w \<Rightarrow> u8 list) \<Rightarrow> bool" where
  "delivers sy fd inp \<longleftrightarrow> (\<forall>n w. 0 < n \<longrightarrow> inp w \<noteq> [] \<longrightarrow>
     (case sy_read sy fd n w of ((k, xs), w') \<Rightarrow>
        k = int (length xs) \<and> xs \<noteq> [] \<and> k \<le> n \<and> inp w = xs @ inp w'))"

lemma read_loop_ok:
  assumes "delivers sy fd inp"
  shows "sk_block skb = pre @ old \<Longrightarrow> n \<le> length old \<Longrightarrow> n \<le> length (inp w) \<Longrightarrow>
    \<exists>w'. read_loop sy fd (int (length pre)) (int n) skb w
       = Some (Inr (skb\<lparr>sk_block := pre @ take n (inp w) @ drop n old\<rparr>, w')) \<and> inp w' = drop n (inp w)"
proof (induction n arbitrary: pre old skb w rule: less_induct)
  case (less n)
  show ?case
  proof (cases "n = 0")
    case True
    then show ?thesis using less.prems(1) by (subst read_loop.simps) simp
  next
    case False
    then have ne: "0 < int n" "inp w \<noteq> []" using less.prems(3) by auto
    obtain k xs v where r: "sy_read sy fd (int n) w = ((k, xs), v)" by (metis prod.collapse)
    have k: "k = int (length xs)" "xs \<noteq> []" "length xs \<le> n" "inp w = xs @ inp v"
      using assms ne r unfolding delivers_def by fastforce+
    let ?skb = "skb\<lparr>sk_block := (pre @ xs) @ drop (length xs) old\<rparr>"
    have st: "skb_store skb (int (length pre)) xs = Inr ?skb"
      by (rule skb_store_take) (use less.prems k in auto)
    have "\<exists>w'. read_loop sy fd (int (length (pre @ xs))) (int (n - length xs)) ?skb v
       = Some (Inr (?skb\<lparr>sk_block := (pre @ xs) @ take (n - length xs) (inp v)
           @ drop (n - length xs) (drop (length xs) old)\<rparr>, w')) \<and> inp w' = drop (n - length xs) (inp v)"
      using less.prems k False by (intro less.IH) auto
    then obtain w' where w': "read_loop sy fd (int (length (pre @ xs))) (int (n - length xs)) ?skb v
       = Some (Inr (skb\<lparr>sk_block := pre @ take n (inp w) @ drop n old\<rparr>, w'))" "inp w' = drop n (inp w)"
      using k by auto
    have "read_loop sy fd (int (length pre)) (int n) skb w
      = read_loop sy fd (int (length (pre @ xs))) (int (n - length xs)) ?skb v"
      using ne(1) r k st by (subst read_loop.simps) (simp add: of_nat_diff)
    then show ?thesis using w' by auto
  qed
qed

section \<open>Properties\<close>

text \<open>
  Were the head of a packet ever read, its body would be: on a connection that delivers enough
  bytes, in pieces of any size, the read loop ends and the packet holds the first \<open>len - 12\<close> bytes
  of the stream, in order, and nothing after them is consumed. The packet is still \<open>len\<close> bytes
  long: its last twelve bytes are zero.
\<close>

theorem read_payload_reads:
  assumes "delivers sy fd inp" and "12 \<le> len" and "len < 2 ^ 31" and "len - 12 \<le> int (length (inp w))"
  shows "\<exists>skb w'. read_payload sy raw glb fd len (t, s) w = Some (Inr (skb, w'))
    \<and> skb_body skb = take (nat (len - 12)) (inp w) @ replicate 12 0
    \<and> inp w' = drop (nat (len - 12)) (inp w)
    \<and> sk_len skb = of_int len \<and> sk_msg_type skb = of_int t \<and> sk_session skb = of_int s \<and> sk_isNew skb"
proof -
  define n where "n = nat (len - 12)"
  have len: "len = int n + 12" "n + 12 < 2 ^ 31" using assms(2,3) by (simp_all add: n_def)
  have "take_bit 32 len = len" by (rule take_bit_int_eq_self) (use assms(2,3) in simp_all)
  then have "uint (of_int len :: u32) = len" using assms(2) by (simp add: unsigned_of_int)
  then have u: "uint (of_int len :: u32) = int n + 12" by (simp only: len(1))
  then have u': "unat (of_int len :: u32) = n + 12" by (simp add: unat_eq_nat_uint)
  have nz: "(of_int len :: u32) \<noteq> 0" using u(1) by auto
  define a where "a = raw\<lparr>sk_index := glb, sk_resend_idx := 0, sk_data_len := of_int len,
    sk_block := replicate (n + 12) 0, sk_head := 0, sk_data := 0, sk_end := int n + 12, sk_tail := int n + 12,
    sk_len := of_int len,
    sk_msg_type := of_int t, sk_session := of_int s, sk_reason := 0, sk_isNew := True\<rparr>"
  have "sk_block a = [] @ replicate (n + 12) 0" by (simp add: a_def)
  from read_loop_ok [OF assms(1) this, of n w] obtain w' where
    w': "read_loop sy fd 0 (int n) a w = Some (Inr (a\<lparr>sk_block := take n (inp w) @ replicate 12 0\<rparr>, w'))"
      "inp w' = drop n (inp w)"
    using assms(4) len(1) by auto
  have "read_payload sy raw glb fd len (t, s) w = read_loop sy fd 0 (int n) a w"
    using nz u u' len(1) by (simp add: read_payload_def alloc_skb_def skb_put_def skb_is_nonlinear_def
        skb_tail_pointer_def Let_def a_def)
  moreover have "skb_body (a\<lparr>sk_block := take n (inp w) @ replicate 12 0\<rparr>) = take n (inp w) @ replicate 12 0"
    using assms(4) len(1) by (simp add: skb_body_def a_def)
  ultimately show ?thesis using w' by (simp add: a_def n_def)
qed

theorem read_payload_reads_example:
  "\<exists>skb w'. read_payload (demo_stream 2) raw_skb 0 5 15 (2, 7) [1, 2, 3, 4] = Some (Inr (skb, w'))
     \<and> skb_body skb = [1, 2, 3] @ replicate 12 0 \<and> w' = [4]"
proof -
  have "delivers (demo_stream 2) 5 (\<lambda>w. w)"
    by (auto simp: delivers_def demo_stream_def min_def)
  from read_payload_reads [OF this, of 15 "[1, 2, 3, 4]" raw_skb 0 2 7] show ?thesis by auto
qed

text \<open>
  C3. The router as a whole never does any work: from a start where nothing is queued, whatever
  clients connect, send and close, in every state the three threads reach no packet has been
  received, no agent has been registered, no session exists that was not there, and the
  interpreter has not run.
\<close>

theorem router_never_starts:
  assumes "(tsm_step sy read_at server run view os_write)\<^sup>*\<^sup>* (m0, st0) (m, st)"
    and "vm_sem_vm (rv_vm st0) = 0" and "vm_sem_router_w (rv_vm st0) = 0"
  shows "rv_vm st = rv_vm st0 \<and> rv_ppkg st = rv_ppkg st0 \<and> rv_sem_probe st = rv_sem_probe st0
    \<and> ag_entries (rv_agents st) = ag_entries (rv_agents st0)"
proof -
  have "same_work st st0"
    using assms(1)
  proof (induction "(m, st)" arbitrary: m st rule: rtranclp_induct)
    case (step y)
    obtain m1 st1 where y: "y = (m1, st1)" by (cases y)
    have s: "same_work st1 st0" using step.hyps(3) [OF y] .
    then have v: "rv_vm st1 = rv_vm st0" by (simp add: same_work_def)
    show ?case
      using step.hyps(2) unfolding y
      by (cases rule: tsm_stepE)
        (use s v assms(2,3) in \<open>auto dest: aggregate_round_quiet intro: same_work_trans\<close>)
  qed simp
  then show ?thesis by (simp add: same_work_def)
qed

text \<open>An operating system whose only event is a new connection, for the witnesses.\<close>

definition demo_sys :: "nat sys" where
  "demo_sys = \<lparr>sy_socket = \<lambda>w. (3, w), sy_setsockopt = \<lambda>fd opt v w. (0, w), sy_bind = \<lambda>fd port w. (0, w),
     sy_listen = \<lambda>fd n w. (0, w), sy_accept = \<lambda>fd w. (7, w + 1), sy_connect = \<lambda>fd ip port w. (0, w),
     sy_getfl = \<lambda>fd w. (2, w), sy_setfl = \<lambda>fd fl w. w, sy_epoll_create = \<lambda>w. (4, w),
     sy_epoll_ctl = \<lambda>ep c fd ev w. w, sy_epoll_wait = \<lambda>ep n timeout w. ((1, [(3, EPOLLIN)]), w),
     sy_read = \<lambda>fd n w. ((-1, []), w), sy_close = \<lambda>fd w. w, sy_thread = \<lambda>w. (0, w)\<rparr>"

definition demo_recv :: "nat recv" where
  "demo_recv = \<lparr>rv_vm = \<lparr>vm_ccbs = [], vm_rpkg = [], vm_wpkg = [], vm_sem_vm = 0, vm_sem_router_w = 0,
       vm_glb = 0, vm_fba = None\<rparr>,
     rv_agents = \<lparr>ag_list = \<lparr>lt_head = 1, lt_lock = False\<rparr>, ag_entries = []\<rparr>, rv_ppkg = [],
     rv_sem_probe = 0, rv_len_buf = [0, 0, 0, 0], rv_os = 0\<rparr>"

theorem router_never_starts_witness:
  "(tsm_step demo_sys (\<lambda>fd a n w. (-1, w)) 3 (\<lambda>f c r a. Inl Undefined)
       (\<lambda>ce. \<lparr>fa_size = 0, fa_cnt = 0, fa_array = []\<rparr>) (\<lambda>fd xs w. (0, 0, w)))\<^sup>*\<^sup>*
     (\<lparr>em_epfd = 4, em_events = [(0, 0)]\<rparr>, demo_recv)
     (\<lparr>em_epfd = 4, em_events = [(3, EPOLLIN)]\<rparr>, demo_recv\<lparr>rv_os := 1\<rparr>)
   \<and> vm_rpkg (rv_vm (demo_recv\<lparr>rv_os := 1\<rparr>)) = []"
proof -
  let ?step = "tsm_step demo_sys (\<lambda>fd a n w. (-1, w)) 3 (\<lambda>f c r a. Inl Undefined)
       (\<lambda>ce. \<lparr>fa_size = 0, fa_cnt = 0, fa_array = []\<rparr>) (\<lambda>fd xs w. (0, 0, w))"
  have "aggregate_round demo_sys (\<lambda>fd a n w. (-1, w)) [0] demo_ctrl False 3 (\<lparr>em_epfd = 4, em_events = [(0, 0)]\<rparr>, demo_recv)
      = Some (Inr (\<lparr>em_epfd = 4, em_events = [(3, EPOLLIN)]\<rparr>, demo_recv\<lparr>rv_os := 1\<rparr>))"
    by (simp add: aggregate_round_def monitor_wait_event_def demo_sys_def demo_recv_def wrn_def
        monitor_fd_at_def monitor_event_at_def rd_def aggregate_event_def skt_do_accept_def
        skt_server_accept_def set_nonblocking_def monitor_add_event_def)
  then have r: "?step\<^sup>*\<^sup>* (\<lparr>em_epfd = 4, em_events = [(0, 0)]\<rparr>, demo_recv)
      (\<lparr>em_epfd = 4, em_events = [(3, EPOLLIN)]\<rparr>, demo_recv\<lparr>rv_os := 1\<rparr>)"
    by (intro r_into_rtranclp tsm_step.receive_round)
  have "rv_vm (demo_recv\<lparr>rv_os := 1\<rparr>) = rv_vm demo_recv"
    using router_never_starts [OF r] by (simp add: demo_recv_def)
  then show ?thesis using r by (simp add: demo_recv_def)
qed

text \<open>
  C35. A client that sends anything and keeps its connection open stops the receiving thread: the
  round of its event never ends, or leaves the buffer when all four bytes are digits.
\<close>

theorem data_event_never_returns:
  assumes "\<forall>a w. 0 \<le> a \<and> a < 256 \<longrightarrow> fst (read_at fd a 4 w) = -1"
    and "\<forall>w. fst (fst (sy_read sy fd 100 w)) \<noteq> 0"
    and "fst (fst (sy_read sy fd 4 (rv_os st))) > 0"
    and "fd \<noteq> server" and "ev AND EPOLLIN \<noteq> 0"
  shows "\<nexists>st'. aggregate_event sy read_at (b # junk) ct tool server m fd ev st = Some (Inr st')"
proof -
  obtain n xs w where r: "sy_read sy fd 4 (rv_os st) = ((n, xs), w)" by (metis prod.collapse)
  have "router_do_read read_at (sy_read sy) (b # junk) fd w' = None" for w'
    by (rule router_do_read_never [where read_at = read_at and os_read = "sy_read sy" and fd = fd, OF assms(1,2)])
  then show ?thesis
    using assms(3-5) by (auto simp: aggregate_event_def r bindO_Inr_iff Let_def)
qed

theorem data_event_never_returns_witness:
  "\<nexists>st'. aggregate_event (demo_sys\<lparr>sy_read := \<lambda>fd n w. if n = 4 then ((1, [65]), w) else ((-1, []), w)\<rparr>)
      (\<lambda>fd a n w. (-1, w)) [0, 0, 0, 0] demo_ctrl False 3 \<lparr>em_epfd = 4, em_events = [(7, EPOLLIN)]\<rparr> 7 EPOLLIN demo_recv
    = Some (Inr st')"
  by (rule data_event_never_returns) (simp_all add: EPOLLIN_def)


end
