(* ===== verification/Ag_Mobile.thy ===== *)
theory Ag_Mobile
  imports Tsm_Ccb
begin

text \<open>
  The agent programs under \<open>agent\<close>: the message head and check code of \<open>ag_mobile_core.c\<close>, the
  receiving function of \<open>ag_mobile.c\<close>, and \<open>cap_loader.c\<close>, which joins the components of a CAP file
  and finds the identifiers in it. The library that reads archives, the hash and \<open>crc16\<close> are not
  part of the repository and are parameters, as are \<open>read\<close>, \<open>close\<close> and \<open>epoll\<close> on a state of the
  operating system; \<open>fresh n\<close> is what an allocation of \<open>n\<close> bytes finds in memory.
\<close>

section \<open>Message head and check code\<close>

record msg_head =
  mh_ver :: u8
  mh_ctrl :: u8
  mh_s_level :: u8
  mh_i_level :: u8
  mh_seq :: int
  mh_session :: int

definition CHECK_NONE :: int where "CHECK_NONE = 0"
definition CHECK_MAC :: int where "CHECK_MAC = 1"
definition CHECK_CRC16 :: int where "CHECK_CRC16 = 2"
definition MSG_HEADER_LEN :: u32 where "MSG_HEADER_LEN = 12"
definition MSG_CRC_LEN :: u32 where "MSG_CRC_LEN = 2"

text \<open>A pointer to the byte at offset \<open>i\<close>, for the functions that read on from there.\<close>

definition tail_at :: "u8 list \<Rightarrow> int \<Rightarrow> u8 list res" where
  "tail_at b i = (if 0 \<le> i \<and> i \<le> int (length b) then Inr (drop (nat i) b) else Inl Out_Of_Bounds)"

definition msg_head_handling :: "sk_buff \<Rightarrow> msg_head \<Rightarrow> (int \<times> msg_head) res" where
  "msg_head_handling skb h =
     (let b = sk_block skb; d = sk_data skb in
      if sk_len skb < MSG_HEADER_LEN then Inr (-1, h)
      else bindR (rd b d) (\<lambda>v. bindR (rd b (d + 1)) (\<lambda>c. bindR (rd b (d + 2)) (\<lambda>sl. bindR (rd b (d + 3)) (\<lambda>il.
           bindR (tail_at b (d + 4)) (\<lambda>t. bindR (atoi t) (\<lambda>sq. bindR (tail_at b (d + 8)) (\<lambda>t. bindR (atoi t) (\<lambda>ses.
             Inr (0, \<lparr>mh_ver = v, mh_ctrl = c, mh_s_level = sl, mh_i_level = il, mh_seq = sq, mh_session = ses\<rparr>))))))))))"

text \<open>The bytes are signed characters; both tests compare with the same level.\<close>

definition msg_tail_handling :: "sk_buff \<Rightarrow> int \<Rightarrow> (32 word) res" where
  "msg_tail_handling skb i_level =
     (let b = sk_block skb; e = sk_data skb + uint (sk_len skb) in
      bindR (if i_level = CHECK_MAC
             then bindR (rd b (e - 4)) (\<lambda>a1. bindR (rd b (e - 3)) (\<lambda>a2. bindR (rd b (e - 2)) (\<lambda>a3. bindR (rd b (e - 1)) (\<lambda>a4.
                    Inr (push_bit 24 (scast a1) OR push_bit 16 (scast a2) OR push_bit 8 (scast a3) OR scast a4)))))
             else Inr 0) (\<lambda>result.
        if i_level = CHECK_MAC
        then bindR (rd b (e - 2)) (\<lambda>a3. bindR (rd b (e - 1)) (\<lambda>a4. Inr (push_bit 8 (scast a3) OR scast a4)))
        else Inr result))"

text \<open>
  The two sums of the last branch are computed and not compared. \<open>None\<close> is the indeterminate
  result of a function that reaches its end.
\<close>

definition msg_handling :: "(u8 list \<Rightarrow> int \<Rightarrow> u32 \<Rightarrow> 16 word) \<Rightarrow> msg_head \<Rightarrow> sk_buff \<Rightarrow> int option res" where
  "msg_handling crc16 h skb =
     bindR (msg_head_handling skb h) (\<lambda>(ret, head).
       if ret \<noteq> 0 then Inr (Some ret)
       else let lv = uint (mh_i_level head) in
            if lv = CHECK_NONE \<or> lv = CHECK_MAC then Inr None
            else if lv = CHECK_CRC16
            then bindR (msg_tail_handling skb lv) (\<lambda>r.
                 let crc_rcv = (ucast r :: u16); crc_cal = crc16 (sk_block skb) (sk_data skb) (sk_len skb - MSG_CRC_LEN)
                 in Inr None)
            else Inr (Some (-1)))"

section \<open>Receiving\<close>

definition do_read ::
  "(int \<Rightarrow> int \<Rightarrow> 'w \<Rightarrow> (int \<times> u8 list) \<times> 'w) \<Rightarrow> (int \<Rightarrow> 'w \<Rightarrow> 'w) \<Rightarrow> (int \<Rightarrow> 'w \<Rightarrow> 'w)
     \<Rightarrow> sk_buff \<Rightarrow> int \<Rightarrow> u8 list \<Rightarrow> int \<Rightarrow> 'w \<Rightarrow> (sk_buff option \<times> int \<times> 'w) res"
where
  "do_read os_read close_fd monitor_del_event raw glb len_buf fd w =
     (case os_read fd 4 w of ((nread, xs), w1) \<Rightarrow>
        let shut = Inr (None, glb, monitor_del_event fd (close_fd fd w1)) in
        bindR (wrn len_buf 0 xs) (\<lambda>b.
        if nread = -1 \<or> nread = 0 then shut
        else bindR (rd b 0) (\<lambda>b0. bindR (rd b 1) (\<lambda>b1.
             if uint b0 = NOT (uint b1)
             then bindR (rd b 2) (\<lambda>b2. bindR (rd b 3) (\<lambda>b3.
                  let len = push_bit 8 (uint b2) OR uint b3 in
                  case alloc_skb raw glb True True (of_int len) of
                    (None, glb) \<Rightarrow> Inl Null_Deref
                  | (Some skb, glb) \<Rightarrow>
                      bindR (skb_put skb (of_int len)) (\<lambda>(p, skb).
                      case os_read fd len w1 of ((n, ys), w2) \<Rightarrow>
                        bindR (skb_store skb p ys) (\<lambda>skb. Inr (Some skb, glb, w2)))))
             else shut))))"

section \<open>CAP files\<close>

record cap_buffer =
  cb_buffer :: "u8 list"
  cb_size :: int
  cb_len :: int

record cap_info =
  ci_content :: cap_buffer
  ci_pkg_aid :: cap_buffer
  ci_applet_aid :: cap_buffer
  ci_hash :: cap_buffer

datatype zip_err = FM_ZIP_FILE_OPEN_FAILED | FM_ZIP_FILE_NO_ENTRY_MATCH | FM_ZIP_FILE_STATE_FAILED
  | FM_ZIP_FILE_SIZE_NOT_AVAIL | FM_ZIP_FILE_ENTRY_NOT_OPEN

text \<open>The archive as its library shows it: the index of a name, the size of an entry (outer
  \<open>None\<close> on failure, inner \<open>None\<close> when unknown), the bytes of an entry that can be opened.\<close>

record zip_archive =
  za_locate :: "u8 list \<Rightarrow> int"
  za_stat :: "int \<Rightarrow> int option option"
  za_open :: "int \<Rightarrow> u8 list option"

definition sub_cap_name :: "u8 list list" where
  "sub_cap_name = map cstring_of [''Header.cap'', ''Directory.cap'', ''Import.cap'', ''Applet.cap'', ''Class.cap'',
     ''Method.cap'', ''StaticField.cap'', ''ConstantPool.cap'', ''RefLocation.cap'']"

definition cap_grow :: "(int \<Rightarrow> u8 list) \<Rightarrow> int \<Rightarrow> cap_buffer \<Rightarrow> cap_buffer res" where
  "cap_grow fresh sz c =
     (if cb_size c - cb_len c < sz
      then let n = cb_size c + (sz div 4 + 1) * 1024 in
           bindR (rdn (cb_buffer c) 0 (cb_len c)) (\<lambda>xs.
           bindR (wrn (fresh n) 0 xs) (\<lambda>temp. Inr (c\<lparr>cb_size := n, cb_buffer := temp\<rparr>)))
      else Inr c)"

definition cap_pkg_aid :: "(int \<Rightarrow> u8 list) \<Rightarrow> cap_info \<Rightarrow> cap_info res" where
  "cap_pkg_aid fresh cap =
     (let b = cb_buffer (ci_content cap) in
      bindR (rd b 12) (\<lambda>aid_len.
      bindR (rdn b 13 (uint aid_len)) (\<lambda>xs.
      bindR (wrn (fresh (uint aid_len)) 0 xs) (\<lambda>aid.
        Inr (cap\<lparr>ci_pkg_aid := \<lparr>cb_buffer = aid, cb_size = uint aid_len, cb_len = uint aid_len\<rparr>\<rparr>)))))"

text \<open>The first loop adds up the lengths, in one byte, and advances by the sum so far.\<close>

fun aid_sum :: "u8 list \<Rightarrow> int \<Rightarrow> nat \<Rightarrow> u32 \<Rightarrow> u8 \<Rightarrow> u8 res" where
  "aid_sum b base 0 off adi = Inr adi"
| "aid_sum b base (Suc n) off adi =
     bindR (rd b (base + uint off)) (\<lambda>x.
       let adi = adi + x in aid_sum b base n (off + ucast adi + 3) adi)"

fun aid_copy :: "u8 list \<Rightarrow> int \<Rightarrow> nat \<Rightarrow> u32 \<Rightarrow> u32 \<Rightarrow> u8 \<Rightarrow> u8 list \<Rightarrow> (u8 \<times> u8 list) res" where
  "aid_copy b base 0 off pos adi aid = Inr (adi, aid)"
| "aid_copy b base (Suc n) off pos adi aid =
     bindR (rd b (base + uint off)) (\<lambda>adi.
     bindR (rdn b (base + uint off + 1) (uint adi)) (\<lambda>xs.
     bindR (wrn aid (uint pos) xs) (\<lambda>aid.
       aid_copy b base n (off + ucast adi + 3) (pos + ucast adi) adi aid)))"

definition cap_applet_aid :: "(int \<Rightarrow> u8 list) \<Rightarrow> cap_info \<Rightarrow> cap_info res" where
  "cap_applet_aid fresh cap =
     (let b = cb_buffer (ci_content cap); base = cb_len (ci_content cap) in
      bindR (rd b (base + 3)) (\<lambda>app_cnt.
      bindR (aid_sum b base (unat app_cnt) 4 0) (\<lambda>adi.
      bindR (aid_copy b base (unat app_cnt) 4 0 adi (fresh (uint adi))) (\<lambda>(adi, aid).
        Inr (cap\<lparr>ci_applet_aid := (ci_applet_aid cap)\<lparr>cb_buffer := aid, cb_len := uint adi\<rparr>\<rparr>)))))"

definition cap_step ::
  "zip_archive \<Rightarrow> (int \<Rightarrow> u8 list) \<Rightarrow> nat \<Rightarrow> u8 list \<Rightarrow> cap_info \<Rightarrow> (zip_err option \<times> cap_info) res"
where
  "cap_step za fresh i name cap =
     (let index = za_locate za name in
      if index = -1 then Inr (Some FM_ZIP_FILE_NO_ENTRY_MATCH, cap)
      else case za_stat za index of
        None \<Rightarrow> Inr (Some FM_ZIP_FILE_STATE_FAILED, cap)
      | Some None \<Rightarrow> Inr (Some FM_ZIP_FILE_SIZE_NOT_AVAIL, cap)
      | Some (Some sz) \<Rightarrow>
          (case za_open za index of
             None \<Rightarrow> Inr (Some FM_ZIP_FILE_ENTRY_NOT_OPEN, cap)
           | Some data \<Rightarrow>
               bindR (cap_grow fresh sz (ci_content cap)) (\<lambda>c.
               bindR (wrn (cb_buffer c) (cb_len c) (take (nat sz) data)) (\<lambda>b.
               let cap = cap\<lparr>ci_content := c\<lparr>cb_buffer := b\<rparr>\<rparr> in
               bindR (if i = 0 then cap_pkg_aid fresh cap else Inr cap) (\<lambda>cap.
               bindR (if i = 3 then cap_applet_aid fresh cap else Inr cap) (\<lambda>cap.
                 Inr (None, cap\<lparr>ci_content := (ci_content cap)\<lparr>cb_len := cb_len (ci_content cap) + sz\<rparr>\<rparr>)))))))"

fun cap_loop ::
  "zip_archive \<Rightarrow> (int \<Rightarrow> u8 list) \<Rightarrow> nat \<Rightarrow> u8 list list \<Rightarrow> cap_info \<Rightarrow> (zip_err option \<times> cap_info) res"
where
  "cap_loop za fresh i [] cap = Inr (None, cap)"
| "cap_loop za fresh i (name # names) cap =
     bindR (cap_step za fresh i name cap) (\<lambda>(e, cap).
       case e of Some x \<Rightarrow> Inr (Some x, cap) | None \<Rightarrow> cap_loop za fresh (i + 1) names cap)"

definition caploader_load ::
  "zip_archive option \<Rightarrow> (int \<Rightarrow> u8 list) \<Rightarrow> (cap_buffer \<Rightarrow> cap_buffer) \<Rightarrow> cap_info \<Rightarrow> (zip_err option \<times> cap_info) res"
where
  "caploader_load archive fresh hash cap =
     (let cap = cap\<lparr>ci_content := \<lparr>cb_buffer = fresh (36 * 1024), cb_size = 36 * 1024, cb_len = 0\<rparr>\<rparr> in
      case archive of
        None \<Rightarrow> Inr (Some FM_ZIP_FILE_OPEN_FAILED, cap)
      | Some za \<Rightarrow>
          bindR (cap_loop za fresh 0 sub_cap_name cap) (\<lambda>(e, cap).
            case e of
              Some x \<Rightarrow> Inr (Some x, cap)
            | None \<Rightarrow> Inr (None, cap\<lparr>ci_hash := hash (ci_content cap)\<rparr>)))"

section \<open>Lemmas\<close>

text \<open>A buffer that holds \<open>xs\<close>, and one into which \<open>d\<close> has been written behind it.\<close>

definition cap_holds :: "cap_buffer \<Rightarrow> u8 list \<Rightarrow> u8 list \<Rightarrow> bool" where
  "cap_holds c xs d \<longleftrightarrow> cb_len c = int (length xs) \<and> (\<exists>r. cb_buffer c = xs @ d @ r)
     \<and> cb_size c = int (length (cb_buffer c))"

definition in_zip :: "zip_archive \<Rightarrow> u8 list \<Rightarrow> u8 list \<Rightarrow> bool" where
  "in_zip za name d \<longleftrightarrow> za_locate za name \<noteq> -1 \<and> za_stat za (za_locate za name) = Some (Some (int (length d)))
     \<and> za_open za (za_locate za name) = Some d"

definition mallocs :: "(int \<Rightarrow> u8 list) \<Rightarrow> bool" where
  "mallocs fresh \<longleftrightarrow> (\<forall>n\<ge>0. length (fresh n) = nat n)"

lemma cap_grow_ok:
  assumes "cap_holds c xs []" and "mallocs fresh"
  shows "\<exists>c'. cap_grow fresh (int n) c = Inr c' \<and> cap_holds c' xs [] \<and> int n \<le> cb_size c' - cb_len c'"
proof (cases "cb_size c - cb_len c < int n")
  case True
  obtain r where c: "cb_len c = int (length xs)" "cb_buffer c = xs @ r" "cb_size c = int (length xs + length r)"
    using assms(1) by (auto simp: cap_holds_def)
  let ?n = "cb_size c + (int n div 4 + 1) * 1024"
  have l: "length (fresh ?n) = nat ?n" using assms(2) c by (simp add: mallocs_def)
  have "x < 4 * k + 4 \<Longrightarrow> 0 \<le> k \<Longrightarrow> x \<le> (k + 1) * 1024" for x k :: int by simp
  from this [of "int n" "int n div 4"] have "int n \<le> (int n div 4 + 1) * 1024" by simp
  then have le: "int (length xs) + int n \<le> ?n" using c(3) by simp
  have "cap_grow fresh (int n) c = Inr (c\<lparr>cb_size := ?n, cb_buffer := xs @ drop (length xs) (fresh ?n)\<rparr>)"
    using True l le by (simp add: cap_grow_def c(1,2) Let_def rdn_def wrn_def)
  moreover have "cap_holds (c\<lparr>cb_size := ?n, cb_buffer := xs @ drop (length xs) (fresh ?n)\<rparr>) xs []"
    using l le c(1) by (simp add: cap_holds_def)
  ultimately show ?thesis using le c(1) by force
next
  case False
  then show ?thesis using assms(1) by (simp add: cap_grow_def)
qed

text \<open>Up to the parsing of the component, a step writes it behind the content.\<close>

lemma cap_step_written:
  assumes "in_zip za name d" and "cap_holds (ci_content cap) xs []" and "mallocs fresh"
  shows "\<exists>c. cap_holds c xs d \<and> cap_step za fresh i name cap =
    bindR (if i = 0 then cap_pkg_aid fresh (cap\<lparr>ci_content := c\<rparr>) else Inr (cap\<lparr>ci_content := c\<rparr>)) (\<lambda>cap.
    bindR (if i = 3 then cap_applet_aid fresh cap else Inr cap) (\<lambda>cap.
      Inr (None, cap\<lparr>ci_content := (ci_content cap)\<lparr>cb_len := cb_len (ci_content cap) + int (length d)\<rparr>\<rparr>)))"
proof -
  obtain c where c: "cap_grow fresh (int (length d)) (ci_content cap) = Inr c" "cap_holds c xs []"
      "int (length d) \<le> cb_size c - cb_len c"
    using cap_grow_ok [OF assms(2,3)] by blast
  obtain r where r: "cb_buffer c = xs @ r" "cb_len c = int (length xs)" "length d \<le> length r"
      "cb_size c = int (length xs + length r)"
    using c(2,3) by (auto simp: cap_holds_def)
  let ?b = "xs @ d @ drop (length d) r"
  have "wrn (cb_buffer c) (cb_len c) d = Inr ?b" using r by (simp add: wrn_def)
  moreover have "cap_holds (c\<lparr>cb_buffer := ?b\<rparr>) xs d" using r by (simp add: cap_holds_def)
  ultimately show ?thesis using assms(1) c(1)
    by (intro exI [of _ "c\<lparr>cb_buffer := ?b\<rparr>"]) (simp add: cap_step_def in_zip_def Let_def)
qed

lemma cap_holds_advance: "cap_holds c xs d \<Longrightarrow> cap_holds (c\<lparr>cb_len := cb_len c + int (length d)\<rparr>) (xs @ d) []"
  by (auto simp: cap_holds_def)

text \<open>The aids of a content and where they have to be.\<close>

definition aids_eq :: "cap_info \<Rightarrow> cap_info \<Rightarrow> bool" where
  "aids_eq a b \<longleftrightarrow> ci_pkg_aid a = ci_pkg_aid b \<and> ci_applet_aid a = ci_applet_aid b"

lemma cap_step_plain:
  assumes "in_zip za name d" and "cap_holds (ci_content cap) xs []" and "mallocs fresh" and "i \<notin> {0, 3}"
  shows "\<exists>cap'. cap_step za fresh i name cap = Inr (None, cap') \<and> cap_holds (ci_content cap') (xs @ d) [] \<and> aids_eq cap' cap"
  using cap_step_written [OF assms(1-3), of i] assms(4) cap_holds_advance by (fastforce simp: aids_eq_def)

lemma cap_loop_plain:
  "list_all2 (in_zip za) names ds \<Longrightarrow> cap_holds (ci_content cap) xs [] \<Longrightarrow> mallocs fresh \<Longrightarrow>
   \<forall>k<length names. i + k \<notin> {0, 3} \<Longrightarrow>
   \<exists>cap'. cap_loop za fresh i names cap = Inr (None, cap') \<and> cap_holds (ci_content cap') (xs @ concat ds) [] \<and> aids_eq cap' cap"
proof (induction names ds arbitrary: i cap xs rule: list_all2_induct)
  case Nil
  then show ?case by (simp add: aids_eq_def)
next
  case (Cons name names d ds)
  have "i \<notin> {0, 3}" using Cons.prems(3) by force
  from cap_step_plain [OF Cons.hyps(1) Cons.prems(1,2) this] obtain cap1 where
    c1: "cap_step za fresh i name cap = Inr (None, cap1)" "cap_holds (ci_content cap1) (xs @ d) []" "aids_eq cap1 cap" by blast
  have "\<forall>k<length names. i + 1 + k \<notin> {0, 3}" using Cons.prems(3) by fastforce
  from Cons.IH [OF c1(2) Cons.prems(2) this] c1 show ?case by (auto simp: aids_eq_def)
qed

lemma cap_loop_append:
  "cap_loop za fresh i (ns @ ms) cap = bindR (cap_loop za fresh i ns cap) (\<lambda>(e, cap).
     case e of Some x \<Rightarrow> Inr (Some x, cap) | None \<Rightarrow> cap_loop za fresh (i + length ns) ms cap)"
  by (induction ns arbitrary: i cap) (auto simp: bindR_def split: sum.splits option.splits)

lemma aid_buffer: "mallocs fresh \<Longrightarrow> uint n = int (length aid) \<Longrightarrow> wrn (fresh (uint (n :: u8))) 0 aid = Inr aid"
  by (simp add: wrn_def mallocs_def)

lemma rd_skip: "rd (xs @ b) (int (length xs) + int k) = rd b (int k)"
  by (simp add: rd_def nth_append nat_add_distrib)

lemma rdn_skip: "0 \<le> n \<Longrightarrow> rdn (xs @ b) (int (length xs) + int k) n = rdn b (int k) n"
  by (simp add: rdn_def nat_add_distrib)

lemma cap_pkg_aid_ok:
  assumes "mallocs fresh" and "cap_holds (ci_content cap) [] (pre @ n # aid @ r)" and "length pre = 12"
    and "uint n = int (length aid)"
  shows "cap_pkg_aid fresh cap = Inr (cap\<lparr>ci_pkg_aid := \<lparr>cb_buffer = aid, cb_size = uint n, cb_len = uint n\<rparr>\<rparr>)"
proof -
  obtain q where b: "cb_buffer (ci_content cap) = pre @ n # aid @ q"
    using assms(2) by (auto simp: cap_holds_def)
  have "rd (pre @ n # aid @ q) 12 = Inr n" using rd_skip [of pre "n # aid @ q" 0] assms(3) by (simp add: rd_def)
  moreover have "rdn (pre @ n # aid @ q) 13 (uint n) = Inr aid"
    using rdn_skip [of "uint n" pre "n # aid @ q" 1] assms(3,4) by (simp add: rdn_def)
  ultimately show ?thesis
    using aid_buffer [OF assms(1,4)] by (simp add: cap_pkg_aid_def b Let_def)
qed

lemma cap_applet_aid_ok:
  assumes "mallocs fresh" and "cap_holds (ci_content cap) xs ([a, b, c, 1, n] @ aid @ r)"
    and "uint n = int (length aid)"
  shows "cap_applet_aid fresh cap
    = Inr (cap\<lparr>ci_applet_aid := (ci_applet_aid cap)\<lparr>cb_buffer := aid, cb_len := uint n\<rparr>\<rparr>)"
proof -
  obtain q where b: "cb_buffer (ci_content cap) = xs @ [a, b, c, 1, n] @ aid @ q" "cb_len (ci_content cap) = int (length xs)"
    using assms(2) by (auto simp: cap_holds_def)
  let ?b = "xs @ [a, b, c, 1, n] @ aid @ q"
  have r3: "rd ?b (int (length xs) + 3) = Inr 1"
    using rd_skip [of xs "[a, b, c, 1, n] @ aid @ q" 3] by (simp add: rd_def eval_nat_numeral)
  have r4: "rd ?b (int (length xs) + 4) = Inr n"
    using rd_skip [of xs "[a, b, c, 1, n] @ aid @ q" 4] by (simp add: rd_def eval_nat_numeral)
  have r5: "rdn ?b (int (length xs) + 5) (uint n) = Inr aid"
    using rdn_skip [of "uint n" xs "[a, b, c, 1, n] @ aid @ q" 5] assms(3) by (simp add: rdn_def)
  show ?thesis
    using r3 r4 r5 aid_buffer [OF assms(1,3)]
    by (simp add: cap_applet_aid_def b Let_def add.assoc)
qed

lemma cap_step_header:
  assumes "in_zip za name d" and "cap_holds (ci_content cap) [] []" and "mallocs fresh"
    and "d = pre @ n # aid @ r" and "length pre = 12" and "uint n = int (length aid)"
  shows "\<exists>cap'. cap_step za fresh 0 name cap = Inr (None, cap') \<and> cap_holds (ci_content cap') d []
    \<and> cb_buffer (ci_pkg_aid cap') = aid \<and> cb_len (ci_pkg_aid cap') = int (length aid)"
proof -
  obtain c where c: "cap_holds c [] d" "cap_step za fresh 0 name cap =
      bindR (cap_pkg_aid fresh (cap\<lparr>ci_content := c\<rparr>)) (\<lambda>cap.
        Inr (None, cap\<lparr>ci_content := (ci_content cap)\<lparr>cb_len := cb_len (ci_content cap) + int (length d)\<rparr>\<rparr>))"
    using cap_step_written [OF assms(1-3), of 0] by auto
  have "cap_pkg_aid fresh (cap\<lparr>ci_content := c\<rparr>)
      = Inr (cap\<lparr>ci_content := c, ci_pkg_aid := \<lparr>cb_buffer = aid, cb_size = uint n, cb_len = uint n\<rparr>\<rparr>)"
    using c(1) assms(4) by (subst cap_pkg_aid_ok [OF assms(3) _ assms(5,6)]) simp_all
  then show ?thesis using c(2) cap_holds_advance [OF c(1)] assms(6) by auto
qed

lemma cap_step_applet:
  assumes "in_zip za name d" and "cap_holds (ci_content cap) xs []" and "mallocs fresh"
    and "d = [p1, p2, p3, 1, n] @ aid @ r" and "uint n = int (length aid)"
  shows "\<exists>cap'. cap_step za fresh 3 name cap = Inr (None, cap') \<and> cap_holds (ci_content cap') (xs @ d) []
    \<and> ci_pkg_aid cap' = ci_pkg_aid cap
    \<and> cb_buffer (ci_applet_aid cap') = aid \<and> cb_len (ci_applet_aid cap') = int (length aid)"
proof -
  obtain c where c: "cap_holds c xs d" "cap_step za fresh 3 name cap =
      bindR (cap_applet_aid fresh (cap\<lparr>ci_content := c\<rparr>)) (\<lambda>cap.
        Inr (None, cap\<lparr>ci_content := (ci_content cap)\<lparr>cb_len := cb_len (ci_content cap) + int (length d)\<rparr>\<rparr>))"
    using cap_step_written [OF assms(1-3), of 3] by auto
  have "cap_applet_aid fresh (cap\<lparr>ci_content := c\<rparr>) = Inr (cap\<lparr>ci_content := c,
      ci_applet_aid := (ci_applet_aid cap)\<lparr>cb_buffer := aid, cb_len := uint n\<rparr>\<rparr>)"
    using c(1) unfolding assms(4) by (subst cap_applet_aid_ok [OF assms(3) _ assms(5)]) simp_all
  then show ?thesis using c(2) cap_holds_advance [OF c(1)] assms(5) by auto
qed

section \<open>Properties\<close>

text \<open>
  C13. Loading an archive that has all nine components, whose header carries the package identifier
  and whose applet component lists one applet, gives the components joined in their order, in a
  buffer that was grown where needed and never exceeded, with both identifiers.
\<close>

theorem caploader_load_joins:
  assumes "list_all2 (in_zip za) sub_cap_name ds" and "mallocs fresh"
    and "ds ! 0 = pre @ pn # paid @ pr" and "length pre = 12" and "uint pn = int (length paid)"
    and "ds ! 3 = [a, b, c, 1, an] @ aaid @ ar" and "uint an = int (length aaid)"
  shows "\<exists>cap' r. caploader_load (Some za) fresh hash cap = Inr (None, cap')
    \<and> cb_buffer (ci_content cap') = concat ds @ r \<and> cb_len (ci_content cap') = int (length (concat ds))
    \<and> cb_size (ci_content cap') = int (length (concat ds) + length r)
    \<and> cb_buffer (ci_pkg_aid cap') = paid \<and> cb_len (ci_pkg_aid cap') = int (length paid)
    \<and> cb_buffer (ci_applet_aid cap') = aaid \<and> cb_len (ci_applet_aid cap') = int (length aaid)"
proof -
  obtain n0 n1 n2 n3 ns where names: "sub_cap_name = [n0] @ [n1, n2] @ [n3] @ ns" by (simp add: sub_cap_name_def)
  obtain d0 d1 d2 d3 ds' where ds: "ds = [d0] @ [d1, d2] @ [d3] @ ds'"
    using assms(1) unfolding names by (auto simp: list_all2_Cons1)
  have z: "in_zip za n0 d0" "list_all2 (in_zip za) [n1, n2] [d1, d2]" "in_zip za n3 d3" "list_all2 (in_zip za) ns ds'"
    using assms(1) unfolding names ds by simp_all
  have d: "d0 = pre @ pn # paid @ pr" "d3 = [a, b, c, 1, an] @ aaid @ ar" using assms(3,6) ds by simp_all
  let ?c0 = "cap\<lparr>ci_content := \<lparr>cb_buffer = fresh (36 * 1024), cb_size = 36 * 1024, cb_len = 0\<rparr>\<rparr>"
  have h0: "cap_holds (ci_content ?c0) [] []" using assms(2) by (simp add: cap_holds_def mallocs_def)
  obtain c1 where c1: "cap_step za fresh 0 n0 ?c0 = Inr (None, c1)" "cap_holds (ci_content c1) d0 []"
      "cb_buffer (ci_pkg_aid c1) = paid" "cb_len (ci_pkg_aid c1) = int (length paid)"
    using cap_step_header [OF z(1) h0 assms(2) d(1) assms(4,5)] by blast
  obtain c2 where c2: "cap_loop za fresh 1 [n1, n2] c1 = Inr (None, c2)"
      "cap_holds (ci_content c2) (d0 @ d1 @ d2) []" "aids_eq c2 c1"
    using cap_loop_plain [OF z(2) c1(2) assms(2), of 1] by (auto simp: less_Suc_eq)
  obtain c3 where c3: "cap_step za fresh 3 n3 c2 = Inr (None, c3)"
      "cap_holds (ci_content c3) (d0 @ d1 @ d2 @ d3) []" "ci_pkg_aid c3 = ci_pkg_aid c2"
      "cb_buffer (ci_applet_aid c3) = aaid" "cb_len (ci_applet_aid c3) = int (length aaid)"
    using cap_step_applet [OF z(3) c2(2) assms(2) d(2) assms(7)] by auto
  obtain c4 where c4: "cap_loop za fresh 4 ns c3 = Inr (None, c4)"
      "cap_holds (ci_content c4) (concat ds) []" "aids_eq c4 c3"
    using cap_loop_plain [OF z(4) c3(2) assms(2), of 4] by (auto simp: ds)
  have "cap_loop za fresh 0 sub_cap_name ?c0 = Inr (None, c4)"
    unfolding names cap_loop_append using c1(1) c2(1) c3(1) c4(1) by (simp add: eval_nat_numeral)
  then have "caploader_load (Some za) fresh hash cap = Inr (None, c4\<lparr>ci_hash := hash (ci_content c4)\<rparr>)"
    by (simp add: caploader_load_def Let_def)
  moreover obtain r where "cb_buffer (ci_content c4) = concat ds @ r" "cb_len (ci_content c4) = int (length (concat ds))"
      "cb_size (ci_content c4) = int (length (concat ds) + length r)"
    using c4(2) by (auto simp: cap_holds_def)
  ultimately show ?thesis using c1(3,4) c2(3) c3(3-5) c4(3) by (auto simp: aids_eq_def)
qed

text \<open>An archive whose entry number \<open>k\<close> is the \<open>k\<close>-th component.\<close>

definition demo_cap :: "u8 list list" where
  "demo_cap = [replicate 12 0 @ [2, 0xA0, 1], [1], [2], [3, 0, 9, 1, 3, 7, 7, 7], [4], [5], [6], [7], [8]]"

definition demo_zip :: zip_archive where
  "demo_zip = \<lparr>za_locate = (\<lambda>n. case map_of (zip sub_cap_name [0, 1, 2, 3, 4, 5, 6, 7, 8]) n of None \<Rightarrow> -1 | Some k \<Rightarrow> k),
     za_stat = (\<lambda>k. Some (Some (int (length (demo_cap ! nat k))))), za_open = (\<lambda>k. Some (demo_cap ! nat k))\<rparr>"

definition demo_cap_info :: cap_info where
  "demo_cap_info = (let c = \<lparr>cb_buffer = [], cb_size = 0, cb_len = 0\<rparr> in
     \<lparr>ci_content = c, ci_pkg_aid = c, ci_applet_aid = c, ci_hash = c\<rparr>)"

lemma demo_in_zip: "list_all2 (in_zip demo_zip) sub_cap_name demo_cap"
  by (simp add: in_zip_def demo_zip_def demo_cap_def sub_cap_name_def cstring_of_def of_char_def)

theorem caploader_load_joins_witness:
  "\<exists>cap'. caploader_load (Some demo_zip) (\<lambda>n. replicate (nat n) 0) (\<lambda>c. c)
      demo_cap_info = Inr (None, cap')
    \<and> cb_buffer (ci_pkg_aid cap') = [0xA0, 1] \<and> cb_buffer (ci_applet_aid cap') = [7, 7, 7]"
proof -
  have m: "mallocs (\<lambda>n. replicate (nat n) 0)" by (simp add: mallocs_def)
  have d: "demo_cap ! 0 = replicate 12 0 @ 2 # [0xA0, 1] @ []" "demo_cap ! 3 = [3, 0, 9, 1, 3] @ [7, 7, 7] @ []"
    by (simp_all add: demo_cap_def)
  show ?thesis
    using caploader_load_joins [OF demo_in_zip m d(1) _ _ d(2), of "\<lambda>c. c"
        "demo_cap_info"] by auto
qed

text \<open>
  Receiving in the agent never yields a packet: the check byte is complemented as an \<open>int\<close>, so
  the comparison with a byte is always false and every message closes its connection.
\<close>

theorem do_read_never:
  assumes "do_read os_read close_fd monitor_del_event raw glb len_buf fd w = Inr (skb, glb', w')"
  shows "skb = None \<and> glb' = glb \<and> w' = monitor_del_event fd (close_fd fd (snd (os_read fd 4 w)))"
proof -
  have "uint b0 \<noteq> NOT (uint b1)" for b0 b1 :: u8
    using uint_ge_0 [of b0] uint_ge_0 [of b1] unfolding not_int_def by linarith
  then show ?thesis
    using assms by (auto simp: do_read_def bindR_Inr_iff Let_def split: prod.splits if_splits)
qed

theorem do_read_never_example:
  "do_read (\<lambda>fd n w. ((4, [0x55, 0xAA, 0, 1]), w)) (\<lambda>fd w. w @ [fd]) (\<lambda>fd w. w) raw_skb 0 [0, 0, 0, 0] 5 []
    = Inr (None, 0, [5])"
proof -
  obtain skb g w where r: "do_read (\<lambda>fd n w. ((4, [0x55, 0xAA, 0, 1]), w)) (\<lambda>fd w. w @ [fd]) (\<lambda>fd w. w) raw_skb 0
      [0, 0, 0, 0] 5 [] = Inr (skb, g, w)"
    by (simp add: do_read_def wrn_def rd_def)
  from do_read_never [OF this] r show ?thesis by simp
qed

text \<open>
  With two applets the identifiers are copied one behind the other, but the recorded length is
  that of the last one only.
\<close>

theorem cap_applet_aid_two:
  assumes "mallocs fresh" and "uint n1 = int (length aid1)" and "uint n2 = int (length aid2)"
    and "length aid1 + length aid2 < 256"
    and "cap_holds (ci_content cap) xs ([a, b, c, 2, n1] @ aid1 @ [m1, m2] @ n2 # aid2 @ r)"
  shows "\<exists>cap'. cap_applet_aid fresh cap = Inr cap' \<and> cb_buffer (ci_applet_aid cap') = aid1 @ aid2
    \<and> cb_len (ci_applet_aid cap') = int (length aid2)"
proof -
  obtain q where b: "cb_buffer (ci_content cap) = xs @ [a, b, c, 2, n1] @ aid1 @ [m1, m2] @ n2 # aid2 @ q"
      "cb_len (ci_content cap) = int (length xs)"
    using assms(5) by (auto simp: cap_holds_def)
  let ?B = "xs @ [a, b, c, 2, n1] @ aid1 @ [m1, m2] @ n2 # aid2 @ q" and ?L = "int (length xs)" and ?l = "int (length aid1)"
  let ?o = "4 + ucast n1 + 3 :: u32"
  have o: "uint ?o = ?l + 7" "uint (0 + ucast n1 :: u32) = ?l"
    using assms(2,4) by (simp_all add: uint_word_ariths unsigned_ucast_eq take_bit_int_eq_self)
  have s: "uint (n1 + n2) = ?l + int (length aid2)"
    using assms(2-4) by (simp add: uint_word_ariths)
  have B2: "?B = (xs @ [a, b, c, 2, n1] @ aid1 @ [m1, m2]) @ n2 # aid2 @ q" by simp
  have r: "rd ?B (?L + 3) = Inr 2" "rd ?B (?L + 4) = Inr n1"
    using rd_skip [of xs "[a, b, c, 2, n1] @ aid1 @ [m1, m2] @ n2 # aid2 @ q" 3]
      rd_skip [of xs "[a, b, c, 2, n1] @ aid1 @ [m1, m2] @ n2 # aid2 @ q" 4]
    by (simp_all add: rd_def eval_nat_numeral)
  have r2: "rd ?B (?L + (?l + 7)) = Inr n2"
    unfolding B2 using rd_skip [of "xs @ [a, b, c, 2, n1] @ aid1 @ [m1, m2]" "n2 # aid2 @ q" 0] by (simp add: rd_def add_ac)
  have x1: "rdn ?B (?L + 4 + 1) (uint n1) = Inr aid1"
    using rdn_skip [of "uint n1" xs "[a, b, c, 2, n1] @ aid1 @ [m1, m2] @ n2 # aid2 @ q" 5] assms(2)
    by (simp add: rdn_def add_ac)
  have x2: "rdn ?B (?L + (?l + 7) + 1) (uint n2) = Inr aid2"
    unfolding B2 using rdn_skip [of "uint n2" "xs @ [a, b, c, 2, n1] @ aid1 @ [m1, m2]" "n2 # aid2 @ q" 1] assms(3)
    by (simp add: rdn_def add_ac)
  have l: "length (fresh (uint (n1 + n2))) = length aid1 + length aid2" using assms(1) s by (simp add: mallocs_def nat_add_distrib)
  have sum: "aid_sum ?B ?L (Suc (Suc 0)) 4 0 = Inr (n1 + n2)"
    using r r2 o by (simp add: Let_def)
  let ?f = "fresh (uint (n1 + n2))"
  have w: "wrn ?f 0 aid1 = Inr (aid1 @ drop (length aid1) ?f)" "wrn (aid1 @ drop (length aid1) ?f) ?l aid2 = Inr (aid1 @ aid2)"
    using l by (simp_all add: wrn_def)
  have "aid_copy ?B ?L (Suc (Suc 0)) 4 0 (n1 + n2) ?f = Inr (n2, aid1 @ aid2)"
    using r r2 o x1 x2 w by simp
  note copy = this [folded numeral_2_eq_2]
  show ?thesis using r(1) sum [folded numeral_2_eq_2] copy assms(3)
    unfolding cap_applet_aid_def b Let_def by (simp del: aid_sum.simps aid_copy.simps)
qed

theorem cap_applet_aid_two_example:
  "\<exists>cap'. cap_applet_aid (\<lambda>n. replicate (nat n) 0)
      \<lparr>ci_content = \<lparr>cb_buffer = [0, 0, 0, 2, 1, 8, 0, 0, 2, 9, 9], cb_size = 11, cb_len = 0\<rparr>, ci_pkg_aid = ci_pkg_aid demo_cap_info,
       ci_applet_aid = ci_applet_aid demo_cap_info, ci_hash = ci_hash demo_cap_info\<rparr> = Inr cap'
    \<and> cb_buffer (ci_applet_aid cap') = [8, 9, 9] \<and> cb_len (ci_applet_aid cap') = 2"
  using cap_applet_aid_two [of "\<lambda>n. replicate (nat n) 0" 1 "[8]" 2 "[9, 9]"
      "\<lparr>ci_content = \<lparr>cb_buffer = [0, 0, 0, 2, 1, 8, 0, 0, 2, 9, 9], cb_size = 11, cb_len = 0\<rparr>, ci_pkg_aid = ci_pkg_aid demo_cap_info,
       ci_applet_aid = ci_applet_aid demo_cap_info, ci_hash = ci_hash demo_cap_info\<rparr>" "[]" 0 0 0 0 0 "[]"]
  by (simp add: mallocs_def cap_holds_def)

text \<open>
  The check code of a message with a MAC is reduced to the last two bytes of the message, and
  that of a message with a CRC is always 0: both tests name the same level.
\<close>

theorem msg_tail_levels:
  assumes "skb_ok skb" and "skb_body skb = xs @ [a1, a2, a3, a4]"
  shows "msg_tail_handling skb CHECK_MAC = Inr (push_bit 8 (scast a3) OR scast a4)
    \<and> msg_tail_handling skb CHECK_CRC16 = Inr 0"
proof -
  obtain p q where b: "sk_block skb = p @ xs @ [a1, a2, a3, a4] @ q" "sk_data skb = int (length p)"
      "uint (sk_len skb) = int (length xs) + 4"
  proof -
    have *: "0 \<le> sk_data skb" "uint (sk_len skb) = sk_tail skb - sk_data skb" "sk_data skb \<le> sk_tail skb"
        "sk_tail skb \<le> int (length (sk_block skb))"
      using assms(1) by (auto simp: skb_ok_def)
    let ?d = "nat (sk_data skb)" and ?n = "nat (sk_tail skb - sk_data skb)"
    have "sk_block skb = take ?d (sk_block skb) @ skb_body skb @ drop ?n (drop ?d (sk_block skb))"
      unfolding skb_body_def by (metis append_take_drop_id)
    moreover have "int (length (skb_body skb)) = sk_tail skb - sk_data skb"
      using * by (simp add: skb_body_def)
    ultimately show ?thesis
      using * assms(2) by (intro that [of "take ?d (sk_block skb)" "drop ?n (drop ?d (sk_block skb))"]) simp_all
  qed
  let ?B = "(p @ xs) @ [a1, a2, a3, a4] @ q"
  let ?e = "int (length p) + (int (length xs) + 4)"
  have e: "?e - 4 = int (length (p @ xs)) + int 0" "?e - 3 = int (length (p @ xs)) + int 1"
      "?e - 2 = int (length (p @ xs)) + int 2" "?e - 1 = int (length (p @ xs)) + int 3"
    by simp_all
  have "rd ?B (?e - 4) = Inr a1" "rd ?B (?e - 3) = Inr a2" "rd ?B (?e - 2) = Inr a3" "rd ?B (?e - 1) = Inr a4"
    unfolding e rd_skip by (simp_all add: rd_def)
  then show ?thesis
    by (simp add: msg_tail_handling_def b CHECK_MAC_def CHECK_CRC16_def Let_def)
qed

theorem msg_tail_levels_example:
  "msg_tail_handling (raw_skb\<lparr>sk_data_len := 5, sk_block := [0, 1, 2, 3, 4], sk_head := 0, sk_data := 1, sk_tail := 5,
     sk_end := 5, sk_len := 4\<rparr>) CHECK_MAC = Inr 0x0304"
proof -
  let ?s = "raw_skb\<lparr>sk_data_len := 5, sk_block := [0, 1, 2, 3, 4], sk_head := 0, sk_data := 1, sk_tail := 5,
     sk_end := 5, sk_len := 4\<rparr>"
  have "skb_ok ?s" "skb_body ?s = [] @ [1, 2, 3, 4]" by (simp_all add: skb_ok_def skb_body_def)
  from msg_tail_levels [OF this] show ?thesis by simp
qed

end
