(* ===== verification/Ag_Main.thy ===== *)
theory Ag_Main
  imports Ag_Mobile Fm_Net Fm_Timer
begin

text \<open>
  The event loop of \<open>agent/ag_mobile.c\<close> and the loop of a worker thread of
  \<open>agent/ag_mobile_core.c\<close>, on the receiving function of \<open>Ag_Mobile\<close> and the event monitor of
  \<open>Fm_Net\<close>, and the start of the program. The two packet queues are lists. \<open>fifo_init\<close> writes
  \<open>agent.x\<close> for a pointer \<open>agent\<close>; it is read as \<open>agent->x\<close>. The signal handler names a device
  that no file declares; it is not modelled.
\<close>

section \<open>State and operations\<close>

record 'w mobile =
  mo_server :: int
  mo_fifo_r :: int
  mo_rq_terminal :: "sk_buff list"
  mo_rq_router :: "sk_buff list"
  mo_sem_terminal :: nat
  mo_sem_router :: nat
  mo_glb :: int
  mo_os :: 'w

definition AG_MOBILE_PORT :: int where "AG_MOBILE_PORT = 0x8444"

definition do_accept :: "'w sys \<Rightarrow> epoll_monitor \<Rightarrow> int \<Rightarrow> 'w \<Rightarrow> 'w" where
  "do_accept sy m server w =
     (case ag_server_accept sy server w of (chd_fd, w) \<Rightarrow>
      case set_nonblocking sy chd_fd w of (_, w) \<Rightarrow>
      case sy_setsockopt sy chd_fd SO_SNDBUF nSendBuf w of (_, w) \<Rightarrow>
        snd (monitor_add_event sy m chd_fd (EPOLLIN OR EPOLLET) w))"

text \<open>\<open>skb_queue_tail\<close> with a pointer that may be NULL.\<close>

definition queue_tail_ptr :: "sk_buff list \<Rightarrow> sk_buff option \<Rightarrow> sk_buff list res" where
  "queue_tail_ptr q skb = bindR (deref skb) (\<lambda>s. Inr (q @ [s]))"

text \<open>
  One event. The test is \<open>if(!skb)\<close>: a packet that was received is dropped, and a NULL pointer is
  queued. \<open>raw\<close> and \<open>len_buf\<close> are what \<open>do_read\<close> finds in memory.
\<close>

definition mobile_event ::
  "'w sys \<Rightarrow> sk_buff \<Rightarrow> u8 list \<Rightarrow> epoll_monitor \<Rightarrow> int \<Rightarrow> u32 \<Rightarrow> 'w mobile \<Rightarrow> 'w mobile res"
where
  "mobile_event sy raw len_buf m fd ev st =
     (if fd = mo_server st then Inr (st\<lparr>mo_os := do_accept sy m (mo_server st) (mo_os st)\<rparr>)
      else if ev AND EPOLLIN \<noteq> 0
      then bindR (do_read (sy_read sy) (sy_close sy) (\<lambda>fd w. snd (monitor_del_event sy m fd EPOLLIN w))
                    raw (mo_glb st) len_buf fd (mo_os st)) (\<lambda>(skb, glb, w).
             let st = st\<lparr>mo_glb := glb, mo_os := w\<rparr> in
             case skb of
               Some _ \<Rightarrow> Inr st
             | None \<Rightarrow>
                 if fd = mo_fifo_r st
                 then bindR (queue_tail_ptr (mo_rq_router st) skb) (\<lambda>q.
                        Inr (st\<lparr>mo_rq_router := q, mo_sem_router := mo_sem_router st + 1\<rparr>))
                 else bindR (queue_tail_ptr (mo_rq_terminal st) skb) (\<lambda>q.
                        Inr (st\<lparr>mo_rq_terminal := q, mo_sem_terminal := mo_sem_terminal st + 1\<rparr>)))
      else Inr st)"

fun mobile_events ::
  "'w sys \<Rightarrow> sk_buff \<Rightarrow> u8 list \<Rightarrow> epoll_monitor \<Rightarrow> nat \<Rightarrow> nat \<Rightarrow> 'w mobile \<Rightarrow> 'w mobile res"
where
  "mobile_events sy raw len_buf m i 0 st = Inr st"
| "mobile_events sy raw len_buf m i (Suc n) st =
     bindR (monitor_fd_at m (int i)) (\<lambda>fd. bindR (monitor_event_at m (int i)) (\<lambda>ev.
     bindR (mobile_event sy raw len_buf m fd ev st) (\<lambda>st. mobile_events sy raw len_buf m (i + 1) n st)))"

definition mobile_round ::
  "'w sys \<Rightarrow> sk_buff \<Rightarrow> u8 list \<Rightarrow> epoll_monitor \<times> 'w mobile \<Rightarrow> (epoll_monitor \<times> 'w mobile) res"
where
  "mobile_round sy raw len_buf = (\<lambda>(m, st).
     bindR (monitor_wait_event sy m (-1) (mo_os st)) (\<lambda>(nfds, m, w).
     bindR (mobile_events sy raw len_buf m 0 (nat nfds) (st\<lparr>mo_os := w\<rparr>)) (\<lambda>st. Inr (m, st))))"

text \<open>
  A worker gets a pointer to the agent as its argument (\<open>para\<close>, \<open>None\<close> for NULL) and follows it to its
  semaphore. It waits there (\<open>None\<close>), or goes on; the terminal worker takes a packet and forgets it.
\<close>

datatype worker = Terminal_Work | Router_Work

definition terminal_handling_work :: "unit option \<Rightarrow> 'w mobile \<Rightarrow> 'w mobile option res" where
  "terminal_handling_work para st =
     bindR (deref para) (\<lambda>agent. Inr (
       if mo_sem_terminal st = 0 then None
       else Some (st\<lparr>mo_sem_terminal := mo_sem_terminal st - 1, mo_rq_terminal := List.tl (mo_rq_terminal st)\<rparr>)))"

definition router_handling_work :: "unit option \<Rightarrow> 'w mobile \<Rightarrow> 'w mobile option res" where
  "router_handling_work para st =
     bindR (deref para) (\<lambda>agent. Inr (
       if mo_sem_router st = 0 then None else Some (st\<lparr>mo_sem_router := mo_sem_router st - 1\<rparr>)))"

definition run_worker :: "(worker, unit) thread \<Rightarrow> 'w mobile \<Rightarrow> 'w mobile option res" where
  "run_worker = (\<lambda>(func, para). case func of
     Terminal_Work \<Rightarrow> terminal_handling_work para | Router_Work \<Rightarrow> router_handling_work para)"

section \<open>Lemmas\<close>

lemma mobile_event_cases:
  assumes "mobile_event sy raw len_buf m fd ev st = Inr st'"
  shows "(fd = mo_server st \<and> st' = st\<lparr>mo_os := do_accept sy m (mo_server st) (mo_os st)\<rparr>)
    \<or> (ev AND EPOLLIN = 0 \<and> st' = st)"
  using assms
  by (auto simp: mobile_event_def bindR_Inr_iff queue_tail_ptr_def Let_def split: if_splits option.splits
      dest!: do_read_never)

lemma mobile_event_quiet:
  "mobile_event sy raw len_buf m fd ev st = Inr st' \<Longrightarrow> st' = st\<lparr>mo_os := mo_os st'\<rparr>"
  using mobile_event_cases [of sy raw len_buf m fd ev st st'] by auto

lemma mobile_events_quiet:
  "mobile_events sy raw len_buf m i n st = Inr st' \<Longrightarrow> st' = st\<lparr>mo_os := mo_os st'\<rparr>"
proof (induction n arbitrary: i st)
  case (Suc n)
  then obtain fd ev s where "mobile_event sy raw len_buf m fd ev st = Inr s"
      "mobile_events sy raw len_buf m (i + 1) n s = Inr st'"
    by (auto simp: bindR_Inr_iff)
  then show ?case using Suc.IH [of "i + 1" s] mobile_event_quiet by (metis mobile.surjective mobile.update_convs(8))
qed simp

section \<open>Properties\<close>

text \<open>
  C37. The mobile agent does not survive its first client: the event of a client that sends
  anything, or closes its connection, ends in a NULL pointer, and a round that is survived has
  queued nothing and posted no semaphore.
\<close>

theorem mobile_agent_crashes:
  assumes "fd \<noteq> mo_server st" and "ev AND EPOLLIN \<noteq> 0" and "length len_buf = 4"
    and "length (snd (fst (sy_read sy fd 4 (mo_os st)))) \<le> 4"
  shows "mobile_event sy raw len_buf m fd ev st = Inl Null_Deref
    \<and> (mobile_round sy raw len_buf (m0, st) = Inr (m', st') \<longrightarrow>
         mo_rq_terminal st' = mo_rq_terminal st \<and> mo_rq_router st' = mo_rq_router st
         \<and> mo_sem_terminal st' = mo_sem_terminal st \<and> mo_sem_router st' = mo_sem_router st)"
proof
  obtain n xs w where r: "sy_read sy fd 4 (mo_os st) = ((n, xs), w)" by (metis prod.collapse)
  have w: "wrn len_buf 0 xs = Inr (xs @ drop (length xs) len_buf)" "length (xs @ drop (length xs) len_buf) = 4"
    using assms(3,4) r by (simp_all add: wrn_def)
  have ne: "uint b0 \<noteq> NOT (uint b1)" for b0 b1 :: u8
    using uint_ge_0 [of b0] uint_ge_0 [of b1] unfolding not_int_def by linarith
  have "do_read (sy_read sy) (sy_close sy) (\<lambda>fd w. snd (monitor_del_event sy m fd EPOLLIN w)) raw (mo_glb st)
      len_buf fd (mo_os st) = Inr (None, mo_glb st, snd (monitor_del_event sy m fd EPOLLIN (sy_close sy fd w)))"
    using w by (simp add: do_read_def r Let_def rd_def ne)
  then show "mobile_event sy raw len_buf m fd ev st = Inl Null_Deref"
    using assms(1,2) by (simp add: mobile_event_def queue_tail_ptr_def Let_def)
  show "mobile_round sy raw len_buf (m0, st) = Inr (m', st') \<longrightarrow>
         mo_rq_terminal st' = mo_rq_terminal st \<and> mo_rq_router st' = mo_rq_router st
         \<and> mo_sem_terminal st' = mo_sem_terminal st \<and> mo_sem_router st' = mo_sem_router st"
  proof
    assume "mobile_round sy raw len_buf (m0, st) = Inr (m', st')"
    then obtain k w where "mobile_events sy raw len_buf m' 0 k (st\<lparr>mo_os := w\<rparr>) = Inr st'"
      by (auto simp: mobile_round_def bindR_Inr_iff)
    from arg_cong [OF mobile_events_quiet [OF this], of mo_rq_terminal]
      arg_cong [OF mobile_events_quiet [OF this], of mo_rq_router]
      arg_cong [OF mobile_events_quiet [OF this], of mo_sem_terminal]
      arg_cong [OF mobile_events_quiet [OF this], of mo_sem_router]
    show "mo_rq_terminal st' = mo_rq_terminal st \<and> mo_rq_router st' = mo_rq_router st
         \<and> mo_sem_terminal st' = mo_sem_terminal st \<and> mo_sem_router st' = mo_sem_router st" by simp
  qed
qed

definition demo_mobile_sys :: "nat sys" where
  "demo_mobile_sys = \<lparr>sy_socket = \<lambda>w. (3, w), sy_setsockopt = \<lambda>fd opt v w. (0, w), sy_bind = \<lambda>fd port w. (0, w),
     sy_listen = \<lambda>fd n w. (0, w), sy_accept = \<lambda>fd w. (7, w + 1), sy_connect = \<lambda>fd ip port w. (0, w),
     sy_getfl = \<lambda>fd w. (2, w), sy_setfl = \<lambda>fd fl w. w, sy_epoll_create = \<lambda>w. (4, w),
     sy_epoll_ctl = \<lambda>ep c fd ev w. w, sy_epoll_wait = \<lambda>ep n timeout w. ((1, [(3, EPOLLIN)]), w),
     sy_read = \<lambda>fd n w. ((4, [0x55, 0xAA, 0, 8]), w), sy_close = \<lambda>fd w. w, sy_thread = \<lambda>w. (0, w)\<rparr>"

theorem mobile_agent_crashes_witness:
  "mobile_event demo_mobile_sys raw_skb [0, 0, 0, 0] \<lparr>em_epfd = 4, em_events = []\<rparr> 7 EPOLLIN
     \<lparr>mo_server = 3, mo_fifo_r = 5, mo_rq_terminal = [], mo_rq_router = [], mo_sem_terminal = 0,
      mo_sem_router = 0, mo_glb = 0, mo_os = 0\<rparr> = Inl Null_Deref"
  by (rule mobile_agent_crashes [THEN conjunct1]) (simp_all add: EPOLLIN_def demo_mobile_sys_def)

section \<open>The start of the agent\<close>

text \<open>
  The names and descriptors of the two fifos in \<open>ag_mobile_t\<close>. \<open>mkfifo\<close> is called with a descriptor
  where its path is due, so its argument is the number used as an address.
\<close>

record agent_fifos =
  af_name_r :: "u8 list option"
  af_name_w :: "u8 list option"
  af_fifo_r :: int
  af_fifo_w :: int

definition AG_MOBILE_THRDS :: int where "AG_MOBILE_THRDS = 5"

definition fifo_make ::
  "(u8 list option \<Rightarrow> 'w \<Rightarrow> int \<times> 'w) \<Rightarrow> (int \<Rightarrow> 'w \<Rightarrow> int \<times> 'w) \<Rightarrow> u8 list option \<Rightarrow> int \<Rightarrow> 'w \<Rightarrow> int \<times> 'w"
where
  "fifo_make access mkfifo name fifo w =
     (case access name w of (res, w) \<Rightarrow> if res = -1 then mkfifo fifo w else (0, w))"

definition fifo_init ::
  "'w sys \<Rightarrow> (u8 list option \<Rightarrow> 'w \<Rightarrow> int \<times> 'w) \<Rightarrow> (int \<Rightarrow> 'w \<Rightarrow> int \<times> 'w) \<Rightarrow> epoll_monitor \<Rightarrow> agent_fifos
     \<Rightarrow> 'w \<Rightarrow> int \<times> 'w"
where
  "fifo_init sy access mkfifo m agent w =
     (case fifo_make access mkfifo (af_name_r agent) (af_fifo_r agent) w of (res, w) \<Rightarrow>
      if res \<noteq> 0 then (res, w)
      else case fifo_make access mkfifo (af_name_w agent) (af_fifo_w agent) w of (res, w) \<Rightarrow>
      if res \<noteq> 0 then (res, w)
      else let w = snd (set_nonblocking sy (af_fifo_r agent) w);
               w = snd (set_nonblocking sy (af_fifo_w agent) w);
               w = snd (monitor_add_event sy m (af_fifo_r agent) (EPOLLIN OR EPOLLET) w);
               w = snd (monitor_add_event sy m (af_fifo_w agent) (EPOLLOUT OR EPOLLET) w)
           in (0, w))"

text \<open>
  \<open>main\<close> before its loop. \<open>ok\<close> is the allocation, which clears the structure; \<open>tm\<close> is the outcome
  of starting the timer. No result but the allocation is checked. The signal handler and the log
  that it sets up leave no trace in this state.
\<close>

definition mobile_start ::
  "bool \<Rightarrow> 'w sys \<Rightarrow> (u8 list option \<Rightarrow> 'w \<Rightarrow> int \<times> 'w) \<Rightarrow> (int \<Rightarrow> 'w \<Rightarrow> int \<times> 'w) \<Rightarrow> int \<times> bool \<times> bool \<Rightarrow> int \<Rightarrow> 'w
     \<Rightarrow> (epoll_monitor \<times> 'w mobile \<times> (worker, unit) thread list \<times> fmtimer_list) option"
where
  "mobile_start ok sy access mkfifo tm glb w =
     (if \<not> ok then None
      else case monitor_init sy \<lparr>em_epfd = 0, em_events = replicate FMSH_TSM_MAX_EVENTS (0, 0)\<rparr> w of (_, m, w) \<Rightarrow>
           case ag_server_init sy AG_MOBILE_PORT w of (server, w) \<Rightarrow>
           case monitor_add_event sy m server EPOLLIN w of (_, w) \<Rightarrow>
           case fifo_init sy access mkfifo m \<lparr>af_name_r = None, af_name_w = None, af_fifo_r = 0, af_fifo_w = 0\<rparr> w of (_, w) \<Rightarrow>
           case tm of (next_id, thread_up, timer_up) \<Rightarrow>
           case fmtimer_init next_id thread_up timer_up GR_SECOND 10 of (_, t) \<Rightarrow>
           case init_thread_pool sy AG_MOBILE_THRDS Terminal_Work [] w of (_, ths, w) \<Rightarrow>
           case init_thread_pool sy AG_MOBILE_THRDS Router_Work ths w of (_, ths, w) \<Rightarrow>
             Some (m, \<lparr>mo_server = server, mo_fifo_r = 0, mo_rq_terminal = [], mo_rq_router = [],
                       mo_sem_terminal = 0, mo_sem_router = 0, mo_glb = glb, mo_os = w\<rparr>, ths, t))"

text \<open>The running agent: its start, rounds of the event loop, and steps of the workers it started.\<close>

type_synonym 'w agent_run = "epoll_monitor \<times> 'w mobile \<times> (worker, unit) thread list"

inductive mobile_reach ::
  "'w sys \<Rightarrow> (u8 list option \<Rightarrow> 'w \<Rightarrow> int \<times> 'w) \<Rightarrow> (int \<Rightarrow> 'w \<Rightarrow> int \<times> 'w) \<Rightarrow> 'w agent_run \<Rightarrow> bool"
  for sy access mkfifo
where
  reach_start: "mobile_start True sy access mkfifo tm glb w = Some (m, st, ths, t) \<Longrightarrow> mobile_reach sy access mkfifo (m, st, ths)"
| reach_round: "mobile_reach sy access mkfifo (m, st, ths) \<Longrightarrow> mobile_round sy raw len_buf (m, st) = Inr (m', st') \<Longrightarrow>
    mobile_reach sy access mkfifo (m', st', ths)"
| reach_worker: "mobile_reach sy access mkfifo (m, st, ths) \<Longrightarrow> th \<in> set ths \<Longrightarrow> run_worker th st = Inr (Some st') \<Longrightarrow>
    mobile_reach sy access mkfifo (m, st', ths)"

definition mobile_idle :: "'w mobile \<Rightarrow> bool" where
  "mobile_idle st \<longleftrightarrow> mo_rq_terminal st = [] \<and> mo_rq_router st = [] \<and> mo_sem_terminal st = 0 \<and> mo_sem_router st = 0"

lemma mobile_start_idle: "mobile_start ok sy access mkfifo tm glb w = Some (m, st, ths, t) \<Longrightarrow> mobile_idle st"
  by (auto simp: mobile_start_def mobile_idle_def split: if_splits prod.splits)

lemma mobile_idle_os: "mobile_idle st \<Longrightarrow> st' = st\<lparr>mo_os := w\<rparr> \<Longrightarrow> mobile_idle st'"
  by (simp add: mobile_idle_def)

lemma mobile_round_idle:
  assumes "mobile_round sy raw len_buf (m, st) = Inr (m', st')" and "mobile_idle st"
  shows "mobile_idle st'"
proof -
  obtain k w where "mobile_events sy raw len_buf m' 0 k (st\<lparr>mo_os := w\<rparr>) = Inr st'"
    using assms(1) by (auto simp: mobile_round_def bindR_Inr_iff)
  from mobile_events_quiet [OF this] show ?thesis
    by (rule mobile_idle_os [rotated]) (use assms(2) in \<open>simp add: mobile_idle_def\<close>)
qed

text \<open>The threads of a pool all get NULL, and a worker that gets NULL faults at once.\<close>

lemma thread_loop_starts:
  "\<exists>k\<le>n. fst (snd (thread_loop sy func n ths w)) = ths @ replicate k (func, None)"
proof (induction n arbitrary: ths w)
  case (Suc n)
  obtain ret w' where r: "sy_thread sy w = (ret, w')" by fastforce
  show ?case
  proof (cases "ret = 0")
    case True
    obtain k where "k \<le> n" "fst (snd (thread_loop sy func n (ths @ [(func, None)]) w')) = (ths @ [(func, None)]) @ replicate k (func, None)"
      using Suc.IH by blast
    then show ?thesis using True r by (intro exI [of _ "Suc k"]) simp
  next
    case False
    then show ?thesis using r by (intro exI [of _ 0]) simp
  qed
qed simp

lemma thread_loop_all:
  "\<forall>w. fst (sy_thread sy w) = 0 \<Longrightarrow> fst (snd (thread_loop sy func n ths w)) = ths @ replicate n (func, None)"
  by (induction n arbitrary: ths w) (auto simp: split_beta)

lemma mobile_start_threads:
  assumes "mobile_start ok sy access mkfifo tm glb w = Some (m, st, ths, t)"
  obtains w1 w2 where "ths = fst (snd (thread_loop sy Router_Work 5 (fst (snd (thread_loop sy Terminal_Work 5 [] w1))) w2))"
  using assms
  by (auto simp: mobile_start_def init_thread_pool_def AG_MOBILE_THRDS_def split_beta Let_def split: if_splits)

lemma null_worker: "run_worker (func, None) st = Inl Null_Deref"
  by (cases func) (simp_all add: run_worker_def terminal_handling_work_def router_handling_work_def)

definition pool_ok :: "'w sys \<Rightarrow> (worker, unit) thread list \<Rightarrow> bool" where
  "pool_ok sy ths \<longleftrightarrow> (\<forall>th\<in>set ths. snd th = None) \<and> length ths \<le> 10
     \<and> ((\<forall>w. fst (sy_thread sy w) = 0) \<longrightarrow> ths = replicate 5 (Terminal_Work, None) @ replicate 5 (Router_Work, None))"

lemma mobile_reach_ok: "mobile_reach sy access mkfifo s \<Longrightarrow> mobile_idle (fst (snd s)) \<and> pool_ok sy (snd (snd s))"
proof (induction rule: mobile_reach.induct)
  case (reach_start tm glb w m st ths t)
  obtain w1 w2 where ths: "ths = fst (snd (thread_loop sy Router_Work 5 (fst (snd (thread_loop sy Terminal_Work 5 [] w1))) w2))"
    by (rule mobile_start_threads [OF reach_start])
  obtain j where j: "j \<le> 5" "fst (snd (thread_loop sy Terminal_Work 5 [] w1)) = replicate j (Terminal_Work, None :: unit option)"
    using thread_loop_starts [of 5 sy Terminal_Work "[]" w1] by auto
  obtain k where k: "k \<le> 5" "ths = replicate j (Terminal_Work, None) @ replicate k (Router_Work, None)"
    using thread_loop_starts [of 5 sy Router_Work "replicate j (Terminal_Work, None)" w2] j(2) ths by auto
  moreover have "(\<forall>w. fst (sy_thread sy w) = 0) \<longrightarrow> ths = replicate 5 (Terminal_Work, None) @ replicate 5 (Router_Work, None)"
    unfolding ths by (simp add: thread_loop_all)
  ultimately have "pool_ok sy ths" using j(1) k by (auto simp: pool_ok_def)
  then show ?case using mobile_start_idle [OF reach_start] by simp
next
  case (reach_round m st ths raw len_buf m' st')
  then show ?case using mobile_round_idle by auto
next
  case (reach_worker m st ths th st')
  then have "snd th = None" by (simp add: pool_ok_def)
  then show ?case using reach_worker(3) null_worker [of "fst th" st] by (cases th) simp
qed

text \<open>
  C36. The workers of the mobile agent never do anything but crash. In every state the agent reaches,
  whatever the operating system answers, both packet queues are empty, at most ten workers were
  started, and the next step of every one of them follows the NULL pointer that the pool passes in
  place of the agent; when every thread could be created, these are five of each kind.
\<close>

theorem mobile_workers_crash:
  assumes "mobile_reach sy access mkfifo (m, st, ths)"
  shows "mo_rq_terminal st = [] \<and> mo_rq_router st = [] \<and> length ths \<le> 10
    \<and> (\<forall>th\<in>set ths. run_worker th st = Inl Null_Deref)
    \<and> ((\<forall>w. fst (sy_thread sy w) = 0) \<longrightarrow> map fst ths = replicate 5 Terminal_Work @ replicate 5 Router_Work)"
proof -
  have ok: "mobile_idle st" "pool_ok sy ths" using mobile_reach_ok [OF assms] by simp_all
  have "run_worker th st = Inl Null_Deref" if "th \<in> set ths" for th
  proof -
    have "snd th = None" using that ok(2) by (simp add: pool_ok_def)
    then show ?thesis using null_worker [of "fst th" st] by (cases th) simp
  qed
  then show ?thesis using ok by (auto simp: mobile_idle_def pool_ok_def)
qed

text \<open>
  The fifos of the agent have no names: \<open>access\<close> and \<open>mkfifo\<close> report the bad address, no fifo is
  watched, and the agent starts all the same.
\<close>

theorem mobile_starts_without_fifos:
  assumes "access None = (\<lambda>w. (-1, w))" and "mkfifo 0 = (\<lambda>w. (-1, w))"
  shows "fifo_init sy access mkfifo m \<lparr>af_name_r = None, af_name_w = None, af_fifo_r = 0, af_fifo_w = 0\<rparr> w = (-1, w)
    \<and> (\<exists>s. mobile_start True sy access mkfifo tm glb w = Some s)"
  using assms by (simp add: fifo_init_def fifo_make_def mobile_start_def split: prod.splits)

text \<open>A client connects to the started agent; then one of the ten workers is scheduled.\<close>

theorem mobile_workers_crash_witness:
  "\<exists>m st ths. mobile_reach demo_mobile_sys (\<lambda>_ w. (-1, w)) (\<lambda>_ w. (-1, w)) (m, st, ths)
     \<and> mo_os st = 1 \<and> length ths = 10 \<and> run_worker (ths ! 7) st = Inl Null_Deref"
proof -
  let ?m = "\<lparr>em_epfd = 4, em_events = replicate FMSH_TSM_MAX_EVENTS (0, 0)\<rparr>"
  let ?st = "\<lparr>mo_server = 3, mo_fifo_r = 0, mo_rq_terminal = [], mo_rq_router = [], mo_sem_terminal = 0,
      mo_sem_router = 0, mo_glb = 0, mo_os = 0 :: nat\<rparr>"
  let ?m1 = "?m\<lparr>em_events := (3, EPOLLIN) # replicate 1023 (0, 0)\<rparr>"
  let ?st1 = "?st\<lparr>mo_os := 1\<rparr>"
  let ?ths = "replicate 5 (Terminal_Work, None) @ replicate 5 (Router_Work, None) :: (worker, unit) thread list"
  have l: "thread_loop demo_mobile_sys f n ths w = (0, ths @ replicate n (f, None), w)"
    for f n w and ths :: "(worker, unit) thread list"
    by (induction n arbitrary: ths) (simp_all add: demo_mobile_sys_def)
  have n: "set_nonblocking demo_mobile_sys fd w = (2, w)" for fd w
    by (simp add: set_nonblocking_def demo_mobile_sys_def)
  have g: "ag_server_init demo_mobile_sys AG_MOBILE_PORT w = (3, w)"
      "monitor_init demo_mobile_sys m w = (0, m\<lparr>em_epfd := 4\<rparr>, w)" "monitor_add_event demo_mobile_sys m fd ev w = (0, w)" for m fd ev w
    using n by (simp_all add: ag_server_init_def set_socket_reuseaddr_def monitor_init_def monitor_add_event_def
        demo_mobile_sys_def)
  have "mobile_start True demo_mobile_sys (\<lambda>_ w. (-1, w)) (\<lambda>_ w. (-1, w)) (0, True, True) 0 0
      = Some (?m, ?st, ?ths, snd (fmtimer_init 0 True True GR_SECOND 10))"
    by (simp add: mobile_start_def g fifo_init_def fifo_make_def init_thread_pool_def l split_beta AG_MOBILE_THRDS_def)
  then have a: "mobile_reach demo_mobile_sys (\<lambda>_ w. (-1, w)) (\<lambda>_ w. (-1, w)) (?m, ?st, ?ths)" by (rule reach_start)
  have "mobile_round demo_mobile_sys raw_skb [0, 0, 0, 0] (?m, ?st) = Inr (?m1, ?st1)"
  proof -
    have r: "replicate FMSH_TSM_MAX_EVENTS (0 :: int, 0 :: u32) = (0, 0) # replicate 1023 (0, 0)"
      unfolding replicate_Suc [symmetric] by (simp add: FMSH_TSM_MAX_EVENTS_def)
    have "monitor_wait_event demo_mobile_sys ?m (-1) 0 = Inr (1, ?m1, 0)"
      unfolding r by (simp add: monitor_wait_event_def demo_mobile_sys_def wrn_def)
    moreover have "mobile_events demo_mobile_sys raw_skb [0, 0, 0, 0] ?m1 0 1 ?st = Inr ?st1"
      by (simp add: monitor_fd_at_def monitor_event_at_def rd_def mobile_event_def do_accept_def ag_server_accept_def
          set_nonblocking_def monitor_add_event_def demo_mobile_sys_def)
    ultimately show ?thesis by (simp add: mobile_round_def)
  qed
  from reach_round [OF a this]
  have r: "mobile_reach demo_mobile_sys (\<lambda>_ w. (-1, w)) (\<lambda>_ w. (-1, w)) (?m1, ?st1, ?ths)" .
  have t: "?ths ! 7 \<in> set ?ths" by (rule nth_mem) simp
  have "run_worker (?ths ! 7) ?st1 = Inl Null_Deref"
    using mobile_workers_crash [OF r, THEN conjunct2, THEN conjunct2, THEN conjunct2, THEN conjunct1] t by blast
  then show ?thesis using r by (intro exI [of _ ?m1] exI [of _ ?st1] exI [of _ ?ths]) simp
qed

end
