(* ===== verification/Spec2Isabelle.thy ===== *)
theory Spec2Isabelle
  imports Fm_Walk Fm_Alloc Bc_Keys Fm_Timer Tsm_Main Tsm_Bcloader Tsm_Types Tsm_Session Tsm_Recv Ag_Main
begin

text \<open>
  Verification library of the TSM virtual machine, a server that runs scripts of byte codes against
  smart cards which agents make reachable over the network.

  The program. A script is a text file of numbered byte codes with parameters. For every session the
  server keeps a control block with a program counter, the script, a table of byte code functions,
  a hash table of variables, and queues of command packets. The router thread receives packets from
  agents, creates sessions, and queues packets for the interpreter; the interpreter splits a
  response into fragments, calls the byte code the session stands at, and, when that asks for it,
  frames the queued commands and hands them to the sending thread, which puts a head in front and
  writes them to the agent. Byte codes come from shared libraries and are found by name.

  Theories, with the files under \<open>src/\<close> they model:

  \<^item> \<open>Tsm_Prelude\<close>: machine integers, the ways an operation fails to return (\<open>fault\<close>), sequencing
    (\<open>bindR\<close>), loops (\<open>foldR\<close>), checked reads and writes of a block of memory.
  \<^item> \<open>Fm_Bytes\<close> (\<open>common/fm_Bytes.c\<close>), \<open>Fm_Util\<close> (\<open>common/fm_Util.c\<close>), \<open>Fm_Skbuff\<close> (the packet
    buffers of \<open>common/fm_skbuff.c\<close>, with the locale \<open>packet_buffer\<close>), \<open>Fm_List\<close>
    (\<open>common/fm_List.h\<close>, \<open>fm_List.c\<close>: rings on a heap of pointers), \<open>Fm_Skbq\<close> (the packet queues,
    with the locales of a queue and of a double ended queue), \<open>Fm_Walk\<close> (the loop macros of
    \<open>fm_List.h\<close> and \<open>fm_skbuff.h\<close>, each a C loop over a cursor whose body may change the heap),
    \<open>Fm_Hashtable\<close> (\<open>common/fm_hashtable.c\<close>, with the locale of its key operations), \<open>Fm_Timer\<close>
    (\<open>common/fm_timer.c\<close>), \<open>Fm_Free\<close> (every function that releases a structure, on the set of
    allocated blocks), \<open>Fm_Alloc\<close> (those that allocate one, on the same heap, with every pattern of
    failures; \<open>common/fm_Mem.c\<close>), \<open>Fm_Net\<close> (\<open>fm_Monitor.c\<close>, \<open>fm_socket.c\<close>, \<open>agent/ag_socket.c\<close>, over the
    system calls as parameters).
  \<^item> \<open>Tsm_Ccb\<close> (\<open>tsm_ccb.c\<close>: control blocks and the byte code table), \<open>Tsm_Vm\<close> (\<open>tsm_vm.c\<close>: framing,
    splitting, the interpreter loop and its semaphore), \<open>Bc_Data\<close>, \<open>Bc_Rsp\<close>, \<open>Bc_Gp\<close> (the byte code
    libraries \<open>bc_data.c\<close>, \<open>bc_rsp.c\<close>, \<open>bc_gp.c\<close>), \<open>Bc_Keys\<close> (the keys of the variables as the
    addresses they are, on the heap of \<open>Fm_Free\<close>).
  \<^item> \<open>Tsm_Clib\<close> (the functions of the C library the loaders use: \<open>fgets\<close>, \<open>strtok\<close>, \<open>sscanf\<close>),
    \<open>Tsm_Scloader\<close>, \<open>Tsm_Cfg\<close>, \<open>Tsm_Bcloader\<close> (\<open>tsm_scloader.c\<close>, \<open>tsm_cfg.c\<close>, \<open>tsm_bcloader.c\<close>,
    and the loop of \<open>ccb_create_ccb\<close> over the libraries of a new session).
  \<^item> \<open>Tsm_Main\<close> (\<open>tsm_main.c\<close> as it is compiled: load the script, log it; \<open>fmLog_init\<close>).
  \<^item> \<open>Tsm_Router\<close> (\<open>tsm_router.c\<close>: agent table, message parser, sending thread), \<open>Tsm_Ctrl\<close> (its
    control messages: a new session, a new agent), \<open>Tsm_Recv\<close> (its receiving thread, and the three threads together),
    \<open>Tsm_System\<close> (the byte codes linked into the interpreter, its steps interleaved with the sending
    thread, with the contract between interpreter and byte codes as the locale \<open>run_contract\<close>),
    \<open>Tsm_Types\<close> (the types the variables of a session keep there) and \<open>Tsm_Session\<close> (from the message
    that opens a session to its first instruction).
  \<^item> \<open>Ag_Mobile\<close> (\<open>agent\<close>: message head, receiving function, CAP files) and \<open>Ag_Main\<close> (its
    start, event loop and workers).

  Correspondence. A C structure is a record, a pointer that may be NULL an option, a buffer the list
  of its bytes and a pointer into it an offset; an access outside the buffer is a fault, and so
  are a NULL pointer, an integer used as a pointer, an endless loop, and a lock taken twice.
  Unsigned integers keep their width. A C \<open>int\<close> is a HOL integer where the code stays
  far from its bounds. Definitions carry the names of the functions they translate; where the
  source starts with two underscores the name ends in \<open>_raw\<close>, and a loop or a part of
  a long function that has a definition of its own is named after its role. A structure is its
  content, except in \<open>Fm_List\<close>, \<open>Fm_Skbq\<close> and \<open>Fm_Walk\<close> (a
  heap of links) and in \<open>Fm_Free\<close>, \<open>Fm_Alloc\<close> and \<open>Bc_Keys\<close> (a heap of blocks). The queues of control blocks
  are lists; the pointer versions are shown to behave like them in \<open>Fm_List\<close> and
  \<open>Fm_Skbq\<close>. An operation under a lock is one step;
  \<open>fmtimer_add\<close>, which does part of its work outside the lock, is the steps of several threads that
  interleave. There is one interpreter thread, whose rounds are steps. Pointers have four bytes
  where their size shows. The loader and \<open>main\<close> write to one log, whose items the model returns in
  order; of other messages only their effects on the state are modelled.

  What the lemmas show. The data structures: lists, queues, table and buffers behave like their
  mathematical counterparts, for all sizes; the loops over entries are the loops over list heads,
  whatever their bodies do; releasing a table frees each block once, and a buffer is given back as
  it was taken, whichever allocation fails. The loaders: scripts are read
  back exactly, a library yields its functions in the order of its header, an option sets the
  number it names. The interpreter: frames and splits have the form given, its semaphores count
  the queues in every interleaving, and the variables of a session stay well-typed through every
  byte code but \<open>data_concat\<close>. The timers: every tick moves exactly the timers that are due and
  their handlers are called; the identifiers of timers differ as long as one thread adds at a time.
  The program logs the lines of the script it loads and then its instructions, for every file in
  the format of scripts. Many
  theorems state what the code does where that is not what it was meant to do: the write back
  never ends, commands lose their data, the program counter never advances, nothing is ever
  written to an agent, a registered agent blocks the sending thread, the router never receives a
  packet, the instruction of a control message is not the one that is obeyed, no new session
  survives its first instruction, the acknowledgement of a registration is never sent, no
  library reaches the table of a session, the workers of the mobile agent follow the NULL pointer
  they are started with, a packet is released with an agent it was never given, a key of the
  variables is released while it is in use, two threads that add timers get the same
  identifier, the script of the repository overflows the loader.
  They hold for the code as it is.

  Fuel. There is none: loops that end are total functions with a measure, loops that may run for
  ever are \<open>partial_function (option)\<close> whose value \<open>None\<close> is not returning, or yield the fault
  \<open>Hang\<close> where the source provably does not move.

  Readings. Some of the source does not compile as it stands. Two calls of \<open>router_aggregate_work\<close> pass
  arguments of the wrong type, a structure to \<open>list_add_entry\<close> and a data pointer to \<open>skb_pull\<close>; what
  they do is a parameter of the model (\<open>ct_add\<close>, \<open>ct_pull\<close>). \<open>fifo_init\<close> of the agent writes
  \<open>agent.x\<close> for a pointer, read as \<open>agent->x\<close>. The string \<open>dl\<close> of \<open>ccb_create_ccb\<close> is never
  assigned: the function is undefined where it reads it, and the loop that does so is also
  modelled on its own, for every such string.

  Not modelled. Code inside \<open>#if 0\<close> (among it the start of the threads in \<open>tsm_main.c\<close> and two byte
  codes of \<open>bc_rsp.c\<close>), the signal handler of the agent (it names a device and a function that no
  file declares), \<open>fm_realloc\<close> (it has no caller) and \<open>fmLog_fini\<close> (it only calls the log library).
\<close>

end
